(* ===== verification/Snvme_Types.thy ===== *)
theory Snvme_Types
  imports Snvme_Prelude
begin

text \<open>
  The data the snvme kernel module keeps, one record per C struct, and the environment a
  system call runs in. Pointers between kernel objects are identities (natural numbers)
  looked up in the maps of the kernel state \<open>kst\<close>; an intrusive list is the sequence of the
  identities on it (theory \<open>Klist\<close> relates this view to the pointer structure of
  \<open>list.c\<close>). What the module asks of the hardware and of the kernel's memory management is
  recorded in order in \<open>k_log\<close>, so that ordering and balance properties can be stated.
  What the module cannot decide itself (allocation failures, page pinning, IOMMU
  addresses, id allocation, device replies, faults when copying from and to user space) is
  the record \<open>kenv\<close>, an argument of every operation that needs it.
\<close>

subsection \<open>Constants of the interface\<close>

text \<open>\<open>enum nvm_map_kind\<close> and the limits of \<open>ioctl.h\<close>.\<close>

definition NVM_MAP_KIND_UNSPECIFIED :: u8 where "NVM_MAP_KIND_UNSPECIFIED = 0"
definition NVM_MAP_KIND_RING_SQ :: u8 where "NVM_MAP_KIND_RING_SQ = 1"
definition NVM_MAP_KIND_RING_CQ :: u8 where "NVM_MAP_KIND_RING_CQ = 2"
definition NVM_MAP_KIND_DATA :: u8 where "NVM_MAP_KIND_DATA = 3"

lemmas kind_defs = NVM_MAP_KIND_UNSPECIFIED_def NVM_MAP_KIND_RING_SQ_def
  NVM_MAP_KIND_RING_CQ_def NVM_MAP_KIND_DATA_def

abbreviation (input) NVM_MAX_GROUPS_PER_FD :: u32 where "NVM_MAX_GROUPS_PER_FD \<equiv> 1"
abbreviation (input) NVM_MAX_QUEUES_PER_GROUP :: nat where "NVM_MAX_QUEUES_PER_GROUP \<equiv> 16"
abbreviation (input) SNVM_MAX_QUEUE_GROUPS :: nat where "SNVM_MAX_QUEUE_GROUPS \<equiv> 8"
abbreviation (input) PAGE_SIZE :: u64 where "PAGE_SIZE \<equiv> 0x1000"
abbreviation (input) GPU_PAGE_SIZE :: u64 where "GPU_PAGE_SIZE \<equiv> 0x10000"

text \<open>\<open>PAGE_MASK\<close> and \<open>GPU_PAGE_MASK\<close> clear the offset within a page.\<close>

unbundle bit_operations_syntax

definition page_mask :: "u64 \<Rightarrow> u64" where
  "page_mask psz = NOT (psz - 1)"

subsection \<open>Memory mappings (map.h)\<close>

text \<open>A pinned device buffer and its mapping for one controller, as \<open>npu-p2p.c\<close> keeps them:
  the dma-buf, the page count, and the bus address of every 64 KiB page.\<close>

record p2p_page_table =
  pt_dmabuf :: nat
  pt_entries :: nat

record p2p_dma_mapping =
  dm_attach :: nat
  dm_peer :: pdev
  dm_n_addrs :: nat
  dm_dma_addresses :: "u64 list"

record gpu_region =
  gr_pages :: "p2p_page_table option"
  gr_mappings :: "p2p_dma_mapping option list"

datatype map_data = HostPages "page list" | GpuRegion gpu_region

datatype release_fn = Release_user_pages | Release_gpu_memory | Release_gpu_ioqueue_memory

record kmap =
  map_owner :: task
  map_vaddr :: u64
  map_is_cq :: int
  map_ioq_idx :: int
  map_pdev :: pdev
  map_page_size :: u64
  map_data :: "map_data option"
  map_release :: "release_fn option"
  map_group_id :: u32
  map_kind :: u8
  map_n_addrs :: nat
  map_addrs :: "u64 list"

subsection \<open>Controllers (ctrl.h)\<close>

record snvm_queue_group =
  sg_owner_id :: u32
  sg_count :: u32
  sg_numa_node :: int
  sg_reserved :: u32

record snvm_queue_setup =
  su_valid :: u32
  su_ioq_num :: u32
  su_flags :: u32
  su_cap_kernel_ioq :: u32
  su_nr_write :: u32
  su_nr_poll :: u32
  su_nr_groups :: u32
  su_groups :: "snvm_queue_group list"

text \<open>The user-QID pool of a controller: the bitmap (absent until first use) and the QID
  range it covers.\<close>

record qid_pool =
  user_qid_bitmap :: "bool list option"
  user_qid_first :: u32
  user_qid_last :: u32

record ctrl =
  ctrl_pdev :: pdev
  ctrl_number :: int
  ctrl_name :: string
  ctrl_chrdev :: bool
  ctrl_on_host :: u32
  ctrl_ioq_num :: u32
  ctrl_cq_num :: u32
  ctrl_ioq_map_num :: u32
  ctrl_use_sreg :: u32
  ctrl_setup :: snvm_queue_setup
  ctrl_pool :: qid_pool

subsection \<open>Queue groups and the per-file owner (pci.c)\<close>

record snvm_user_queue =
  uq_qid :: u16
  uq_alive :: bool
  uq_sq_vaddr :: u64
  uq_cq_vaddr :: u64

record snvm_qgroup =
  g_group_id :: u32
  g_max_queues :: u32
  g_maps :: "mid list"
  g_nr_maps :: u32
  g_queues :: "snvm_user_queue list"
  g_cur_queues :: u32

record snvm_dev_owner =
  own_ctrl :: cid
  own_owner :: task
  own_groups :: "snvm_qgroup list"
  own_nr_groups :: u32
  own_data_maps :: "mid list"
  own_nr_data_maps :: u32

subsection \<open>The NVMe device (struct nvme_dev) and the PCI device it is bound to\<close>

record nvme_dev =
  nd_admin_q :: bool
  nd_online_queues :: u32
  nd_online_user_queues :: u32
  nd_user_start_qid :: u32
  nd_max_qid :: u32
  nd_q_depth :: u32
  nd_db_stride :: u32
  nd_nr_allocated_queues :: u32
  nd_nr_write_queues :: u32
  nd_nr_poll_queues :: u32
  nd_nr_user_allocated_queues :: u32
  nd_nr_user_allocated_cq :: u32
  nd_nr_user_use_cq :: u32
  nd_nr_user_allocated_sq :: u32
  nd_nr_user_use_sq :: u32
  nd_use_user_allocated :: bool
  nd_queue_on_host :: bool
  nd_ctrl_max_io_queues :: u32
  nd_cap_kernel_ioq :: u32
  nd_max_hw_sectors :: u32
  nd_sgls :: u32

record pci_device =
  pci_class :: u32
  pci_driver :: "string option"
  pci_drvdata :: "nvme_dev option"
  pci_enabled :: bool
  pci_bar0_len :: u64
  pci_driver_override :: "string option"

subsection \<open>Commands and effects\<close>

datatype admin_cmd =
    CreateCQ (cc_prp1: u64) (cc_cqid: u16) (cc_qsize: u16) (cc_flags: u16) (cc_vector: u16)
  | CreateSQ (cs_prp1: u64) (cs_sqid: u16) (cs_qsize: u16) (cs_flags: u16) (cs_cqid: u16)
  | DeleteCQ u16
  | DeleteSQ u16

datatype kevent =
    EvAdmin pdev admin_cmd int
  | EvPinPage page
  | EvPutPage page
  | EvDmaMap pdev page u64
  | EvDmaUnmap pdev u64
  | EvDmaBufGet nat
  | EvDmaBufPut nat
  | EvAttach pdev nat nat
  | EvMapSg nat
  | EvUnmapSg nat
  | EvDetach nat
  | EvReset pdev

subsection \<open>Environment and kernel state\<close>

text \<open>Where an allocation can fail.\<close>

datatype alloc_site =
    A_map | A_pages | A_gpu_region | A_mappings | A_page_table | A_dma_mapping | A_addrs
  | A_bitmap | A_group | A_request | A_owner | A_ctrl | A_override

text \<open>Replies of the hardware and of the memory management may depend on everything that has
  happened before, so they take the log. \<open>uninit_mapping\<close> is what an uninitialised pointer slot
  returned by \<open>kmalloc\<close> happens to hold.\<close>

record kenv =
  current :: task
  copy_from_user_ok :: bool
  copy_to_user_ok :: bool
  kmalloc_ok :: "alloc_site \<Rightarrow> bool"
  uninit_mapping :: "p2p_dma_mapping option"
  uninit_u32 :: u32
  cdev_add_rc :: int
  device_create_rc :: int
  get_user_pages :: "kevent list \<Rightarrow> u64 \<Rightarrow> nat \<Rightarrow> int \<times> page list"
  dma_map_page :: "kevent list \<Rightarrow> pdev \<Rightarrow> page \<Rightarrow> u64"
  dma_mapping_error :: "pdev \<Rightarrow> u64 \<Rightarrow> int"
  dma_buf_get :: "int \<Rightarrow> int + nat"
  dma_buf_attach :: "kevent list \<Rightarrow> nat \<Rightarrow> pdev \<Rightarrow> int + nat"
  dma_buf_map_attachment :: "nat \<Rightarrow> int + (u64 \<times> u32) list"
  ida_simple_get :: "nat set \<Rightarrow> nat \<Rightarrow> int"
  admin_reply :: "kevent list \<Rightarrow> admin_cmd \<Rightarrow> int"

text \<open>What a probe of the PCI driver meets: module parameters, allocation and set-up results.\<close>

record probe_env =
  write_queues :: u32
  poll_queues :: u32
  num_possible_cpus :: u32
  quirk_shared_tags :: bool
  pe_alloc_dev :: bool
  pe_alloc_queues :: bool
  nvme_dev_map_rc :: int
  setup_prp_pools_rc :: int
  pe_alloc_mempool :: bool
  init_ctrl_rc :: int
  pci_register_driver_rc :: int
  pe_alloc_override :: bool
  device_attach_rc :: "int \<Rightarrow> int"

record kst =
  k_maps :: "mid \<rightharpoonup> kmap"
  k_next_mid :: mid
  k_host_list :: "mid list"
  k_device_list :: "mid list"
  k_device_queue_list :: "mid list"
  k_ctrls :: "cid \<rightharpoonup> ctrl"
  k_next_cid :: cid
  k_ctrl_list :: "cid list"
  k_chrdev_minor_ida :: "nat set"
  k_queue_group_ida :: "nat set"
  k_pci :: "pdev \<rightharpoonup> pci_device"
  k_registered :: bool
  k_files :: "fid \<rightharpoonup> snvm_dev_owner"
  k_log :: "kevent list"

text \<open>The state of the module right after it has been loaded.\<close>

definition empty_pool :: qid_pool where
  "empty_pool = \<lparr>user_qid_bitmap = None, user_qid_first = 0, user_qid_last = 0\<rparr>"

definition log_event :: "kevent \<Rightarrow> kst \<Rightarrow> kst" where
  "log_event ev s = s\<lparr>k_log := k_log s @ [ev]\<rparr>"

definition log_events :: "kevent list \<Rightarrow> kst \<Rightarrow> kst" where
  "log_events evs s = s\<lparr>k_log := k_log s @ evs\<rparr>"

lemma log_event_frame [simp]:
  "k_maps (log_event ev s) = k_maps s" "k_next_mid (log_event ev s) = k_next_mid s"
  "k_host_list (log_event ev s) = k_host_list s" "k_device_list (log_event ev s) = k_device_list s"
  "k_device_queue_list (log_event ev s) = k_device_queue_list s"
  "k_ctrls (log_event ev s) = k_ctrls s" "k_next_cid (log_event ev s) = k_next_cid s"
  "k_ctrl_list (log_event ev s) = k_ctrl_list s"
  "k_chrdev_minor_ida (log_event ev s) = k_chrdev_minor_ida s"
  "k_queue_group_ida (log_event ev s) = k_queue_group_ida s" "k_pci (log_event ev s) = k_pci s"
  "k_registered (log_event ev s) = k_registered s"
  "k_files (log_event ev s) = k_files s" "k_log (log_event ev s) = k_log s @ [ev]"
  by (simp_all add: log_event_def)

lemma log_events_frame [simp]:
  "k_maps (log_events evs s) = k_maps s" "k_next_mid (log_events evs s) = k_next_mid s"
  "k_host_list (log_events evs s) = k_host_list s" "k_device_list (log_events evs s) = k_device_list s"
  "k_device_queue_list (log_events evs s) = k_device_queue_list s"
  "k_ctrls (log_events evs s) = k_ctrls s" "k_next_cid (log_events evs s) = k_next_cid s"
  "k_ctrl_list (log_events evs s) = k_ctrl_list s"
  "k_chrdev_minor_ida (log_events evs s) = k_chrdev_minor_ida s"
  "k_queue_group_ida (log_events evs s) = k_queue_group_ida s" "k_pci (log_events evs s) = k_pci s"
  "k_registered (log_events evs s) = k_registered s"
  "k_files (log_events evs s) = k_files s" "k_log (log_events evs s) = k_log s @ evs"
  by (simp_all add: log_events_def)

subsection \<open>Sample values\<close>

text \<open>Concrete values for the examples: an environment in which everything succeeds, a
  controller with two kernel I/O queues and four QIDs left for user queues.\<close>

definition env_ex :: kenv where
  "env_ex = \<lparr>current = 7, copy_from_user_ok = True, copy_to_user_ok = True, kmalloc_ok = (\<lambda>_. True),
     uninit_mapping = None, uninit_u32 = 0, cdev_add_rc = 0, device_create_rc = 0, get_user_pages = (\<lambda>_ va n. (int n, [0..<n])),
     dma_map_page = (\<lambda>_ pd pg. 0x10000 + of_nat pg * 0x1000),
     dma_mapping_error = (\<lambda>_ _. 0), dma_buf_get = (\<lambda>fd. Inr (nat fd)), dma_buf_attach = (\<lambda>l b pd. Inr (length l)),
     dma_buf_map_attachment = (\<lambda>_. Inr [(0x200000, 0x20000)]),
     ida_simple_get = (\<lambda>used mn. if mn \<notin> used then int mn else - ENOSPC),
     admin_reply = (\<lambda>_ _. 0)\<rparr>"

definition nd_ex :: nvme_dev where
  "nd_ex = \<lparr>nd_admin_q = True, nd_online_queues = 3, nd_online_user_queues = 0, nd_user_start_qid = 0,
     nd_max_qid = 6, nd_q_depth = 1024, nd_db_stride = 1, nd_nr_allocated_queues = 9,
     nd_nr_write_queues = 0, nd_nr_poll_queues = 0, nd_nr_user_allocated_queues = 0, nd_nr_user_allocated_cq = 0, nd_nr_user_use_cq = 0,
     nd_nr_user_allocated_sq = 0, nd_nr_user_use_sq = 0, nd_use_user_allocated = False,
     nd_queue_on_host = False, nd_ctrl_max_io_queues = 6, nd_cap_kernel_ioq = 2,
     nd_max_hw_sectors = 256, nd_sgls = 0\<rparr>"

definition empty_setup :: snvm_queue_setup where
  "empty_setup = \<lparr>su_valid = 0, su_ioq_num = 0, su_flags = 0, su_cap_kernel_ioq = 0, su_nr_write = 0,
     su_nr_poll = 0, su_nr_groups = 0,
     su_groups = replicate SNVM_MAX_QUEUE_GROUPS \<lparr>sg_owner_id = 0, sg_count = 0, sg_numa_node = 0, sg_reserved = 0\<rparr>\<rparr>"

definition ctrl_ex :: ctrl where
  "ctrl_ex = \<lparr>ctrl_pdev = 1, ctrl_number = 0, ctrl_name = ''ssnvme0'', ctrl_chrdev = True, ctrl_on_host = 0,
     ctrl_ioq_num = 0, ctrl_cq_num = 0, ctrl_ioq_map_num = 0, ctrl_use_sreg = 0, ctrl_setup = empty_setup,
     ctrl_pool = empty_pool\<rparr>"

definition pci_ex :: pci_device where
  "pci_ex = \<lparr>pci_class = 0x010802, pci_driver = Some ''snvme'', pci_drvdata = Some nd_ex, pci_enabled = True,
     pci_bar0_len = 0x4000, pci_driver_override = None\<rparr>"

definition kst_init :: kst where
  "kst_init = \<lparr>k_maps = Map.empty, k_next_mid = 0, k_host_list = [], k_device_list = [],
     k_device_queue_list = [], k_ctrls = Map.empty, k_next_cid = 0, k_ctrl_list = [],
     k_chrdev_minor_ida = {}, k_queue_group_ida = {}, k_pci = Map.empty, k_registered = False, k_files = Map.empty, k_log = []\<rparr>"

definition kst_ex :: kst where
  "kst_ex = kst_init\<lparr>k_ctrls := [0 \<mapsto> ctrl_ex], k_next_cid := 1, k_ctrl_list := [0],
     k_chrdev_minor_ida := {0}, k_pci := [1 \<mapsto> pci_ex]\<rparr>"

end
