(* ===== verification/Npu_P2p.thy ===== *)
theory Npu_P2p
  imports Snvme_Types
begin

text \<open>
  The peer-to-peer memory back end \<open>npu-p2p.c\<close>: pinning a device buffer through its dma-buf
  file descriptor, attaching it to an NVMe controller, expanding the scatter list the
  exporter returns into one bus address per 64 KiB page, and the release functions. The
  dma-buf framework is a parameter (\<open>dma_buf_get\<close>, \<open>dma_buf_attach\<close>,
  \<open>dma_buf_map_attachment\<close> of the environment).
\<close>

unbundle bit_operations_syntax

subsection \<open>Pinning\<close>

definition nvfs_nvidia_p2p_get_pages ::
  "kenv \<Rightarrow> u64 \<Rightarrow> u64 \<Rightarrow> kst \<Rightarrow> int \<times> p2p_page_table option \<times> kst" where
  "nvfs_nvidia_p2p_get_pages e virtual_address len s =
     (let fd = sint (ucast virtual_address :: 32 word) in
      if \<not> kmalloc_ok e A_page_table then (- ENOMEM, None, s)
      else case dma_buf_get e fd of
          Inl err \<Rightarrow> (err, None, s)
        | Inr dmabuf \<Rightarrow>
            let entries = unat (ucast (drop_bit 16 len) :: u32);
                entries' = (if entries = 0 then 1 else entries)
            in (0, Some \<lparr>pt_dmabuf = dmabuf, pt_entries = entries'\<rparr>, log_event (EvDmaBufGet dmabuf) s))"

definition nvfs_nvidia_p2p_put_pages :: "p2p_page_table option \<Rightarrow> kst \<Rightarrow> int \<times> kst" where
  "nvfs_nvidia_p2p_put_pages page_table s =
     (case page_table of None \<Rightarrow> (- EINVAL, s)
      | Some pt \<Rightarrow> (0, log_event (EvDmaBufPut (pt_dmabuf pt)) s))"

definition nvfs_nvidia_p2p_free_page_table :: "p2p_page_table option \<Rightarrow> kst \<Rightarrow> int \<times> kst" where
  "nvfs_nvidia_p2p_free_page_table page_table s =
     (case page_table of None \<Rightarrow> (- EINVAL, s)
      | Some pt \<Rightarrow> (0, log_event (EvDmaBufPut (pt_dmabuf pt)) s))"

subsection \<open>Expanding the scatter list\<close>

text \<open>The inner loop over one segment: \<open>off\<close> is an \<open>unsigned int\<close>, \<open>room\<close> is \<open>n - idx\<close>.\<close>

fun expand_seg :: "u64 \<Rightarrow> u32 \<Rightarrow> u32 \<Rightarrow> nat \<Rightarrow> u64 list" where
  "expand_seg base len off 0 = []"
| "expand_seg base len off (Suc room) =
     (if off < len then (base + ucast off) # expand_seg base len (off + 0x10000) room else [])"

fun expand_sgl :: "(u64 \<times> u32) list \<Rightarrow> nat \<Rightarrow> u64 list" where
  "expand_sgl [] n = []"
| "expand_sgl ((base, len) # sgl) n =
     (let as = expand_seg base len 0 n in
      if length as \<ge> n then as else as @ expand_sgl sgl (n - length as))"

definition nvfs_nvidia_p2p_dma_map_pages ::
  "kenv \<Rightarrow> pdev \<Rightarrow> p2p_page_table option \<Rightarrow> kst \<Rightarrow> int \<times> p2p_dma_mapping option \<times> kst" where
  "nvfs_nvidia_p2p_dma_map_pages e peer page_table s =
     (case page_table of None \<Rightarrow> (- EINVAL, None, s)
      | Some pt \<Rightarrow>
          let n = pt_entries pt in
          if \<not> kmalloc_ok e A_dma_mapping then (- ENOMEM, None, s)
          else if \<not> kmalloc_ok e A_addrs then (- ENOMEM, None, s)
          else case dma_buf_attach e (k_log s) (pt_dmabuf pt) peer of
              Inl err \<Rightarrow> (err, None, s)
            | Inr attach \<Rightarrow>
                let s1 = log_event (EvAttach peer (pt_dmabuf pt) attach) s in
                (case dma_buf_map_attachment e attach of
                   Inl err \<Rightarrow> (err, None, log_event (EvDetach attach) s1)
                 | Inr sgl \<Rightarrow>
                     let as = expand_sgl sgl n in
                     (0, Some \<lparr>dm_attach = attach, dm_peer = peer, dm_n_addrs = length as,
                               dm_dma_addresses = as @ replicate (n - length as) 0\<rparr>,
                      log_event (EvMapSg attach) s1)))"

definition nvfs_nvidia_p2p_dma_unmap_pages ::
  "p2p_page_table option \<Rightarrow> p2p_dma_mapping option \<Rightarrow> kst \<Rightarrow> int \<times> kst" where
  "nvfs_nvidia_p2p_dma_unmap_pages page_table dma_mapping s =
     (case dma_mapping of None \<Rightarrow> (- EINVAL, s)
      | Some m \<Rightarrow>
          let s1 = log_event (EvUnmapSg (dm_attach m)) s;
              s2 = (if page_table \<noteq> None then log_event (EvDetach (dm_attach m)) s1 else s1)
          in (0, s2))"

subsection \<open>Correctness of the expansion\<close>

text \<open>The bus address of a byte of the buffer, by walking the scatter list.\<close>

fun sg_byte_addr :: "(u64 \<times> u32) list \<Rightarrow> nat \<Rightarrow> u64" where
  "sg_byte_addr [] off = 0"
| "sg_byte_addr ((base, len) # sgl) off =
     (if off < unat len then base + of_nat off else sg_byte_addr sgl (off - unat len))"

definition sg_total :: "(u64 \<times> u32) list \<Rightarrow> nat" where
  "sg_total sgl = sum_list (map (unat \<circ> snd) sgl)"

definition sg_aligned :: "(u64 \<times> u32) list \<Rightarrow> bool" where
  "sg_aligned sgl \<longleftrightarrow> (\<forall>seg \<in> set sgl. 65536 dvd unat (snd seg))"

lemma expand_seg_spec:
  assumes "65536 dvd unat len" "unat off \<le> unat len" "65536 dvd unat off" "unat len \<le> 0xffff0000"
  shows "expand_seg base len off room =
    map (\<lambda>i. base + of_nat (unat off + i * 65536)) [0..<min room ((unat len - unat off) div 65536)]"
  using assms
proof (induction room arbitrary: off)
  case (Suc room)
  show ?case
  proof (cases "off < len")
    case True
    then have lt: "unat off < unat len" by (simp add: word_less_nat_alt)
    obtain a b where ab: "unat off = 65536 * a" "unat len = 65536 * b" using Suc.prems by (auto elim!: dvdE)
    then have st: "unat off + 65536 \<le> unat len" using lt by simp
    then have u: "unat (off + 0x10000) = unat off + 65536"
      using Suc.prems(4) by (simp add: unat_word_ariths)
    have ih: "expand_seg base len (off + 0x10000) room =
      map (\<lambda>i. base + of_nat (unat (off + 0x10000) + i * 65536)) [0..<min room ((unat len - unat (off + 0x10000)) div 65536)]"
      by (rule Suc.IH) (use Suc.prems st u in auto)
    have m: "min (Suc room) ((unat len - unat off) div 65536) = Suc (min room ((unat len - unat (off + 0x10000)) div 65536))"
      using ab st lt by (simp add: u flip: diff_mult_distrib2)
    have "ucast off = (of_nat (unat off) :: u64)" by simp
    then show ?thesis
      using True unfolding m upt_conv_Cons [OF zero_less_Suc] map_Suc_upt [symmetric]
      by (simp add: ih u o_def algebra_simps del: upt_Suc)
  next
    case False
    then have "unat off = unat len" using Suc.prems(2) by (simp add: word_less_nat_alt)
    then show ?thesis using False by simp
  qed
qed simp

lemma expand_seg_0:
  assumes "65536 dvd unat len"
  shows "expand_seg base len 0 n = map (\<lambda>i. base + of_nat (i * 65536)) [0..<min n (unat len div 65536)]"
proof -
  have "unat len < 2 ^ 32" using unsigned_less [of len, where ?'a = nat] by simp
  with assms have "unat len \<le> 0xffff0000" by (auto elim!: dvdE)
  then show ?thesis using expand_seg_spec [of len 0 base n] assms by simp
qed

lemma expand_sgl_spec:
  assumes "sg_aligned sgl"
  shows "length (expand_sgl sgl n) = min n (sg_total sgl div 65536) \<and>
    (\<forall>i < length (expand_sgl sgl n). expand_sgl sgl n ! i = sg_byte_addr sgl (i * 65536))"
  using assms
proof (induction sgl arbitrary: n)
  case Nil then show ?case by (simp add: sg_total_def)
next
  case (Cons seg sgl)
  obtain base len where seg: "seg = (base, len)" by (cases seg)
  let ?k = "unat len div 65536"
  have al: "65536 dvd unat len" "sg_aligned sgl" using Cons.prems by (auto simp: sg_aligned_def seg)
  then have k: "unat len = ?k * 65536" by simp
  note ex = expand_seg_0 [OF al(1), of base n]
  have tot: "sg_total (seg # sgl) div 65536 = ?k + sg_total sgl div 65536"
    using al(1) by (simp add: sg_total_def seg div_plus_div_distrib_dvd_left)
  have here: "sg_byte_addr (seg # sgl) (i * 65536) = base + of_nat (i * 65536)" if "i < ?k" for i
    using that k by (simp add: seg)
  have there: "sg_byte_addr (seg # sgl) (i * 65536) = sg_byte_addr sgl ((i - ?k) * 65536)" if "\<not> i < ?k" for i
    using that k by (simp add: seg diff_mult_distrib)
  show ?case
  proof (cases "n \<le> ?k")
    case True
    then have "expand_sgl (seg # sgl) n = map (\<lambda>i. base + of_nat (i * 65536)) [0..<n]" by (simp add: seg ex)
    then show ?thesis using True here by (simp add: tot)
  next
    case False
    then have e: "expand_sgl (seg # sgl) n = map (\<lambda>i. base + of_nat (i * 65536)) [0..<?k] @ expand_sgl sgl (n - ?k)"
      by (simp add: seg ex)
    note ih = Cons.IH [OF al(2), of "n - ?k"]
    have "length (expand_sgl (seg # sgl) n) = min n (sg_total (seg # sgl) div 65536)"
      using False ih unfolding e tot by simp
    moreover have "expand_sgl (seg # sgl) n ! i = sg_byte_addr (seg # sgl) (i * 65536)"
      if "i < length (expand_sgl (seg # sgl) n)" for i
    proof (cases "i < ?k")
      case True then show ?thesis unfolding e by (simp add: here nth_append)
    next
      case 2: False
      then have "i - ?k < length (expand_sgl sgl (n - ?k))" using that unfolding e by simp
      then show ?thesis using ih 2 unfolding e by (simp add: there nth_append)
    qed
    ultimately show ?thesis by blast
  qed
qed

subsection \<open>Properties\<close>

text \<open>C22. When the exporter's scatter list covers the buffer with segments that are multiples of
  64 KiB, mapping a device buffer for a controller succeeds with one bus address per 64 KiB
  page, and the address of page \<open>i\<close> is the bus address of byte \<open>i * 64 KiB\<close> of the buffer.
  A short scatter list still succeeds; the missing pages have address 0.\<close>

theorem nvfs_nvidia_p2p_dma_map_pages_addresses:
  assumes "kmalloc_ok e A_dma_mapping" "kmalloc_ok e A_addrs"
    "dma_buf_attach e (k_log s) (pt_dmabuf pt) peer = Inr attach"
    "dma_buf_map_attachment e attach = Inr sgl" "sg_aligned sgl"
  shows "\<exists>m s'. nvfs_nvidia_p2p_dma_map_pages e peer (Some pt) s = (0, Some m, s') \<and>
    length (dm_dma_addresses m) = pt_entries pt \<and>
    (\<forall>i < pt_entries pt. dm_dma_addresses m ! i =
       (if i < sg_total sgl div 65536 then sg_byte_addr sgl (i * 65536) else 0))"
  using assms expand_sgl_spec [OF assms(5), of "pt_entries pt"]
  by (auto simp: nvfs_nvidia_p2p_dma_map_pages_def nth_append Let_def)

theorem nvfs_nvidia_p2p_dma_map_pages_addresses_witness:
  "\<exists>m s'. nvfs_nvidia_p2p_dma_map_pages env_ex 1 (Some \<lparr>pt_dmabuf = 4, pt_entries = 3\<rparr>) kst_ex = (0, Some m, s') \<and>
     dm_dma_addresses m ! 0 = 0x200000 \<and> dm_dma_addresses m ! 1 = 0x210000 \<and> dm_dma_addresses m ! 2 = 0"
  using nvfs_nvidia_p2p_dma_map_pages_addresses
    [of env_ex kst_ex "\<lparr>pt_dmabuf = 4, pt_entries = 3\<rparr>" 1 0 "[(0x200000, 0x20000)]"]
  by (force simp: env_ex_def kst_ex_def kst_init_def sg_aligned_def sg_total_def)

end
