(* ===== verification/Klist.thy ===== *)
theory Klist
  imports Snvme_Prelude
begin

text \<open>
  The module's own intrusive doubly linked list (\<open>list.c\<close>, \<open>list.h\<close>) at the level of its
  pointers. A node has the three pointers of \<open>struct list_node\<close>; the heap is a function from
  addresses to nodes. The head node is the first member of \<open>struct list\<close>, so a list and its
  head have the same address. \<open>is_list h l xs\<close> says that the nodes reached from list \<open>l\<close> are
  exactly \<open>xs\<close>, in this order, with consistent back pointers. The locale
  \<open>intrusive_list\<close> is the contract the other components use when they treat a list as the
  sequence of its elements; it is interpreted on the pointer code at the end.
\<close>

type_synonym addr = nat

record list_node =
  ln_list :: "addr option"
  ln_next :: "addr option"
  ln_prev :: "addr option"

type_synonym nheap = "addr \<Rightarrow> list_node"

subsection \<open>Operations\<close>

definition set_next :: "addr \<Rightarrow> addr option \<Rightarrow> nheap \<Rightarrow> nheap" where
  "set_next a v h = h(a := (h a)\<lparr>ln_next := v\<rparr>)"

definition set_prev :: "addr \<Rightarrow> addr option \<Rightarrow> nheap \<Rightarrow> nheap" where
  "set_prev a v h = h(a := (h a)\<lparr>ln_prev := v\<rparr>)"

definition set_list :: "addr \<Rightarrow> addr option \<Rightarrow> nheap \<Rightarrow> nheap" where
  "set_list a v h = h(a := (h a)\<lparr>ln_list := v\<rparr>)"

definition list_node_init :: "addr \<Rightarrow> nheap \<Rightarrow> nheap" where
  "list_node_init e h = set_prev e None (set_next e None (set_list e None h))"

definition list_init :: "addr \<Rightarrow> nheap \<Rightarrow> nheap" where
  "list_init l h = set_next l (Some l) (set_prev l (Some l) (set_list l (Some l) h))"

definition list_remove :: "addr option \<Rightarrow> nheap \<Rightarrow> nheap" where
  "list_remove element h =
     (case element of None \<Rightarrow> h
      | Some e \<Rightarrow>
          (case ln_list (h e) of None \<Rightarrow> h
           | Some l \<Rightarrow>
               if e = l then h
               else
                 let h1 = set_next (the (ln_prev (h e))) (ln_next (h e)) h;
                     h2 = set_prev (the (ln_next (h1 e))) (ln_prev (h1 e)) h1
                 in set_prev e None (set_next e None (set_list e None h2))))"

definition list_insert :: "addr \<Rightarrow> addr \<Rightarrow> nheap \<Rightarrow> nheap" where
  "list_insert l e h =
     (let last = the (ln_prev (h l));
          h1 = set_next last (Some e) h;
          h2 = set_list e (Some l) h1;
          h3 = set_prev e (Some last) h2;
          h4 = set_next e (Some l) h3
      in set_prev l (Some e) h4)"

definition list_next :: "addr \<Rightarrow> nheap \<Rightarrow> addr option" where
  "list_next cur h = (if ln_next (h cur) \<noteq> ln_list (h cur) then ln_next (h cur) else None)"

text \<open>The search loop of \<open>map_find\<close>, \<open>ctrl_find_by_pci_dev\<close> and their siblings: from the first
  element on until the predicate holds. On a corrupted list it need not end.\<close>

partial_function (option) list_walk :: "(addr \<Rightarrow> bool) \<Rightarrow> nheap \<Rightarrow> addr option \<Rightarrow> addr option option" where
  "list_walk P h element =
     (case element of None \<Rightarrow> Some None
      | Some e \<Rightarrow> if P e then Some (Some e) else list_walk P h (list_next e h))"

definition list_search :: "(addr \<Rightarrow> bool) \<Rightarrow> addr \<Rightarrow> nheap \<Rightarrow> addr option option" where
  "list_search P l h = list_walk P h (list_next l h)"

subsection \<open>Representation\<close>

fun chain :: "nheap \<Rightarrow> addr \<Rightarrow> addr list \<Rightarrow> addr \<Rightarrow> bool" where
  "chain h a [] b \<longleftrightarrow> ln_next (h a) = Some b \<and> ln_prev (h b) = Some a"
| "chain h a (x # xs) b \<longleftrightarrow> ln_next (h a) = Some x \<and> ln_prev (h x) = Some a \<and> chain h x xs b"

definition is_list :: "nheap \<Rightarrow> addr \<Rightarrow> addr list \<Rightarrow> bool" where
  "is_list h l xs \<longleftrightarrow> distinct (l # xs) \<and> chain h l xs l \<and> (\<forall>x \<in> set (l # xs). ln_list (h x) = Some l)"

lemma set_simps [simp]:
  "ln_next (set_next a v h x) = (if x = a then v else ln_next (h x))"
  "ln_prev (set_next a v h x) = ln_prev (h x)" "ln_list (set_next a v h x) = ln_list (h x)"
  "ln_prev (set_prev a v h x) = (if x = a then v else ln_prev (h x))"
  "ln_next (set_prev a v h x) = ln_next (h x)" "ln_list (set_prev a v h x) = ln_list (h x)"
  "ln_list (set_list a v h x) = (if x = a then v else ln_list (h x))"
  "ln_next (set_list a v h x) = ln_next (h x)" "ln_prev (set_list a v h x) = ln_prev (h x)"
  by (auto simp: set_next_def set_prev_def set_list_def)

lemma chain_append:
  "chain h a (xs @ x # ys) b \<longleftrightarrow> chain h a xs x \<and> chain h x ys b"
  by (induction xs arbitrary: a) auto

lemma chain_cong:
  assumes "chain h a xs b" "\<forall>x \<in> set (a # xs). ln_next (h' x) = ln_next (h x)"
    "\<forall>x \<in> set (xs @ [b]). ln_prev (h' x) = ln_prev (h x)"
  shows "chain h' a xs b"
  using assms by (induction xs arbitrary: a) auto

lemma chain_last: "chain h a xs b \<Longrightarrow> ln_prev (h b) = Some (last (a # xs))"
  by (induction xs arbitrary: a) auto

lemma chain_last_next: "chain h a xs b \<Longrightarrow> ln_next (h (last (a # xs))) = Some b"
  by (induction xs arbitrary: a) auto

text \<open>Re-pointing the last link of a chain.\<close>

lemma chain_relink:
  assumes "chain h a xs b" "distinct (a # xs)" "b' \<notin> set xs"
    "\<forall>x \<in> set (a # xs). ln_next (h' x) = (if x = last (a # xs) then Some b' else ln_next (h x))"
    "\<forall>x \<in> set xs. ln_prev (h' x) = ln_prev (h x)" "ln_prev (h' b') = Some (last (a # xs))"
  shows "chain h' a xs b'"
  using assms
proof (induction xs arbitrary: a)
  case (Cons x xs)
  have "chain h' x xs b'" by (rule Cons.IH) (use Cons.prems in auto)
  then show ?case using Cons.prems by auto
qed simp

subsection \<open>The operations implement the list operations\<close>

lemma is_list_init: "is_list (list_init l h) l []"
  by (simp add: is_list_def list_init_def)

lemma is_list_insert:
  assumes "is_list h l xs" "e \<notin> set (l # xs)"
  shows "is_list (list_insert l e h) l (xs @ [e])"
proof -
  let ?h = "list_insert l e h"
  have c: "chain h l xs l" and d: "distinct (l # xs)" using assms by (auto simp: is_list_def)
  have lst: "the (ln_prev (h l)) = last (l # xs)" using chain_last [OF c] by simp
  have ne: "e \<noteq> last (l # xs)" using assms(2) last_in_set [of "l # xs"] by auto
  have "chain ?h l xs e"
    by (rule chain_relink [OF c d]) (use assms(2) ne d lst in \<open>auto simp: list_insert_def Let_def\<close>)
  moreover have "chain ?h e [] l" by (simp add: list_insert_def Let_def)
  ultimately have "chain ?h l (xs @ [e]) l" by (simp add: chain_append)
  then show ?thesis using assms by (auto simp: is_list_def list_insert_def Let_def)
qed

lemma is_list_remove:
  assumes "is_list h l (xs @ e # ys)"
  shows "is_list (list_remove (Some e) h) l (xs @ ys)" "ln_list (list_remove (Some e) h e) = None"
proof -
  let ?h = "list_remove (Some e) h"
  have c1: "chain h l xs e" and c2: "chain h e ys l" and d: "distinct (l # xs @ e # ys)"
    and le: "ln_list (h e) = Some l" "e \<noteq> l"
    using assms by (auto simp: is_list_def chain_append)
  have p: "ln_prev (h e) = Some (last (l # xs))" using chain_last [OF c1] .
  have n: "ln_next (h e) = Some (hd (ys @ [l]))" using c2 by (cases ys) auto
  have li: "last (l # xs) \<in> set (l # xs)" "hd (ys @ [l]) \<in> set (l # ys)"
    by (rule last_in_set) (simp, cases ys, simp_all)
  then have pn: "last (l # xs) \<noteq> e" "hd (ys @ [l]) \<noteq> e" using d by auto
  note h = list_remove_def Let_def
  have hn: "ln_next (?h x) = (if x = e then None else if x = last (l # xs) then Some (hd (ys @ [l])) else ln_next (h x))"
    and hp: "ln_prev (?h x) = (if x = e then None else if x = hd (ys @ [l]) then Some (last (l # xs)) else ln_prev (h x))"
    and hl: "ln_list (?h x) = (if x = e then None else ln_list (h x))" for x
    using le p n pn by (simp_all add: h)
  have dj: "last (l # xs) \<notin> set ys" "hd (ys @ [l]) \<notin> set xs" using li d by auto
  have c1': "chain ?h l xs (hd (ys @ [l]))"
  proof (rule chain_relink [OF c1])
    show "\<forall>x \<in> set (l # xs). ln_next (?h x) = (if x = last (l # xs) then Some (hd (ys @ [l])) else ln_next (h x))"
      using d pn by (auto simp: hn simp del: last.simps)
    show "\<forall>x \<in> set xs. ln_prev (?h x) = ln_prev (h x)" using d dj by (auto simp: hp)
    show "ln_prev (?h (hd (ys @ [l]))) = Some (last (l # xs))" using pn by (simp add: hp)
  qed (use d dj in auto)
  have "chain ?h l (xs @ ys) l"
  proof (cases ys)
    case Nil then show ?thesis using c1' by simp
  next
    case (Cons y zs)
    have "chain ?h y zs l"
      by (rule chain_cong [of h]) (use c2 d dj Cons in \<open>auto simp: hn hp\<close>)
    then show ?thesis using c1' Cons by (simp add: chain_append)
  qed
  then show "is_list ?h l (xs @ ys)" using assms d by (auto simp: is_list_def hl)
  show "ln_list (?h e) = None" by (simp add: hl)
qed

text \<open>Removing a node that is on no list, the head, or a null pointer changes nothing.\<close>

lemma list_remove_noop:
  "list_remove None h = h" "ln_list (h e) = None \<Longrightarrow> list_remove (Some e) h = h"
  "ln_list (h l) = Some l \<Longrightarrow> list_remove (Some l) h = h"
  by (simp_all add: list_remove_def)

lemma list_next_chain:
  assumes "chain h a xs l" "ln_list (h a) = Some l" "l \<notin> set xs"
  shows "list_next a h = (case xs of [] \<Rightarrow> None | x # _ \<Rightarrow> Some x)"
  using assms by (cases xs) (auto simp: list_next_def)

lemma list_walk_find:
  assumes "chain h a xs l" "ln_list (h a) = Some l" "l \<notin> set xs" "\<forall>x \<in> set xs. ln_list (h x) = Some l"
  shows "list_walk P h (list_next a h) = Some (List.find P xs)"
  using assms
proof (induction xs arbitrary: a)
  case Nil
  then show ?case by (simp add: list_next_chain [OF Nil(1,2)] list_walk.simps)
next
  case (Cons x xs)
  have "list_walk P h (list_next x h) = Some (List.find P xs)" by (rule Cons.IH) (use Cons.prems in auto)
  then show ?case by (simp add: list_next_chain [OF Cons.prems(1-3)] list_walk.simps)
qed

lemma list_search_find: "is_list h l xs \<Longrightarrow> list_search P l h = Some (List.find P xs)"
  unfolding list_search_def by (rule list_walk_find) (auto simp: is_list_def)

lemma is_list_frame:
  assumes "is_list h l xs" "\<forall>x \<in> set (l # xs). h' x = h x"
  shows "is_list h' l xs"
proof -
  have "chain h' l xs l" by (rule chain_cong [of h]) (use assms in \<open>auto simp: is_list_def\<close>)
  then show ?thesis using assms by (auto simp: is_list_def)
qed

lemma list_insert_other:
  assumes "is_list h l xs" "x \<notin> set (e # l # xs)" shows "list_insert l e h x = h x"
proof -
  have "the (ln_prev (h l)) \<in> set (l # xs)"
    using chain_last [of h l xs l] assms(1) last_in_set [of "l # xs"] by (auto simp: is_list_def)
  then show ?thesis using assms(2)
    by (auto simp: list_insert_def Let_def set_next_def set_prev_def set_list_def)
qed

lemma list_remove_other:
  assumes "is_list h l (xs @ e # ys)" "x \<notin> set (l # xs @ e # ys)"
  shows "list_remove (Some e) h x = h x"
proof -
  have c1: "chain h l xs e" and c2: "chain h e ys l" using assms by (auto simp: is_list_def chain_append)
  have "the (ln_prev (h e)) \<in> set (l # xs)" using chain_last [OF c1] last_in_set [of "l # xs"] by auto
  moreover have "the (ln_next (h e)) \<in> set (l # ys)" using c2 by (cases ys) auto
  ultimately show ?thesis using assms(2)
    by (auto simp: list_remove_def Let_def set_next_def set_prev_def set_list_def split: option.splits)
qed

subsection \<open>The contract of an intrusive list\<close>

text \<open>\<open>nodes\<close> are the addresses a list occupies. The laws are what the driver relies on: a
  search ends and finds the first match; insertion appends; removal takes out one element and
  unhooks it; an operation on one list does not touch a list with other nodes.\<close>

locale intrusive_list =
  fixes repr :: "'h \<Rightarrow> 'a \<Rightarrow> 'a list \<Rightarrow> bool"
    and linked :: "'h \<Rightarrow> 'a \<Rightarrow> bool"
    and insert :: "'a \<Rightarrow> 'a \<Rightarrow> 'h \<Rightarrow> 'h"
    and remove :: "'a \<Rightarrow> 'h \<Rightarrow> 'h"
    and search :: "('a \<Rightarrow> bool) \<Rightarrow> 'a \<Rightarrow> 'h \<Rightarrow> 'a option option"
  assumes repr_distinct: "repr h l xs \<Longrightarrow> distinct (l # xs)"
    and repr_linked: "repr h l xs \<Longrightarrow> x \<in> set xs \<Longrightarrow> linked h x"
    and insert_repr: "repr h l xs \<Longrightarrow> e \<notin> set (l # xs) \<Longrightarrow> repr (insert l e h) l (xs @ [e])"
    and remove_repr: "repr h l xs \<Longrightarrow> e \<in> set xs \<Longrightarrow> repr (remove e h) l (remove1 e xs) \<and> \<not> linked (remove e h) e"
    and remove_unlinked: "\<not> linked h e \<Longrightarrow> remove e h = h"
    and search_repr: "repr h l xs \<Longrightarrow> search P l h = Some (List.find P xs)"
    and insert_frame: "repr h l xs \<Longrightarrow> e \<notin> set (l # xs) \<Longrightarrow> repr h l' ys \<Longrightarrow>
      set (l' # ys) \<inter> set (e # l # xs) = {} \<Longrightarrow> repr (insert l e h) l' ys"
    and remove_frame: "repr h l xs \<Longrightarrow> e \<in> set xs \<Longrightarrow> repr h l' ys \<Longrightarrow>
      set (l' # ys) \<inter> set (l # xs) = {} \<Longrightarrow> repr (remove e h) l' ys"
begin

lemma remove_after_insert:
  assumes "repr h l xs" "e \<notin> set (l # xs)"
  shows "repr (remove e (insert l e h)) l xs"
  using remove_repr [OF insert_repr [OF assms], of e] assms(2) by (simp add: remove1_append)

lemma remove_twice: "repr h l xs \<Longrightarrow> e \<in> set xs \<Longrightarrow> remove e (remove e h) = remove e h"
  by (simp add: remove_repr remove_unlinked)

lemma search_removed:
  assumes "repr h l xs" "e \<in> set xs"
  shows "search (\<lambda>x. x = e) l (remove e h) = Some None"
proof -
  have "distinct xs" using repr_distinct [OF assms(1)] by simp
  then have "e \<notin> set (remove1 e xs)" by simp
  moreover have "search (\<lambda>x. x = e) l (remove e h) = Some (List.find (\<lambda>x. x = e) (remove1 e xs))"
    using remove_repr [OF assms] search_repr by blast
  ultimately show ?thesis by (simp add: find_None_iff)
qed

lemma search_inserted:
  assumes "repr h l xs" "e \<notin> set (l # xs)"
  shows "search P l (insert l e h) =
    Some (case List.find P xs of Some x \<Rightarrow> Some x | None \<Rightarrow> if P e then Some e else None)"
proof -
  have "List.find P (xs @ [e]) = (case List.find P xs of Some x \<Rightarrow> Some x | None \<Rightarrow> if P e then Some e else None)"
    by (induction xs) auto
  then show ?thesis using search_repr [OF insert_repr [OF assms]] by simp
qed

end

interpretation kl: intrusive_list is_list "\<lambda>h e. ln_list (h e) \<noteq> None" list_insert
  "\<lambda>e. list_remove (Some e)" list_search
proof unfold_locales
  fix h :: nheap and l :: addr and xs :: "addr list" and e l' ys
  show "is_list h l xs \<Longrightarrow> distinct (l # xs)" by (simp add: is_list_def)
  show "is_list h l xs \<Longrightarrow> e \<in> set xs \<Longrightarrow> ln_list (h e) \<noteq> None" by (simp add: is_list_def)
  show "is_list h l xs \<Longrightarrow> e \<notin> set (l # xs) \<Longrightarrow> is_list (list_insert l e h) l (xs @ [e])"
    by (rule is_list_insert)
  show "is_list (list_remove (Some e) h) l (remove1 e xs) \<and> \<not> ln_list (list_remove (Some e) h e) \<noteq> None"
    if r: "is_list h l xs" "e \<in> set xs"
  proof -
    obtain as bs where xs: "xs = as @ e # bs" "e \<notin> set as" using split_list_first [OF r(2)] by blast
    then show ?thesis using is_list_remove [of h l as e bs] r by (simp add: remove1_append)
  qed
  show "\<not> ln_list (h e) \<noteq> None \<Longrightarrow> list_remove (Some e) h = h" by (simp add: list_remove_noop)
  show "is_list h l xs \<Longrightarrow> list_search P l h = Some (List.find P xs)" for P by (rule list_search_find)
  show "is_list (list_insert l e h) l' ys" if "is_list h l xs" "e \<notin> set (l # xs)" "is_list h l' ys"
    "set (l' # ys) \<inter> set (e # l # xs) = {}"
    using that(4) by (intro is_list_frame [OF that(3)] ballI list_insert_other [OF that(1)]) (meson disjoint_iff)
  show "is_list (list_remove (Some e) h) l' ys" if r: "is_list h l xs" "e \<in> set xs" "is_list h l' ys"
    "set (l' # ys) \<inter> set (l # xs) = {}"
  proof -
    obtain as bs where xs: "xs = as @ e # bs" using split_list [OF r(2)] by blast
    show ?thesis
      using r(1,4) unfolding xs
      by (intro is_list_frame [OF r(3)] ballI list_remove_other [of h l as e bs]) (assumption, meson disjoint_iff)
  qed
qed

subsection \<open>Properties\<close>

text \<open>C13. The pointer code of \<open>list.c\<close> implements a sequence. Initialising a list makes it the empty sequence, whatever
  the heap holds. On a well-formed list, inserting an unlinked node appends it; removing a member takes out exactly
  that member, keeps the order of the others and leaves the node unhooked, so that a second removal is harmless; and
  the search loop of the module terminates on it and returns the first element that matches.\<close>

theorem list_ops_refine_sequence:
  assumes "is_list h l xs"
  shows "is_list (list_init l' h') l' [] \<and>
    (e \<notin> set (l # xs) \<longrightarrow> is_list (list_insert l e h) l (xs @ [e])) \<and>
    (d \<in> set xs \<longrightarrow> is_list (list_remove (Some d) h) l (remove1 d xs) \<and>
       list_remove (Some d) (list_remove (Some d) h) = list_remove (Some d) h) \<and>
    list_search P l h = Some (List.find P xs)"
  using assms is_list_init kl.insert_repr kl.remove_repr kl.remove_twice kl.search_repr by blast

definition heap_ex :: nheap where
  "heap_ex = list_insert 0 7 (list_insert 0 5 (list_init 0 (\<lambda>_. \<lparr>ln_list = None, ln_next = None, ln_prev = None\<rparr>)))"

lemma heap_ex_list: "is_list heap_ex 0 [5, 7]"
  unfolding heap_ex_def using kl.insert_repr [OF kl.insert_repr [OF is_list_init, of 5 0], of 7] by simp

theorem list_ops_refine_sequence_witness:
  "is_list (list_init 0 heap_ex) 0 [] \<and> is_list (list_insert 0 9 heap_ex) 0 [5, 7, 9] \<and>
   is_list (list_remove (Some 5) heap_ex) 0 [7] \<and> list_search (\<lambda>a. a > 5) 0 heap_ex = Some (Some 7)"
  using list_ops_refine_sequence [OF heap_ex_list, of 0 heap_ex 9 5 "\<lambda>a. a > 5"] by simp

end
