(* ===== verification/Map_Mem.thy ===== *)
theory Map_Mem
  imports Npu_P2p Klist
begin

text \<open>
  Mapping descriptors (\<open>map.c\<close>): creating one for pinned host pages or for a device buffer,
  finding one on a global list, releasing one, and reclaiming all descriptors of a task.
  \<open>k_maps\<close> is the heap of live descriptors; the three global lists hold their identities.
  \<open>list_remove\<close> and \<open>list_del\<close> unhook a descriptor from whichever list it is on; a descriptor
  is on at most one global list and on at most one group or data list, so taking its identity
  out of all of them is the same.
\<close>

unbundle bit_operations_syntax

subsection \<open>Descriptors\<close>

datatype glist = HostList | DeviceList | DeviceQueueList

fun get_list :: "glist \<Rightarrow> kst \<Rightarrow> mid list" where
  "get_list HostList s = k_host_list s"
| "get_list DeviceList s = k_device_list s"
| "get_list DeviceQueueList s = k_device_queue_list s"

text \<open>\<open>list_insert\<close> appends (theory \<open>Klist\<close>).\<close>

fun insert_list :: "glist \<Rightarrow> mid \<Rightarrow> kst \<Rightarrow> kst" where
  "insert_list HostList m s = s\<lparr>k_host_list := k_host_list s @ [m]\<rparr>"
| "insert_list DeviceList m s = s\<lparr>k_device_list := k_device_list s @ [m]\<rparr>"
| "insert_list DeviceQueueList m s = s\<lparr>k_device_queue_list := k_device_queue_list s @ [m]\<rparr>"

definition get_map :: "kst \<Rightarrow> mid \<Rightarrow> kmap" where
  "get_map s m = the (k_maps s m)"

definition set_map :: "mid \<Rightarrow> (kmap \<Rightarrow> kmap) \<Rightarrow> kst \<Rightarrow> kst" where
  "set_map m f s = s\<lparr>k_maps := (k_maps s)(m \<mapsto> f (get_map s m))\<rparr>"

definition create_descriptor :: "kenv \<Rightarrow> ctrl \<Rightarrow> u64 \<Rightarrow> u64 \<Rightarrow> kst \<Rightarrow> (int + mid) \<times> kst" where
  "create_descriptor e c vaddr n_pages s =
     (if \<not> kmalloc_ok e A_map then (Inl (- ENOMEM), s)
      else
        let m = k_next_mid s in
        (Inr m, s\<lparr>k_next_mid := Suc m,
                  k_maps := (k_maps s)(m \<mapsto>
                    \<lparr>map_owner = current e, map_vaddr = vaddr, map_is_cq = -1, map_ioq_idx = -1,
                     map_pdev = ctrl_pdev c, map_page_size = 0, map_data = None, map_release = None,
                     map_group_id = 0, map_kind = NVM_MAP_KIND_UNSPECIFIED,
                     map_n_addrs = unat n_pages, map_addrs = replicate (unat n_pages) 0\<rparr>)\<rparr>))"

subsection \<open>Release functions\<close>

definition release_user_pages :: "mid \<Rightarrow> kst \<Rightarrow> kst" where
  "release_user_pages m s =
     (let md = get_map s m;
          pages = (case map_data md of Some (HostPages ps) \<Rightarrow> ps | _ \<Rightarrow> []);
          s1 = log_events (map (EvDmaUnmap (map_pdev md)) (take (map_n_addrs md) (map_addrs md))) s;
          s2 = log_events (map EvPutPage (take (map_n_addrs md) pages)) s1
      in set_map m (map_data_update (\<lambda>_. None)) s2)"

text \<open>The walk over the controller list, \<open>j\<close> counting the mappings undone so far. The peer is not
  used by the dma-buf back end, so only the number of list elements matters.\<close>

fun gpu_unmap_loop :: "gpu_region \<Rightarrow> cid list \<Rightarrow> nat \<Rightarrow> kst \<Rightarrow> kst" where
  "gpu_unmap_loop gd [] j s = s"
| "gpu_unmap_loop gd (c # cs) j s =
     (if gr_mappings gd ! j \<noteq> None
      then gpu_unmap_loop gd cs (Suc j) (snd (nvfs_nvidia_p2p_dma_unmap_pages (gr_pages gd) (gr_mappings gd ! j) s))
      else gpu_unmap_loop gd cs j s)"

definition release_gpu_memory :: "mid \<Rightarrow> kst \<Rightarrow> kst" where
  "release_gpu_memory m s =
     (case map_data (get_map s m) of
        Some (GpuRegion gd) \<Rightarrow>
          let s1 = gpu_unmap_loop gd (k_ctrl_list s) 0 s;
              s2 = (if gr_pages gd \<noteq> None then snd (nvfs_nvidia_p2p_put_pages (gr_pages gd) s1) else s1)
          in set_map m (map_data_update (\<lambda>_. None)) s2
      | _ \<Rightarrow> s)"

definition release_gpu_ioqueue_memory :: "mid \<Rightarrow> kst \<Rightarrow> kst" where
  "release_gpu_ioqueue_memory m s =
     (case map_data (get_map s m) of
        Some (GpuRegion gd) \<Rightarrow>
          let s1 = (if gr_mappings gd ! 0 \<noteq> None
                    then snd (nvfs_nvidia_p2p_dma_unmap_pages (gr_pages gd) (gr_mappings gd ! 0) s) else s);
              s2 = (if gr_pages gd \<noteq> None then snd (nvfs_nvidia_p2p_put_pages (gr_pages gd) s1) else s1)
          in set_map m (map_data_update (\<lambda>_. None)) s2
      | _ \<Rightarrow> s)"

fun run_release :: "release_fn \<Rightarrow> mid \<Rightarrow> kst \<Rightarrow> kst" where
  "run_release Release_user_pages m s = release_user_pages m s"
| "run_release Release_gpu_memory m s = release_gpu_memory m s"
| "run_release Release_gpu_ioqueue_memory m s = release_gpu_ioqueue_memory m s"

definition list_remove_map :: "mid \<Rightarrow> kst \<Rightarrow> kst" where
  "list_remove_map m s = s\<lparr>k_host_list := remove1 m (k_host_list s),
     k_device_list := remove1 m (k_device_list s),
     k_device_queue_list := remove1 m (k_device_queue_list s)\<rparr>"

definition unlink_group_maps :: "mid \<Rightarrow> snvm_dev_owner \<Rightarrow> snvm_dev_owner" where
  "unlink_group_maps m own = own\<lparr>
     own_groups := map (\<lambda>g. g\<lparr>g_maps := removeAll m (g_maps g)\<rparr>) (own_groups own),
     own_data_maps := removeAll m (own_data_maps own)\<rparr>"

definition list_del_group_link :: "mid \<Rightarrow> kst \<Rightarrow> kst" where
  "list_del_group_link m s = s\<lparr>k_files := (\<lambda>f. map_option (unlink_group_maps m) (k_files s f))\<rparr>"

definition unmap_and_release :: "mid \<Rightarrow> kst \<Rightarrow> kst" where
  "unmap_and_release m s =
     (let s1 = list_del_group_link m (list_remove_map m s);
          md = get_map s1 m;
          s2 = (case map_release md of
                  Some r \<Rightarrow> if map_data md \<noteq> None then run_release r m s1 else s1
                | None \<Rightarrow> s1)
      in s2\<lparr>k_maps := (k_maps s2)(m := None)\<rparr>)"

definition force_release_gpu_memory :: "mid \<Rightarrow> kst \<Rightarrow> kst" where
  "force_release_gpu_memory m s =
     (case map_data (get_map s m) of
        Some (GpuRegion gd) \<Rightarrow>
          let s1 = gpu_unmap_loop gd (k_ctrl_list s) 0 s;
              s2 = (if gr_pages gd \<noteq> None then snd (nvfs_nvidia_p2p_free_page_table (gr_pages gd) s1) else s1)
          in unmap_and_release m (set_map m (map_data_update (\<lambda>_. None)) s2)
      | _ \<Rightarrow> unmap_and_release m s)"

definition force_release_gpu_ioqueue_memory :: "mid \<Rightarrow> kst \<Rightarrow> kst" where
  "force_release_gpu_ioqueue_memory m s =
     (case map_data (get_map s m) of
        Some (GpuRegion gd) \<Rightarrow>
          let s1 = (if gr_mappings gd ! 0 \<noteq> None
                    then snd (nvfs_nvidia_p2p_dma_unmap_pages (gr_pages gd) (gr_mappings gd ! 0) s) else s);
              s2 = (if gr_pages gd \<noteq> None then snd (nvfs_nvidia_p2p_free_page_table (gr_pages gd) s1) else s1)
          in unmap_and_release m (set_map m (map_data_update (\<lambda>_. None)) s2)
      | _ \<Rightarrow> unmap_and_release m s)"

subsection \<open>Lookup\<close>

text \<open>The walks over a global list find its first matching element (theory \<open>Klist\<close>).\<close>

definition map_matches :: "kenv \<Rightarrow> u64 \<Rightarrow> kmap \<Rightarrow> bool" where
  "map_matches e vaddr md \<longleftrightarrow> map_owner md = current e \<and>
     (map_vaddr md = vaddr AND page_mask PAGE_SIZE \<or> map_vaddr md = vaddr AND page_mask GPU_PAGE_SIZE)"

definition map_find :: "kenv \<Rightarrow> glist \<Rightarrow> u64 \<Rightarrow> kst \<Rightarrow> mid option" where
  "map_find e l vaddr s = List.find (\<lambda>m. map_matches e vaddr (get_map s m)) (get_list l s)"

definition map_find_by_pci_dev_and_idx :: "glist \<Rightarrow> pdev \<Rightarrow> int \<Rightarrow> int \<Rightarrow> kst \<Rightarrow> mid option" where
  "map_find_by_pci_dev_and_idx l pd idx is_cq s =
     List.find (\<lambda>m. map_pdev (get_map s m) = pd \<and> map_ioq_idx (get_map s m) = idx \<and>
                    map_is_cq (get_map s m) = is_cq) (get_list l s)"

text \<open>\<open>map_purge_by_owner\<close>: \<open>rest\<close> is the list from the current element on; after a release the walk
  starts again at the front of the list as it then is.\<close>

definition purge_match :: "task \<Rightarrow> kmap \<Rightarrow> bool" where
  "purge_match owner md \<longleftrightarrow> map_owner md = owner \<and> map_group_id md = 0"

partial_function (option) map_purge_loop ::
  "glist \<Rightarrow> task \<Rightarrow> mid list \<Rightarrow> kst \<Rightarrow> nat \<Rightarrow> (nat \<times> kst) option" where
  "map_purge_loop l owner rest s freed =
     (case rest of [] \<Rightarrow> Some (freed, s)
      | m # ms \<Rightarrow>
          if purge_match owner (get_map s m)
          then let s' = unmap_and_release m s in map_purge_loop l owner (get_list l s') s' (Suc freed)
          else map_purge_loop l owner ms s freed)"

definition map_purge_by_owner :: "glist \<Rightarrow> task \<Rightarrow> kst \<Rightarrow> nat \<times> kst" where
  "map_purge_by_owner l owner s = the (map_purge_loop l owner (get_list l s) s 0)"

subsection \<open>Mapping host memory\<close>

fun dma_map_loop :: "kenv \<Rightarrow> mid \<Rightarrow> nat \<Rightarrow> page list \<Rightarrow> kst \<Rightarrow> int \<times> kst" where
  "dma_map_loop e m i [] s = (0, s)"
| "dma_map_loop e m i (pg # pgs) s =
     (let pd = map_pdev (get_map s m);
          addr = dma_map_page e (k_log s) pd pg;
          s1 = set_map m (\<lambda>md. md\<lparr>map_addrs := (map_addrs md)[i := addr]\<rparr>) s;
          retval = dma_mapping_error e pd addr
      in if retval \<noteq> 0 then (retval, s1)
         else dma_map_loop e m (Suc i) pgs (log_event (EvDmaMap pd pg addr) s1))"

definition map_user_pages :: "kenv \<Rightarrow> mid \<Rightarrow> kst \<Rightarrow> int \<times> kst" where
  "map_user_pages e m s =
     (if \<not> kmalloc_ok e A_pages then (- ENOMEM, s)
      else case get_user_pages e (k_log s) (map_vaddr (get_map s m)) (map_n_addrs (get_map s m)) of
        (retval, pages) \<Rightarrow>
          if retval \<le> 0 then (retval, s)
          else
            let s1 = log_events (map EvPinPage pages) s;
                s2 = set_map m (\<lambda>md. md\<lparr>map_n_addrs := nat retval, map_page_size := PAGE_SIZE,
                        map_data := Some (HostPages pages), map_release := Some Release_user_pages\<rparr>) s1
            in dma_map_loop e m 0 pages s2)"

definition map_userspace :: "kenv \<Rightarrow> ctrl \<Rightarrow> u64 \<Rightarrow> u64 \<Rightarrow> kst \<Rightarrow> (int + mid) \<times> kst" where
  "map_userspace e c vaddr n_pages s =
     (if n_pages < 1 then (Inl (- EINVAL), s)
      else case create_descriptor e c (vaddr AND page_mask PAGE_SIZE) n_pages s of
          (Inl err, s1) \<Rightarrow> (Inl err, s1)
        | (Inr m, s1) \<Rightarrow>
            let s2 = set_map m (map_page_size_update (\<lambda>_. PAGE_SIZE)) s1 in
            (case map_user_pages e m s2 of
               (err, s3) \<Rightarrow>
                 if err \<noteq> 0 then (Inl err, unmap_and_release m s3)
                 else (Inr m, insert_list HostList m s3)))"

subsection \<open>Mapping device memory\<close>

text \<open>\<open>max_num_ctrls\<close> of \<open>map.c\<close>: the length of the array of per-controller mappings. A write past its
  end (more controllers than that) is lost in the model; in C it overwrites foreign memory.\<close>

definition max_num_ctrls :: nat where "max_num_ctrls = 8"

definition set_gpu_region :: "mid \<Rightarrow> (gpu_region \<Rightarrow> gpu_region) \<Rightarrow> kst \<Rightarrow> kst" where
  "set_gpu_region m f s = set_map m (\<lambda>md. case map_data md of
     Some (GpuRegion gd) \<Rightarrow> md\<lparr>map_data := Some (GpuRegion (f gd))\<rparr> | _ \<Rightarrow> md) s"

definition copy_dma_addresses :: "mid \<Rightarrow> p2p_dma_mapping \<Rightarrow> kst \<Rightarrow> kst" where
  "copy_dma_addresses m dm s = set_map m (\<lambda>md. md\<lparr>map_addrs :=
     map (\<lambda>i. if i < map_n_addrs md then dm_dma_addresses dm ! i else map_addrs md ! i)
       [0..<length (map_addrs md)]\<rparr>) s"

fun gpu_map_loop :: "kenv \<Rightarrow> mid \<Rightarrow> p2p_page_table option \<Rightarrow> cid list \<Rightarrow> nat \<Rightarrow> kst \<Rightarrow> int \<times> kst" where
  "gpu_map_loop e m pt [] j s = (0, s)"
| "gpu_map_loop e m pt (c # cs) j s =
     (case nvfs_nvidia_p2p_dma_map_pages e (ctrl_pdev (the (k_ctrls s c))) pt s of
        (err, dm, s1) \<Rightarrow>
          if err \<noteq> 0 then (err, s1)
          else
            let s2 = set_gpu_region m (gr_mappings_update (\<lambda>ms. ms[j := dm])) s1;
                s3 = (if Suc j = 1 then copy_dma_addresses m (the dm) s2 else s2)
            in gpu_map_loop e m pt cs (Suc j) s3)"

definition map_gpu_memory :: "kenv \<Rightarrow> mid \<Rightarrow> kst \<Rightarrow> int \<times> kst" where
  "map_gpu_memory e m s =
     (if \<not> kmalloc_ok e A_gpu_region then (- ENOMEM, s)
      else if \<not> kmalloc_ok e A_mappings then (- ENOMEM, s)
      else
        let gd = \<lparr>gr_pages = None, gr_mappings = replicate max_num_ctrls None\<rparr>;
            s1 = set_map m (\<lambda>md. md\<lparr>map_page_size := GPU_PAGE_SIZE, map_data := Some (GpuRegion gd),
                   map_release := Some Release_gpu_memory\<rparr>) s;
            md = get_map s1 m
        in case nvfs_nvidia_p2p_get_pages e (map_vaddr md) (GPU_PAGE_SIZE * of_nat (map_n_addrs md)) s1 of
             (err, pt, s2) \<Rightarrow>
               if err \<noteq> 0 then (err, s2)
               else
                 let s3 = set_gpu_region m (gr_pages_update (\<lambda>_. pt)) s2 in
                 (case gpu_map_loop e m pt (k_ctrl_list s3) 0 s3 of
                    (err, s4) \<Rightarrow>
                      if err \<noteq> 0 then (err, s4)
                      else (0, set_map m (map_n_addrs_update (\<lambda>_. pt_entries (the pt))) s4)))"

text \<open>The queue variant maps for one controller only and does not clear the pointer slot it
  allocates.\<close>

definition map_gpu_ioqueue_memory :: "kenv \<Rightarrow> mid \<Rightarrow> kst \<Rightarrow> int \<times> kst" where
  "map_gpu_ioqueue_memory e m s =
     (if \<not> kmalloc_ok e A_gpu_region then (- ENOMEM, s)
      else if \<not> kmalloc_ok e A_mappings then (- ENOMEM, s)
      else
        let gd = \<lparr>gr_pages = None, gr_mappings = [uninit_mapping e]\<rparr>;
            s1 = set_map m (\<lambda>md. md\<lparr>map_page_size := GPU_PAGE_SIZE, map_data := Some (GpuRegion gd),
                   map_release := Some Release_gpu_ioqueue_memory\<rparr>) s;
            md = get_map s1 m
        in case nvfs_nvidia_p2p_get_pages e (map_vaddr md) (GPU_PAGE_SIZE * of_nat (map_n_addrs md)) s1 of
             (err, pt, s2) \<Rightarrow>
               if err \<noteq> 0 then (err, s2)
               else
                 let s3 = set_gpu_region m (gr_pages_update (\<lambda>_. pt)) s2 in
                 (case nvfs_nvidia_p2p_dma_map_pages e (map_pdev md) pt s3 of
                    (err, dm, s4) \<Rightarrow>
                      if err \<noteq> 0 then (err, s4)
                      else
                        let s5 = set_gpu_region m (gr_mappings_update (\<lambda>ms. ms[0 := dm])) s4;
                            s6 = copy_dma_addresses m (the dm) s5
                        in (0, set_map m (map_n_addrs_update (\<lambda>_. pt_entries (the pt))) s6)))"

definition map_device_memory :: "kenv \<Rightarrow> ctrl \<Rightarrow> u64 \<Rightarrow> u64 \<Rightarrow> kst \<Rightarrow> (int + mid) \<times> kst" where
  "map_device_memory e c vaddr n_pages s =
     (if n_pages < 1 then (Inl (- EINVAL), s)
      else case create_descriptor e c (vaddr AND page_mask GPU_PAGE_SIZE) n_pages s of
          (Inl err, s1) \<Rightarrow> (Inl err, s1)
        | (Inr m, s1) \<Rightarrow>
            let s2 = set_map m (map_page_size_update (\<lambda>_. GPU_PAGE_SIZE)) s1 in
            (case map_gpu_memory e m s2 of
               (err, s3) \<Rightarrow>
                 if err \<noteq> 0 then (Inl err, unmap_and_release m s3)
                 else (Inr m, insert_list DeviceList m s3)))"

definition map_device_ioqueue_memory :: "kenv \<Rightarrow> ctrl \<Rightarrow> u64 \<Rightarrow> u64 \<Rightarrow> kst \<Rightarrow> (int + mid) \<times> kst" where
  "map_device_ioqueue_memory e c vaddr n_pages s =
     (if n_pages < 1 then (Inl (- EINVAL), s)
      else case create_descriptor e c (vaddr AND page_mask GPU_PAGE_SIZE) n_pages s of
          (Inl err, s1) \<Rightarrow> (Inl err, s1)
        | (Inr m, s1) \<Rightarrow>
            let s2 = set_map m (map_page_size_update (\<lambda>_. GPU_PAGE_SIZE)) s1 in
            (case map_gpu_ioqueue_memory e m s2 of
               (err, s3) \<Rightarrow>
                 if err \<noteq> 0 then (Inl err, unmap_and_release m s3)
                 else (Inr m, insert_list DeviceQueueList m s3)))"

subsection \<open>What an operation on one descriptor can change\<close>

text \<open>\<open>touches m s s'\<close>: nothing but descriptor \<open>m\<close> and the log differ, and the log only grew.\<close>

definition touches :: "mid \<Rightarrow> kst \<Rightarrow> kst \<Rightarrow> bool" where
  "touches m s s' \<longleftrightarrow> (\<exists>md evs. s' = s\<lparr>k_maps := (k_maps s)(m := md), k_log := k_log s @ evs\<rparr> \<and>
     (k_maps s m \<noteq> None \<longrightarrow> md \<noteq> None))"

lemma touches_refl [simp]: "touches m s s"
  unfolding touches_def by (rule exI [of _ "k_maps s m"], rule exI [of _ "[]"]) simp

lemma touches_trans: "touches m s s' \<Longrightarrow> touches m s' s'' \<Longrightarrow> touches m s s''"
proof -
  assume a: "touches m s s'" "touches m s' s''"
  obtain md evs where 1: "s' = s\<lparr>k_maps := (k_maps s)(m := md), k_log := k_log s @ evs\<rparr>"
    "k_maps s m \<noteq> None \<longrightarrow> md \<noteq> None" using a(1) unfolding touches_def by blast
  obtain md' evs' where 2: "s'' = s'\<lparr>k_maps := (k_maps s')(m := md'), k_log := k_log s' @ evs'\<rparr>"
    "k_maps s' m \<noteq> None \<longrightarrow> md' \<noteq> None" using a(2) unfolding touches_def by blast
  have "s'' = s\<lparr>k_maps := (k_maps s)(m := md'), k_log := k_log s @ (evs @ evs')\<rparr>"
    unfolding 2(1) unfolding 1(1) by simp
  moreover have "k_maps s m \<noteq> None \<longrightarrow> md' \<noteq> None" using 1 2(2) by simp
  ultimately show ?thesis unfolding touches_def by blast
qed

lemma touches_set_map [simp]: "touches m s (set_map m f s)"
  unfolding touches_def set_map_def by (rule exI, rule exI [of _ "[]"]) auto

lemma touches_log_event [simp]: "touches m s (log_event ev s)"
  unfolding touches_def by (rule exI [of _ "k_maps s m"], rule exI [of _ "[ev]"]) (simp add: log_event_def)

lemma touches_log_events [simp]: "touches m s (log_events evs s)"
  unfolding touches_def by (rule exI [of _ "k_maps s m"], rule exI [of _ evs]) (simp add: log_events_def)

lemma touches_frame:
  assumes "touches m s s'"
  shows "k_next_mid s' = k_next_mid s" "k_host_list s' = k_host_list s" "k_device_list s' = k_device_list s"
    "k_device_queue_list s' = k_device_queue_list s" "k_ctrls s' = k_ctrls s" "k_next_cid s' = k_next_cid s"
    "k_ctrl_list s' = k_ctrl_list s" "k_chrdev_minor_ida s' = k_chrdev_minor_ida s"
    "k_queue_group_ida s' = k_queue_group_ida s" "k_pci s' = k_pci s" "k_files s' = k_files s"
    "m' \<noteq> m \<Longrightarrow> k_maps s' m' = k_maps s m'" "m' \<noteq> m \<Longrightarrow> get_map s' m' = get_map s m'"
    "k_maps s m \<noteq> None \<Longrightarrow> dom (k_maps s') = dom (k_maps s)"
    "k_registered s' = k_registered s"
  using assms by (auto simp: touches_def get_map_def split: if_splits)

lemma get_set_map [simp]:
  "get_map (set_map m f s) m' = (if m' = m then f (get_map s m) else get_map s m')"
  by (simp add: set_map_def get_map_def)

lemma set_map_frame [simp]:
  "k_log (set_map m f s) = k_log s" "k_ctrl_list (set_map m f s) = k_ctrl_list s"
  "k_ctrls (set_map m f s) = k_ctrls s" "k_files (set_map m f s) = k_files s"
  "k_maps (set_map m f s) m \<noteq> None" "k_next_mid (set_map m f s) = k_next_mid s"
  "k_pci (set_map m f s) = k_pci s" "get_list l (set_map m f s) = get_list l s"
  "dom (k_maps (set_map m f s)) = insert m (dom (k_maps s))"
  by (cases l; auto simp: set_map_def)+

lemma get_map_log [simp]:
  "get_map (log_event ev s) = get_map s" "get_map (log_events evs s) = get_map s"
  by (simp_all add: get_map_def fun_eq_iff)

lemma log_events_add: "log_events b (log_events a s) = log_events (a @ b) s"
  by (simp add: log_events_def)

lemma log_event_eq: "log_event ev s = log_events [ev] s"
  by (simp add: log_event_def log_events_def)

lemma log_events_nil [simp]: "log_events [] s = s"
  by (simp add: log_events_def)

subsection \<open>The effect of releasing a descriptor\<close>

definition unmap_events :: "p2p_page_table option \<Rightarrow> p2p_dma_mapping option \<Rightarrow> kevent list" where
  "unmap_events pt dm = (case dm of None \<Rightarrow> []
     | Some m \<Rightarrow> EvUnmapSg (dm_attach m) # (if pt \<noteq> None then [EvDetach (dm_attach m)] else []))"

definition put_events :: "p2p_page_table option \<Rightarrow> kevent list" where
  "put_events pt = (case pt of None \<Rightarrow> [] | Some p \<Rightarrow> [EvDmaBufPut (pt_dmabuf p)])"

fun gpu_unmap_events :: "gpu_region \<Rightarrow> nat \<Rightarrow> nat \<Rightarrow> kevent list" where
  "gpu_unmap_events gd 0 j = []"
| "gpu_unmap_events gd (Suc n) j =
     (if gr_mappings gd ! j \<noteq> None then unmap_events (gr_pages gd) (gr_mappings gd ! j) @ gpu_unmap_events gd n (Suc j)
      else gpu_unmap_events gd n j)"

definition release_events :: "nat \<Rightarrow> kmap \<Rightarrow> kevent list" where
  "release_events nctrls md =
     (case (map_release md, map_data md) of
        (Some Release_user_pages, Some d) \<Rightarrow>
          map (EvDmaUnmap (map_pdev md)) (take (map_n_addrs md) (map_addrs md)) @
          map EvPutPage (take (map_n_addrs md) (case d of HostPages ps \<Rightarrow> ps | _ \<Rightarrow> []))
      | (Some Release_gpu_memory, Some (GpuRegion gd)) \<Rightarrow> gpu_unmap_events gd nctrls 0 @ put_events (gr_pages gd)
      | (Some Release_gpu_ioqueue_memory, Some (GpuRegion gd)) \<Rightarrow>
          unmap_events (gr_pages gd) (gr_mappings gd ! 0) @ put_events (gr_pages gd)
      | _ \<Rightarrow> [])"

lemma unmap_pages_events:
  "dm \<noteq> None \<Longrightarrow> snd (nvfs_nvidia_p2p_dma_unmap_pages pt dm s) = log_events (unmap_events pt dm) s"
  by (auto simp: nvfs_nvidia_p2p_dma_unmap_pages_def unmap_events_def log_event_eq log_events_add)

lemma put_pages_events:
  "snd (nvfs_nvidia_p2p_put_pages pt s) = log_events (put_events pt) s"
  by (auto simp: nvfs_nvidia_p2p_put_pages_def put_events_def log_event_eq split: option.splits)

lemma gpu_unmap_loop_events:
  "gpu_unmap_loop gd cs j s = log_events (gpu_unmap_events gd (length cs) j) s"
  by (induction gd cs j s rule: gpu_unmap_loop.induct) (simp_all add: unmap_pages_events log_events_add del: not_None_eq)

definition clear_data :: "kmap \<Rightarrow> kmap" where
  "clear_data md = md\<lparr>map_data := None\<rparr>"

lemma run_release_events:
  assumes "map_release (get_map s m) = Some r" "map_data (get_map s m) \<noteq> None"
  shows "\<exists>md. run_release r m s =
    (log_events (release_events (length (k_ctrl_list s)) (get_map s m)) s)\<lparr>k_maps := (k_maps s)(m := md)\<rparr>"
proof -
  obtain d where d: "map_data (get_map s m) = Some d" using assms(2) by auto
  have keep: "\<exists>md. s = s\<lparr>k_maps := (k_maps s)(m := md)\<rparr>"
    by (rule exI [of _ "k_maps s m"]) simp
  show ?thesis
  proof (cases r)
    case Release_user_pages
    then show ?thesis using assms(1) d
      by (auto simp: release_user_pages_def Let_def release_events_def set_map_def log_events_add split: map_data.splits)
  next
    case Release_gpu_memory
    show ?thesis
    proof (cases d)
      case (GpuRegion gd)
      then show ?thesis using assms(1) d Release_gpu_memory
        by (auto simp: release_gpu_memory_def Let_def release_events_def gpu_unmap_loop_events put_pages_events
            log_events_add set_map_def put_events_def)
    qed (use assms(1) d Release_gpu_memory keep in \<open>auto simp: release_gpu_memory_def release_events_def\<close>)
  next
    case Release_gpu_ioqueue_memory
    show ?thesis
    proof (cases d)
      case (GpuRegion gd)
      then show ?thesis using assms(1) d Release_gpu_ioqueue_memory
        by (cases "gr_mappings gd ! 0"; cases "gr_pages gd")
          (auto simp: release_gpu_ioqueue_memory_def Let_def release_events_def put_pages_events
            log_events_add set_map_def put_events_def unmap_pages_events unmap_events_def)
    qed (use assms(1) d Release_gpu_ioqueue_memory keep in \<open>auto simp: release_gpu_ioqueue_memory_def release_events_def\<close>)
  qed
qed

lemma release_events_none:
  "map_release md = None \<or> map_data md = None \<Longrightarrow> release_events n md = []"
  by (auto simp: release_events_def split: option.splits release_fn.splits)

lemma unmap_and_release_eq:
  "unmap_and_release m s = s\<lparr>k_maps := (k_maps s)(m := None),
     k_host_list := remove1 m (k_host_list s), k_device_list := remove1 m (k_device_list s),
     k_device_queue_list := remove1 m (k_device_queue_list s),
     k_files := (\<lambda>f. map_option (unlink_group_maps m) (k_files s f)),
     k_log := k_log s @ release_events (length (k_ctrl_list s)) (get_map s m)\<rparr>"
proof -
  let ?s = "list_del_group_link m (list_remove_map m s)"
  have g: "get_map ?s m = get_map s m" "k_ctrl_list ?s = k_ctrl_list s"
    by (simp_all add: list_del_group_link_def list_remove_map_def get_map_def)
  show ?thesis
  proof (cases "map_release (get_map s m) = None \<or> map_data (get_map s m) = None")
    case True
    then have "unmap_and_release m s = ?s\<lparr>k_maps := (k_maps ?s)(m := None)\<rparr>"
      by (auto simp: unmap_and_release_def Let_def g split: option.splits)
    then show ?thesis using True
      by (simp add: release_events_none list_del_group_link_def list_remove_map_def)
  next
    case False
    then obtain r where r: "map_release (get_map s m) = Some r" "map_data (get_map s m) \<noteq> None" by auto
    then obtain md where "run_release r m ?s =
      (log_events (release_events (length (k_ctrl_list s)) (get_map s m)) ?s)\<lparr>k_maps := (k_maps ?s)(m := md)\<rparr>"
      using run_release_events [of ?s m r] g by auto
    then have "unmap_and_release m s = (log_events (release_events (length (k_ctrl_list s)) (get_map s m)) ?s)
      \<lparr>k_maps := (k_maps ?s)(m := None)\<rparr>"
      using r by (simp add: unmap_and_release_def Let_def g)
    then show ?thesis
      by (simp add: log_events_def list_del_group_link_def list_remove_map_def)
  qed
qed

lemma unmap_and_release_frame [simp]:
  "k_maps (unmap_and_release m s) = (k_maps s)(m := None)" "k_next_mid (unmap_and_release m s) = k_next_mid s"
  "k_host_list (unmap_and_release m s) = remove1 m (k_host_list s)"
  "k_device_list (unmap_and_release m s) = remove1 m (k_device_list s)"
  "k_device_queue_list (unmap_and_release m s) = remove1 m (k_device_queue_list s)"
  "get_list l (unmap_and_release m s) = remove1 m (get_list l s)"
  "k_ctrls (unmap_and_release m s) = k_ctrls s" "k_next_cid (unmap_and_release m s) = k_next_cid s"
  "k_ctrl_list (unmap_and_release m s) = k_ctrl_list s"
  "k_chrdev_minor_ida (unmap_and_release m s) = k_chrdev_minor_ida s"
  "k_queue_group_ida (unmap_and_release m s) = k_queue_group_ida s" "k_pci (unmap_and_release m s) = k_pci s"
  "k_registered (unmap_and_release m s) = k_registered s"
  "k_files (unmap_and_release m s) f = map_option (unlink_group_maps m) (k_files s f)"
  "k_log (unmap_and_release m s) = k_log s @ release_events (length (k_ctrl_list s)) (get_map s m)"
  "m' \<noteq> m \<Longrightarrow> get_map (unmap_and_release m s) m' = get_map s m'"
  by (cases l; simp add: unmap_and_release_eq get_map_def)+

subsection \<open>Reclaiming the descriptors of a task\<close>

text \<open>With every list duplicate-free the walk ends, although it starts over after each release, and
  has then released exactly the matching descriptors, in list order.\<close>

lemma fold_unmap_get_map:
  "m \<notin> set ms \<Longrightarrow> get_map (fold unmap_and_release ms s) m = get_map s m"
  by (induction ms arbitrary: s) auto

lemma map_purge_loop_returns:
  assumes "get_list l s = pre @ rest" "distinct (pre @ rest)" "\<forall>m \<in> set pre. \<not> purge_match owner (get_map s m)"
  shows "map_purge_loop l owner rest s freed =
    Some (freed + length (filter (\<lambda>m. purge_match owner (get_map s m)) rest),
          fold unmap_and_release (filter (\<lambda>m. purge_match owner (get_map s m)) rest) s)"
  using assms
proof (induction "(length (get_list l s), length rest)" arbitrary: s pre rest freed
    rule: wf_induct_rule [OF wf_lex_prod [OF wf_less_than wf_less_than]])
  case 1
  note IH = 1(1) and l = 1(2) and d = 1(3) and pre = 1(4)
  show ?case
  proof (cases rest)
    case Nil
    then show ?thesis by (simp add: map_purge_loop.simps)
  next
    case (Cons m ms)
    show ?thesis
    proof (cases "purge_match owner (get_map s m)")
      case True
      let ?s = "unmap_and_release m s"
      have nl: "get_list l ?s = [] @ (pre @ ms)" using l d Cons by (simp add: remove1_append)
      have same: "get_map ?s x = get_map s x" if "x \<in> set (pre @ ms)" for x
      proof -
        have "x \<noteq> m" using that d Cons by auto
        then show ?thesis by simp
      qed
      have "filter (\<lambda>x. purge_match owner (get_map ?s x)) (pre @ ms) = filter (\<lambda>x. purge_match owner (get_map s x)) ms"
        using pre same by (auto simp: filter_empty_conv cong: filter_cong)
      moreover have "map_purge_loop l owner (pre @ ms) ?s (Suc freed) =
        Some (Suc freed + length (filter (\<lambda>x. purge_match owner (get_map ?s x)) (pre @ ms)),
              fold unmap_and_release (filter (\<lambda>x. purge_match owner (get_map ?s x)) (pre @ ms)) ?s)"
        by (rule IH [OF _ nl]) (use l d Cons in \<open>simp_all add: nl del: unmap_and_release_frame\<close>)
      ultimately show ?thesis using True nl
        by (simp add: map_purge_loop.simps [of l owner "m # ms"] Cons Let_def del: unmap_and_release_frame)
    next
      case False
      have "map_purge_loop l owner ms s freed =
        Some (freed + length (filter (\<lambda>x. purge_match owner (get_map s x)) ms),
              fold unmap_and_release (filter (\<lambda>x. purge_match owner (get_map s x)) ms) s)"
        by (rule IH [of s ms "pre @ [m]"]) (use l d Cons pre False in auto)
      then show ?thesis using False by (simp add: map_purge_loop.simps [of l owner "m # ms"] Cons)
    qed
  qed
qed

lemma map_purge_by_owner_eq:
  assumes "distinct (get_list l s)"
  shows "map_purge_by_owner l owner s =
    (let ms = filter (\<lambda>m. purge_match owner (get_map s m)) (get_list l s)
     in (length ms, fold unmap_and_release ms s))"
  using map_purge_loop_returns [of l s "[]" "get_list l s" owner 0] assms
  by (simp add: map_purge_by_owner_def Let_def)

subsection \<open>The builders touch only their descriptor\<close>

lemma touches_set_gpu_region [simp]: "touches m s (set_gpu_region m f s)"
  by (simp add: set_gpu_region_def)

lemma touches_copy_dma_addresses [simp]: "touches m s (copy_dma_addresses m dm s)"
  by (simp add: copy_dma_addresses_def)

lemma touches_get_pages: "nvfs_nvidia_p2p_get_pages e va len s = (err, pt, s') \<Longrightarrow> touches m s s'"
  by (auto simp: nvfs_nvidia_p2p_get_pages_def Let_def split: if_splits sum.splits)

lemma touches_dma_map_pages: "nvfs_nvidia_p2p_dma_map_pages e peer pt s = (err, dm, s') \<Longrightarrow> touches m s s'"
  by (auto simp: nvfs_nvidia_p2p_dma_map_pages_def Let_def log_event_eq log_events_add
      split: option.splits if_splits sum.splits)

lemma touches_dma_map_loop: "dma_map_loop e m i pgs s = (err, s') \<Longrightarrow> touches m s s'"
proof (induction e m i pgs s rule: dma_map_loop.induct)
  case (2 e m i pg pgs s)
  let ?pd = "map_pdev (get_map s m)" and ?a = "dma_map_page e (k_log s) (map_pdev (get_map s m)) pg"
  let ?s1 = "set_map m (\<lambda>md. md\<lparr>map_addrs := (map_addrs md)[i := ?a]\<rparr>) s"
  show ?case
  proof (cases "dma_mapping_error e ?pd ?a = 0")
    case True
    then have "touches m (log_event (EvDmaMap ?pd pg ?a) ?s1) s'" using 2 by (simp add: Let_def)
    then show ?thesis using touches_trans [OF touches_trans [OF touches_set_map touches_log_event]] by blast
  next
    case False
    then have "s' = ?s1" using 2(2) by (simp add: Let_def)
    then show ?thesis by simp
  qed
qed simp

lemma touches_gpu_map_loop: "gpu_map_loop e m pt cs j s = (err, s') \<Longrightarrow> touches m s s'"
proof (induction e m pt cs j s rule: gpu_map_loop.induct)
  case (2 e m pt c cs j s)
  obtain err1 dm s1 where d: "nvfs_nvidia_p2p_dma_map_pages e (ctrl_pdev (the (k_ctrls s c))) pt s = (err1, dm, s1)"
    by (metis prod_cases3)
  note t1 = touches_dma_map_pages [OF d, of m]
  let ?s2 = "set_gpu_region m (gr_mappings_update (\<lambda>ms. ms[j := dm])) s1"
  let ?s3 = "if Suc j = 1 then copy_dma_addresses m (the dm) ?s2 else ?s2"
  show ?case
  proof (cases "err1 = 0")
    case True
    then have "gpu_map_loop e m pt cs (Suc j) ?s3 = (err, s')" using 2(2) d by (simp add: Let_def)
    then have "touches m ?s3 s'" using 2(1) d True by (simp add: Let_def)
    moreover have "touches m s1 ?s3"
      using touches_trans [OF touches_set_gpu_region touches_copy_dma_addresses] by simp
    ultimately show ?thesis using t1 touches_trans by blast
  next
    case False
    then show ?thesis using 2(2) d t1 by simp
  qed
qed simp

lemma touches_map_user_pages:
  assumes "map_user_pages e m s = (err, s')" shows "touches m s s'"
proof -
  obtain retval pages where g: "get_user_pages e (k_log s) (map_vaddr (get_map s m)) (map_n_addrs (get_map s m)) = (retval, pages)"
    by (cases "get_user_pages e (k_log s) (map_vaddr (get_map s m)) (map_n_addrs (get_map s m))")
  show ?thesis
  proof (cases "\<not> kmalloc_ok e A_pages \<or> retval \<le> 0")
    case True then show ?thesis using assms g by (auto simp: map_user_pages_def split: if_splits)
  next
    case False
    then have "touches m (set_map m (\<lambda>md. md\<lparr>map_n_addrs := nat retval, map_page_size := PAGE_SIZE,
        map_data := Some (HostPages pages), map_release := Some Release_user_pages\<rparr>)
        (log_events (map EvPinPage pages) s)) s'"
      using assms g by (intro touches_dma_map_loop) (simp add: map_user_pages_def Let_def)
    then show ?thesis using touches_trans [OF touches_trans [OF touches_log_events touches_set_map]] by blast
  qed
qed

lemma touches_map_gpu_memory:
  assumes "map_gpu_memory e m s = (err, s')" shows "touches m s s'"
proof (cases "kmalloc_ok e A_gpu_region \<and> kmalloc_ok e A_mappings")
  case True
  let ?gd = "\<lparr>gr_pages = None, gr_mappings = replicate max_num_ctrls None\<rparr>"
  let ?s1 = "set_map m (\<lambda>md. md\<lparr>map_page_size := GPU_PAGE_SIZE, map_data := Some (GpuRegion ?gd),
                   map_release := Some Release_gpu_memory\<rparr>) s"
  let ?md = "get_map ?s1 m"
  obtain err2 pt s2 where g: "nvfs_nvidia_p2p_get_pages e (map_vaddr ?md) (GPU_PAGE_SIZE * of_nat (map_n_addrs ?md)) ?s1 = (err2, pt, s2)"
    by (metis prod_cases3)
  let ?s3 = "set_gpu_region m (gr_pages_update (\<lambda>_. pt)) s2"
  obtain err4 s4 where l: "gpu_map_loop e m pt (k_ctrl_list ?s3) 0 ?s3 = (err4, s4)" by fastforce
  have t2: "touches m s s2" using touches_trans [OF touches_set_map touches_get_pages [OF g]] .
  have t4: "touches m s s4"
    using touches_trans [OF touches_trans [OF t2 touches_set_gpu_region] touches_gpu_map_loop [OF l]] .
  have "s' = s2 \<or> s' = s4 \<or> s' = set_map m (map_n_addrs_update (\<lambda>_. pt_entries (the pt))) s4"
    using assms True g l unfolding map_gpu_memory_def Let_def by (simp split: if_splits)
  then show ?thesis using t2 t4 touches_trans [OF t4 touches_set_map] by auto
next
  case False
  then show ?thesis using assms by (auto simp: map_gpu_memory_def split: if_splits)
qed

lemma touches_map_gpu_ioqueue_memory:
  assumes "map_gpu_ioqueue_memory e m s = (err, s')" shows "touches m s s'"
proof (cases "kmalloc_ok e A_gpu_region \<and> kmalloc_ok e A_mappings")
  case True
  let ?gd = "\<lparr>gr_pages = None, gr_mappings = [uninit_mapping e]\<rparr>"
  let ?s1 = "set_map m (\<lambda>md. md\<lparr>map_page_size := GPU_PAGE_SIZE, map_data := Some (GpuRegion ?gd),
                   map_release := Some Release_gpu_ioqueue_memory\<rparr>) s"
  let ?md = "get_map ?s1 m"
  obtain err2 pt s2 where g: "nvfs_nvidia_p2p_get_pages e (map_vaddr ?md) (GPU_PAGE_SIZE * of_nat (map_n_addrs ?md)) ?s1 = (err2, pt, s2)"
    by (metis prod_cases3)
  let ?s3 = "set_gpu_region m (gr_pages_update (\<lambda>_. pt)) s2"
  obtain err4 dm s4 where l: "nvfs_nvidia_p2p_dma_map_pages e (map_pdev ?md) pt ?s3 = (err4, dm, s4)" by (metis prod_cases3)
  let ?s6 = "copy_dma_addresses m (the dm) (set_gpu_region m (gr_mappings_update (\<lambda>ms. ms[0 := dm])) s4)"
  have t2: "touches m s s2" using touches_trans [OF touches_set_map touches_get_pages [OF g]] .
  have t4: "touches m s s4"
    using touches_trans [OF touches_trans [OF t2 touches_set_gpu_region] touches_dma_map_pages [OF l]] .
  have t6: "touches m s ?s6"
    using touches_trans [OF t4 touches_trans [OF touches_set_gpu_region touches_copy_dma_addresses]] .
  have "s' = s2 \<or> s' = s4 \<or> s' = set_map m (map_n_addrs_update (\<lambda>_. pt_entries (the pt))) ?s6"
    using assms True g l unfolding map_gpu_ioqueue_memory_def Let_def by (simp split: if_splits)
  then show ?thesis using t2 t4 touches_trans [OF t6 touches_set_map] by auto
next
  case False
  then show ?thesis using assms by (auto simp: map_gpu_ioqueue_memory_def split: if_splits)
qed

subsection \<open>Consistency of the descriptor lists\<close>

text \<open>Between system calls every live descriptor is on exactly one global list, and group and data
  lists refer to live descriptors only: a descriptor is neither leaked nor used after free.\<close>

definition all_lists :: "kst \<Rightarrow> mid list" where
  "all_lists s = k_host_list s @ k_device_list s @ k_device_queue_list s"

definition linked_maps :: "snvm_dev_owner \<Rightarrow> mid list" where
  "linked_maps own = concat (map g_maps (own_groups own)) @ own_data_maps own"

definition maps_wf :: "kst \<Rightarrow> bool" where
  "maps_wf s \<longleftrightarrow> (\<forall>m \<in> dom (k_maps s). m < k_next_mid s) \<and> distinct (all_lists s) \<and>
     set (all_lists s) = dom (k_maps s) \<and>
     (\<forall>f own. k_files s f = Some own \<longrightarrow> set (linked_maps own) \<subseteq> dom (k_maps s))"

lemma maps_wf_finite: "maps_wf s \<Longrightarrow> finite (dom (k_maps s))"
  unfolding maps_wf_def by (metis List.finite_set)

lemma maps_wf_fresh:
  assumes "maps_wf s"
  shows "k_maps s (k_next_mid s) = None" "k_next_mid s \<notin> set (all_lists s)"
    "k_files s f = Some own \<Longrightarrow> k_next_mid s \<notin> set (linked_maps own)"
proof -
  show 1: "k_maps s (k_next_mid s) = None" using assms by (auto simp: maps_wf_def dom_def)
  then show "k_next_mid s \<notin> set (all_lists s)" using assms by (auto simp: maps_wf_def)
  show "k_files s f = Some own \<Longrightarrow> k_next_mid s \<notin> set (linked_maps own)"
    using assms 1 unfolding maps_wf_def by blast
qed

lemma maps_wf_distinct: "maps_wf s \<Longrightarrow> distinct (get_list l s)"
  by (cases l) (auto simp: maps_wf_def all_lists_def)

lemma maps_wf_list_live: "maps_wf s \<Longrightarrow> m \<in> set (get_list l s) \<Longrightarrow> k_maps s m \<noteq> None"
  by (cases l) (auto simp: maps_wf_def all_lists_def)

lemma unlink_noop:
  assumes "m \<notin> set (linked_maps own)" shows "unlink_group_maps m own = own"
proof -
  have "g\<lparr>g_maps := removeAll m (g_maps g)\<rparr> = g" if "g \<in> set (own_groups own)" for g
  proof -
    have "removeAll m (g_maps g) = g_maps g" using that assms by (simp add: linked_maps_def)
    then show ?thesis by simp
  qed
  then have "map (\<lambda>g. g\<lparr>g_maps := removeAll m (g_maps g)\<rparr>) (own_groups own) = own_groups own"
    by (intro map_idI)
  then show ?thesis using assms by (simp add: unlink_group_maps_def linked_maps_def)
qed

lemma linked_unlink [simp]: "set (linked_maps (unlink_group_maps m own)) = set (linked_maps own) - {m}"
  by (auto simp: linked_maps_def unlink_group_maps_def)

lemma unmap_and_release_wf:
  assumes "maps_wf s" shows "maps_wf (unmap_and_release m s)"
proof -
  let ?s = "unmap_and_release m s"
  have d: "distinct (all_lists s)" and st: "set (all_lists s) = dom (k_maps s)" using assms by (auto simp: maps_wf_def)
  have e: "set (all_lists ?s) = set (all_lists s) - {m}" "distinct (all_lists ?s)"
    using d by (auto simp: all_lists_def dest: notin_set_remove1)
  moreover have "set (linked_maps own) \<subseteq> dom (k_maps ?s)" if "k_files ?s f = Some own" for f own
  proof -
    obtain own' where o: "k_files s f = Some own'" "own = unlink_group_maps m own'"
      using \<open>k_files ?s f = Some own\<close> by (auto simp del: not_None_eq)
    then have "set (linked_maps own') \<subseteq> dom (k_maps s)" using assms unfolding maps_wf_def by blast
    then show ?thesis using o(2) by auto
  qed
  ultimately show ?thesis using assms st unfolding maps_wf_def by auto
qed

lemma fold_unmap_wf: "maps_wf s \<Longrightarrow> maps_wf (fold unmap_and_release ms s)"
  by (induction ms arbitrary: s) (auto intro: unmap_and_release_wf)

subsection \<open>The common shape of the three mapping functions\<close>

definition map_pattern ::
  "(kenv \<Rightarrow> mid \<Rightarrow> kst \<Rightarrow> int \<times> kst) \<Rightarrow> glist \<Rightarrow> u64 \<Rightarrow> kenv \<Rightarrow> ctrl \<Rightarrow> u64 \<Rightarrow> u64 \<Rightarrow> kst \<Rightarrow> (int + mid) \<times> kst" where
  "map_pattern build l psz e c vaddr n_pages s =
     (if n_pages < 1 then (Inl (- EINVAL), s)
      else case create_descriptor e c (vaddr AND page_mask psz) n_pages s of
          (Inl err, s1) \<Rightarrow> (Inl err, s1)
        | (Inr m, s1) \<Rightarrow>
            let s2 = set_map m (map_page_size_update (\<lambda>_. psz)) s1 in
            (case build e m s2 of
               (err, s3) \<Rightarrow>
                 if err \<noteq> 0 then (Inl err, unmap_and_release m s3)
                 else (Inr m, insert_list l m s3)))"

lemma map_userspace_pattern: "map_userspace = map_pattern map_user_pages HostList PAGE_SIZE"
  by (intro ext) (simp add: map_userspace_def map_pattern_def)

lemma map_device_memory_pattern: "map_device_memory = map_pattern map_gpu_memory DeviceList GPU_PAGE_SIZE"
  by (intro ext) (simp add: map_device_memory_def map_pattern_def)

lemma map_device_ioqueue_memory_pattern:
  "map_device_ioqueue_memory = map_pattern map_gpu_ioqueue_memory DeviceQueueList GPU_PAGE_SIZE"
  by (intro ext) (simp add: map_device_ioqueue_memory_def map_pattern_def)

lemmas map_patterns = map_userspace_pattern map_device_memory_pattern map_device_ioqueue_memory_pattern

definition fresh_map :: "kenv \<Rightarrow> ctrl \<Rightarrow> u64 \<Rightarrow> u64 \<Rightarrow> u64 \<Rightarrow> kmap" where
  "fresh_map e c vaddr psz n_pages =
     \<lparr>map_owner = current e, map_vaddr = vaddr AND page_mask psz, map_is_cq = -1, map_ioq_idx = -1,
      map_pdev = ctrl_pdev c, map_page_size = psz, map_data = None, map_release = None,
      map_group_id = 0, map_kind = NVM_MAP_KIND_UNSPECIFIED,
      map_n_addrs = unat n_pages, map_addrs = replicate (unat n_pages) 0\<rparr>"

definition with_map :: "mid \<Rightarrow> kmap \<Rightarrow> kst \<Rightarrow> kst" where
  "with_map m md s = s\<lparr>k_next_mid := Suc m, k_maps := (k_maps s)(m \<mapsto> md)\<rparr>"

lemma map_pattern_unfold:
  "map_pattern build l psz e c vaddr n_pages s =
     (if n_pages < 1 then (Inl (- EINVAL), s)
      else if \<not> kmalloc_ok e A_map then (Inl (- ENOMEM), s)
      else
        let m = k_next_mid s in
        (case build e m (with_map m (fresh_map e c vaddr psz n_pages) s) of
           (err, s3) \<Rightarrow> if err \<noteq> 0 then (Inl err, unmap_and_release m s3) else (Inr m, insert_list l m s3)))"
  by (simp add: map_pattern_def create_descriptor_def set_map_def get_map_def fresh_map_def with_map_def Let_def)

definition touching :: "(mid \<Rightarrow> kst \<Rightarrow> int \<times> kst) \<Rightarrow> bool" where
  "touching build \<longleftrightarrow> (\<forall>m s err s'. build m s = (err, s') \<longrightarrow> touches m s s')"

lemma touchingD: "touching build \<Longrightarrow> build m s = (err, s') \<Longrightarrow> touches m s s'"
  by (auto simp: touching_def)

lemma touching_builders:
  "touching (map_user_pages e)" "touching (map_gpu_memory e)" "touching (map_gpu_ioqueue_memory e)"
  using touches_map_user_pages touches_map_gpu_memory touches_map_gpu_ioqueue_memory
  unfolding touching_def by blast+

text \<open>A failed mapping leaves no trace but log entries: every list, descriptor, group and file is what
  it was.\<close>

lemma map_pattern_fail:
  assumes t: "touching (build e)"
    and "maps_wf s" "map_pattern build l psz e c vaddr n_pages s = (Inl err, s')"
  shows "s' = s\<lparr>k_next_mid := k_next_mid s', k_log := k_log s'\<rparr> \<and> k_next_mid s \<le> k_next_mid s' \<and>
    (\<exists>evs. k_log s' = k_log s @ evs)"
proof (cases "n_pages < 1 \<or> \<not> kmalloc_ok e A_map")
  case True
  then show ?thesis using assms(3) by (auto simp: map_pattern_unfold split: if_splits)
next
  case False
  let ?m = "k_next_mid s" and ?s2 = "with_map (k_next_mid s) (fresh_map e c vaddr psz n_pages) s"
  obtain err3 s3 where b: "build e ?m ?s2 = (err3, s3)" by fastforce
  then have s': "s' = unmap_and_release ?m s3"
    using assms(3) False by (auto simp: map_pattern_unfold Let_def split: if_splits)
  obtain md evs where s3: "s3 = ?s2\<lparr>k_maps := (k_maps ?s2)(?m := md), k_log := k_log ?s2 @ evs\<rparr>"
    using touchingD [OF t b] unfolding touches_def by blast
  note fr = maps_wf_fresh [OF assms(2)]
  have lists: "remove1 ?m (k_host_list s) = k_host_list s" "remove1 ?m (k_device_list s) = k_device_list s"
    "remove1 ?m (k_device_queue_list s) = k_device_queue_list s"
    using fr(2) by (auto simp: all_lists_def remove1_idem)
  have files: "(\<lambda>f. map_option (unlink_group_maps ?m) (k_files s f)) = k_files s"
  proof
    fix f show "map_option (unlink_group_maps ?m) (k_files s f) = k_files s f"
      by (cases "k_files s f") (auto simp: unlink_noop fr(3))
  qed
  have maps: "(k_maps s)(?m := None) = k_maps s" using fr(1) by auto
  show ?thesis unfolding s' unmap_and_release_eq s3 by (simp add: with_map_def lists files maps)
qed

lemma map_pattern_ok:
  assumes t: "touching (build e)"
    and "map_pattern build l psz e c vaddr n_pages s = (Inr m, s')"
  obtains s3 md evs where "m = k_next_mid s" "build e m (with_map m (fresh_map e c vaddr psz n_pages) s) = (0, s3)"
    "get_map s3 m = md" "k_log s3 = k_log s @ evs"
    "s' = insert_list l m (s\<lparr>k_next_mid := Suc m, k_maps := (k_maps s)(m \<mapsto> md), k_log := k_log s @ evs\<rparr>)"
proof -
  let ?m = "k_next_mid s" and ?s2 = "with_map (k_next_mid s) (fresh_map e c vaddr psz n_pages) s"
  obtain err3 s3 where b: "build e ?m ?s2 = (err3, s3)" by fastforce
  then have r: "m = ?m" "err3 = 0" "s' = insert_list l ?m s3"
    using assms(2) by (auto simp: map_pattern_unfold Let_def split: if_splits)
  obtain md evs where s3: "s3 = ?s2\<lparr>k_maps := (k_maps ?s2)(?m := md), k_log := k_log ?s2 @ evs\<rparr>"
    and "k_maps ?s2 ?m \<noteq> None \<longrightarrow> md \<noteq> None"
    using touchingD [OF t b] unfolding touches_def by blast
  then have "md \<noteq> None" by (simp add: with_map_def)
  then obtain md' where md': "md = Some md'" by auto
  show ?thesis
  proof (rule that [of s3 md' evs])
    show "get_map s3 m = md'" "k_log s3 = k_log s @ evs" using s3 md' r by (simp_all add: get_map_def with_map_def)
    show "s' = insert_list l m (s\<lparr>k_next_mid := Suc m, k_maps := (k_maps s)(m \<mapsto> md'), k_log := k_log s @ evs\<rparr>)"
      unfolding r(3) r(1) s3 md' with_map_def by simp
  qed (use r b in auto)
qed

lemma insert_list_frame [simp]:
  "k_maps (insert_list l m s) = k_maps s" "k_next_mid (insert_list l m s) = k_next_mid s"
  "k_ctrls (insert_list l m s) = k_ctrls s" "k_next_cid (insert_list l m s) = k_next_cid s"
  "k_ctrl_list (insert_list l m s) = k_ctrl_list s" "k_pci (insert_list l m s) = k_pci s"
  "k_registered (insert_list l m s) = k_registered s"
  "k_chrdev_minor_ida (insert_list l m s) = k_chrdev_minor_ida s"
  "k_queue_group_ida (insert_list l m s) = k_queue_group_ida s"
  "k_files (insert_list l m s) = k_files s" "k_log (insert_list l m s) = k_log s"
  "get_list l' (insert_list l m s) = (if l' = l then get_list l s @ [m] else get_list l' s)"
  "get_map (insert_list l m s) = get_map s"
  by (cases l; cases l'; simp add: get_map_def fun_eq_iff)+

lemma set_all_lists_insert:
  "set (all_lists (insert_list l m s)) = insert m (set (all_lists s))"
  "distinct (all_lists (insert_list l m s)) \<longleftrightarrow> distinct (all_lists s) \<and> m \<notin> set (all_lists s)"
  by (cases l; auto simp: all_lists_def)+

lemma map_pattern_wf:
  assumes t: "touching (build e)"
    and w: "maps_wf s" and p: "map_pattern build l psz e c vaddr n_pages s = (r, s')"
  shows "maps_wf s'"
proof (cases r)
  case (Inl err)
  have "s' = s\<lparr>k_next_mid := k_next_mid s', k_log := k_log s'\<rparr> \<and> k_next_mid s \<le> k_next_mid s'"
    using map_pattern_fail [of build e, OF t w p [unfolded Inl]] by blast
  then obtain n lg where s': "s' = s\<lparr>k_next_mid := n, k_log := lg\<rparr>" "k_next_mid s \<le> n" by metis
  moreover have "\<forall>m \<in> dom (k_maps s). m < n"
    using w s'(2) unfolding maps_wf_def by (meson order_less_le_trans)
  ultimately show ?thesis using w by (simp add: maps_wf_def all_lists_def)
next
  case (Inr m)
  from t p [unfolded Inr] show ?thesis
  proof (rule map_pattern_ok [of build e])
    fix s3 md evs
    assume m: "m = k_next_mid s"
      and s': "s' = insert_list l m (s\<lparr>k_next_mid := Suc m, k_maps := (k_maps s)(m \<mapsto> md), k_log := k_log s @ evs\<rparr>)"
    let ?t = "s\<lparr>k_next_mid := Suc m, k_maps := (k_maps s)(m \<mapsto> md), k_log := k_log s @ evs\<rparr>"
    have a: "all_lists ?t = all_lists s" by (simp add: all_lists_def)
    have "distinct (all_lists s')" "set (all_lists s') = insert m (dom (k_maps s))"
      using w maps_wf_fresh(2) [OF w] m unfolding s' set_all_lists_insert a by (auto simp: maps_wf_def)
    moreover have "dom (k_maps s') = insert m (dom (k_maps s))" "k_next_mid s' = Suc m" "k_files s' = k_files s"
      by (simp_all add: s')
    moreover have "\<forall>x \<in> dom (k_maps s'). x < Suc m"
      using w m calculation(3) by (auto simp: maps_wf_def intro: less_SucI)
    moreover have "set (linked_maps own) \<subseteq> insert m (dom (k_maps s))" if "k_files s f = Some own" for f own
      using w that unfolding maps_wf_def by blast
    ultimately show ?thesis unfolding maps_wf_def by simp
  qed
qed

end
