(* ===== verification/Io_Queue_Setup.thy ===== *)
theory Io_Queue_Setup
  imports Map_Mem
begin

text \<open>
  Bringing up the I/O queues of a controller after a reset (\<open>pci.c\<close>, \<open>core.c\<close>): negotiation of the queue
  count, the cap on the kernel's share, doorbell mapping, interrupt vectors, allocation and creation of
  the kernel's queues, creation of the queues a user registered before the driver was bound, and the
  retry with fewer queues. \<open>nvme_hw\<close> extends \<open>nvme_dev\<close> by the fields only this code touches; the
  array \<open>dev->queues\<close> has the length it was allocated with, and a write past its end sets
  \<open>hw_overrun\<close>. \<open>hw_locked\<close> says whether this thread holds \<open>shutdown_lock\<close>.
\<close>

subsection \<open>State and environment\<close>

record nvme_queue =
  kq_enabled :: bool
  kq_polled :: bool
  kq_sq_cmb :: bool
  kq_delete_error :: bool
  kq_qid :: u16
  kq_q_depth :: u32
  kq_sq_dma_addr :: u64
  kq_cq_dma_addr :: u64
  kq_cq_vector :: u16
  kq_sq_tail :: u16
  kq_last_sq_tail :: u16
  kq_cq_head :: u16
  kq_cq_phase :: u8
  kq_q_db :: u32

datatype io_event =
    IoFeatures u32
  | IoTrylock bool
  | IoRemap u64
  | IoVectors u32 int
  | IoFreeVectors
  | IoRequestIrq u16 int
  | IoFreeIrq u16
  | IoAlloc "u64 option"
  | IoFree u64
  | IoAdmin admin_cmd int
  | IoDeleteSent admin_cmd int
  | IoDeleteWait nat bool

record nvme_hw = nvme_dev +
  hw_queue_count :: u32
  hw_queues :: "nvme_queue list"
  hw_num_vecs :: u32
  hw_io_default :: u32
  hw_io_read :: u32
  hw_io_poll :: u32
  hw_bar_mapped_size :: u64
  hw_cmb_use_sqes :: bool
  hw_cmb_sqs :: bool
  hw_cmb_size :: u64
  hw_locked :: bool
  hw_overrun :: bool
  hw_log :: "io_event list"

record hw_env =
  he_write_queues :: u32
  he_poll_queues :: u32
  he_set_features :: "u32 \<Rightarrow> int \<times> u32"
  he_trylock :: "io_event list \<Rightarrow> bool"
  he_connecting :: "io_event list \<Rightarrow> bool"
  he_bar0_len :: u64
  he_ioremap :: "u64 \<Rightarrow> bool"
  he_single_vector :: bool
  he_medium_prio :: bool
  he_alloc_vectors :: "io_event list \<Rightarrow> u32 \<Rightarrow> int"
  he_request_irq :: "io_event list \<Rightarrow> u16 \<Rightarrow> int"
  he_dma_alloc :: "io_event list \<Rightarrow> u64 option"
  he_p2pmem :: "io_event list \<Rightarrow> u64 option"
  he_admin :: "io_event list \<Rightarrow> admin_cmd \<Rightarrow> int"
  he_alloc_request :: "io_event list \<Rightarrow> int"
  he_delete_done :: "io_event list \<Rightarrow> bool"
  he_wild_queue :: nvme_queue

definition io_log :: "io_event \<Rightarrow> nvme_hw \<Rightarrow> nvme_hw" where
  "io_log ev h = h\<lparr>hw_log := hw_log h @ [ev]\<rparr>"

text \<open>\<open>dev->queues[i]\<close>, read and written.\<close>

definition get_q :: "hw_env \<Rightarrow> nvme_hw \<Rightarrow> nat \<Rightarrow> nvme_queue" where
  "get_q e h i = (if i < length (hw_queues h) then hw_queues h ! i else he_wild_queue e)"

definition upd_q :: "nat \<Rightarrow> (nvme_queue \<Rightarrow> nvme_queue) \<Rightarrow> nvme_hw \<Rightarrow> nvme_hw" where
  "upd_q i f h =
     (if i < length (hw_queues h) then h\<lparr>hw_queues := (hw_queues h)[i := f (hw_queues h ! i)]\<rparr>
      else h\<lparr>hw_overrun := True\<rparr>)"

subsection \<open>Locking and doorbells\<close>

definition nvme_setup_io_queues_trylock :: "hw_env \<Rightarrow> nvme_hw \<Rightarrow> int \<times> nvme_hw" where
  "nvme_setup_io_queues_trylock e h =
     (if \<not> he_trylock e (hw_log h) then (- ENODEV, io_log (IoTrylock False) h)
      else if \<not> he_connecting e (hw_log h) then (- ENODEV, io_log (IoTrylock False) h)
      else (0, io_log (IoTrylock True) (h\<lparr>hw_locked := True\<rparr>)))"

definition unlock :: "nvme_hw \<Rightarrow> nvme_hw" where
  "unlock h = h\<lparr>hw_locked := False\<rparr>"

definition sq_idx :: "u32 \<Rightarrow> u32 \<Rightarrow> u32" where
  "sq_idx qid stride = qid * 2 * stride"

definition cq_idx :: "u32 \<Rightarrow> u32 \<Rightarrow> u32" where
  "cq_idx qid stride = (qid * 2 + 1) * stride"

definition db_bar_size :: "nvme_hw \<Rightarrow> u32 \<Rightarrow> u64" where
  "db_bar_size h nr_io_queues = ucast (0x1000 + (nr_io_queues + 1) * 8 * nd_db_stride h)"

definition nvme_remap_bar :: "hw_env \<Rightarrow> u64 \<Rightarrow> nvme_hw \<Rightarrow> int \<times> nvme_hw" where
  "nvme_remap_bar e sz h =
     (if sz \<le> hw_bar_mapped_size h then (0, h)
      else if sz > he_bar0_len e then (- ENOMEM, h)
      else if \<not> he_ioremap e sz then (- ENOMEM, io_log (IoRemap sz) (h\<lparr>hw_bar_mapped_size := 0\<rparr>))
      else (0, io_log (IoRemap sz) (h\<lparr>hw_bar_mapped_size := sz\<rparr>)))"

subsection \<open>Allocating and creating a kernel queue\<close>

definition alloc_coherent :: "hw_env \<Rightarrow> nvme_hw \<Rightarrow> u64 option \<times> nvme_hw" where
  "alloc_coherent e h = (let a = he_dma_alloc e (hw_log h) in (a, io_log (IoAlloc a) h))"

definition nvme_alloc_sq_cmds :: "hw_env \<Rightarrow> nat \<Rightarrow> nvme_hw \<Rightarrow> int \<times> nvme_hw" where
  "nvme_alloc_sq_cmds e qid h =
     (let cmb = (if qid \<noteq> 0 \<and> hw_cmb_use_sqes h \<and> hw_cmb_sqs h then he_p2pmem e (hw_log h) else None)
      in case cmb of
        Some bus \<Rightarrow>
          if bus \<noteq> 0 then (0, upd_q qid (\<lambda>q. q\<lparr>kq_sq_dma_addr := bus, kq_sq_cmb := True\<rparr>) h)
          else (case alloc_coherent e h of
              (None, h1) \<Rightarrow> (- ENOMEM, h1)
            | (Some a, h1) \<Rightarrow> (0, upd_q qid (\<lambda>q. q\<lparr>kq_sq_dma_addr := a\<rparr>) h1))
      | None \<Rightarrow>
          (case alloc_coherent e h of
              (None, h1) \<Rightarrow> (- ENOMEM, h1)
            | (Some a, h1) \<Rightarrow> (0, upd_q qid (\<lambda>q. q\<lparr>kq_sq_dma_addr := a\<rparr>) h1)))"

definition nvme_alloc_queue :: "hw_env \<Rightarrow> nat \<Rightarrow> u32 \<Rightarrow> nvme_hw \<Rightarrow> int \<times> nvme_hw" where
  "nvme_alloc_queue e qid depth h =
     (if unat (hw_queue_count h) > qid then (0, h)
      else
        let h0 = upd_q qid (\<lambda>q. q\<lparr>kq_q_depth := depth\<rparr>) h in
        case alloc_coherent e h0 of
          (None, h1) \<Rightarrow> (- ENOMEM, h1)
        | (Some cq, h1) \<Rightarrow>
            (case nvme_alloc_sq_cmds e qid (upd_q qid (\<lambda>q. q\<lparr>kq_cq_dma_addr := cq\<rparr>) h1) of (rc, h2) \<Rightarrow>
              if rc \<noteq> 0 then (- ENOMEM, io_log (IoFree cq) h2)
              else
                let h3 = upd_q qid (\<lambda>q. q\<lparr>kq_cq_head := 0, kq_cq_phase := 1,
                           kq_q_db := of_nat qid * 2 * nd_db_stride h2, kq_qid := of_nat qid\<rparr>) h2
                in (0, h3\<lparr>hw_queue_count := hw_queue_count h3 + 1\<rparr>)))"

definition queue_request_irq :: "hw_env \<Rightarrow> nat \<Rightarrow> nvme_hw \<Rightarrow> int \<times> nvme_hw" where
  "queue_request_irq e i h =
     (let v = kq_cq_vector (get_q e h i); rc = he_request_irq e (hw_log h) v in (rc, io_log (IoRequestIrq v rc) h))"

definition nvme_init_queue :: "nat \<Rightarrow> nvme_hw \<Rightarrow> nvme_hw" where
  "nvme_init_queue qid h =
     (let h1 = upd_q qid (\<lambda>q. q\<lparr>kq_sq_tail := 0, kq_last_sq_tail := 0, kq_cq_head := 0, kq_cq_phase := 1,
                 kq_q_db := of_nat qid * 2 * nd_db_stride h\<rparr>) h
      in h1\<lparr>nd_online_queues := nd_online_queues h1 + 1\<rparr>)"

definition submit_io_admin :: "hw_env \<Rightarrow> admin_cmd \<Rightarrow> nvme_hw \<Rightarrow> int \<times> nvme_hw" where
  "submit_io_admin e cmd h = (let rc = he_admin e (hw_log h) cmd in (rc, io_log (IoAdmin cmd rc) h))"

definition adapter_alloc_cq :: "hw_env \<Rightarrow> nat \<Rightarrow> u16 \<Rightarrow> nvme_hw \<Rightarrow> int \<times> nvme_hw" where
  "adapter_alloc_cq e qid vector h =
     (let q = get_q e h qid in
      submit_io_admin e (CreateCQ (kq_cq_dma_addr q) (of_nat qid) (ucast (kq_q_depth q - 1))
        (if kq_polled q then 1 else 3) vector) h)"

definition adapter_alloc_sq :: "hw_env \<Rightarrow> nat \<Rightarrow> nvme_hw \<Rightarrow> int \<times> nvme_hw" where
  "adapter_alloc_sq e qid h =
     (let q = get_q e h qid in
      submit_io_admin e (CreateSQ (kq_sq_dma_addr q) (of_nat qid) (ucast (kq_q_depth q - 1))
        (if he_medium_prio e then 5 else 1) (of_nat qid)) h)"

definition nvme_create_queue :: "hw_env \<Rightarrow> nat \<Rightarrow> bool \<Rightarrow> nvme_hw \<Rightarrow> int \<times> nvme_hw" where
  "nvme_create_queue e qid polled h =
     (let h0 = upd_q qid (\<lambda>q. q\<lparr>kq_delete_error := False, kq_polled := (kq_polled q \<or> polled)\<rparr>) h;
          vector = (if polled then 0 else if hw_num_vecs h = 1 then 0 else of_nat qid)
      in case adapter_alloc_cq e qid vector h0 of (rc1, h1) \<Rightarrow>
      if rc1 \<noteq> 0 then (rc1, h1)
      else case adapter_alloc_sq e qid h1 of (rc2, h2) \<Rightarrow>
      if rc2 < 0 then (rc2, h2)
      else if rc2 \<noteq> 0 then (rc2, snd (submit_io_admin e (DeleteCQ (of_nat qid)) h2))
      else case nvme_setup_io_queues_trylock e (upd_q qid (\<lambda>q. q\<lparr>kq_cq_vector := vector\<rparr>) h2) of (rc3, h3) \<Rightarrow>
      if rc3 \<noteq> 0 then (rc3, h3)
      else
        let h4 = nvme_init_queue qid h3 in
        case (if polled then (0, h4) else queue_request_irq e qid h4) of (rc5, h5) \<Rightarrow>
        if rc5 < 0 then
          (rc5, snd (submit_io_admin e (DeleteCQ (of_nat qid))
                  (snd (submit_io_admin e (DeleteSQ (of_nat qid))
                    (unlock (h5\<lparr>nd_online_queues := nd_online_queues h5 - 1\<rparr>))))))
        else (rc5, unlock (upd_q qid (\<lambda>q. q\<lparr>kq_enabled := True\<rparr>) h5)))"

text \<open>The two loops of \<open>nvme_create_io_queues\<close>.\<close>

fun alloc_queues :: "hw_env \<Rightarrow> nat list \<Rightarrow> nvme_hw \<Rightarrow> int \<times> nvme_hw" where
  "alloc_queues e [] h = (0, h)"
| "alloc_queues e (i # is) h =
     (case nvme_alloc_queue e i (nd_q_depth h) h of (rc, h1) \<Rightarrow>
        if rc \<noteq> 0 then (- ENOMEM, h1) else alloc_queues e is h1)"

fun create_queues :: "hw_env \<Rightarrow> u32 \<Rightarrow> nat list \<Rightarrow> int \<Rightarrow> nvme_hw \<Rightarrow> int \<times> nvme_hw" where
  "create_queues e rw_queues [] ret h = (ret, h)"
| "create_queues e rw_queues (i # is) ret h =
     (case nvme_create_queue e i (i > unat rw_queues) h of (rc, h1) \<Rightarrow>
        if rc \<noteq> 0 then (rc, h1) else create_queues e rw_queues is 0 h1)"

definition nvme_create_io_queues :: "hw_env \<Rightarrow> nvme_hw \<Rightarrow> int \<times> nvme_hw" where
  "nvme_create_io_queues e h =
     (case alloc_queues e [unat (hw_queue_count h)..<Suc (unat (nd_max_qid h))] h of (ret, h1) \<Rightarrow>
      let mx = min (nd_max_qid h1) (hw_queue_count h1 - 1);
          rw_queues = (if mx \<noteq> 1 \<and> hw_io_poll h1 \<noteq> 0 then hw_io_default h1 + hw_io_read h1 else mx)
      in case create_queues e rw_queues [unat (nd_online_queues h1)..<Suc (unat mx)] ret h1 of (ret2, h2) \<Rightarrow>
           (if ret2 \<ge> 0 then 0 else ret2, h2))"

subsection \<open>Queues a user registered before the bind\<close>

text \<open>\<open>ring\<close> gives the first bus address of the descriptor found for a queue index and a direction
  (\<open>map_find_by_pci_dev_and_idx\<close>).\<close>

definition user_ring :: "pdev \<Rightarrow> bool \<Rightarrow> kst \<Rightarrow> int \<Rightarrow> int \<Rightarrow> u64 option" where
  "user_ring pd queue_on_host s uqid is_cq =
     map_option (\<lambda>m. map_addrs (get_map s m) ! 0)
       (map_find_by_pci_dev_and_idx (if queue_on_host then HostList else DeviceQueueList) pd uqid is_cq s)"

definition nvme_create_user_queue ::
  "hw_env \<Rightarrow> (int \<Rightarrow> int \<Rightarrow> u64 option) \<Rightarrow> nat \<Rightarrow> nat \<Rightarrow> nvme_hw \<Rightarrow> int \<times> nvme_hw" where
  "nvme_create_user_queue e ring uqid qid h =
     (case ring (int uqid) 1 of None \<Rightarrow> (- 1, h)
      | Some cq \<Rightarrow>
          (case submit_io_admin e (CreateCQ cq (of_nat qid) (ucast (nd_q_depth h - 1)) 1 0) h of (rc1, h1) \<Rightarrow>
           if rc1 \<noteq> 0 then (rc1, h1)
           else case ring (int uqid) 0 of
             None \<Rightarrow> (- 1, snd (submit_io_admin e (DeleteCQ (of_nat qid)) h1))
           | Some sq \<Rightarrow>
               (case submit_io_admin e (CreateSQ sq (of_nat qid) (ucast (nd_q_depth h1 - 1)) 1 (of_nat qid)) h1 of (rc2, h2) \<Rightarrow>
                if rc2 < 0 then (rc2, h2)
                else if rc2 \<noteq> 0 then (rc2, snd (submit_io_admin e (DeleteCQ (of_nat qid)) h2))
                else case nvme_setup_io_queues_trylock e h2 of (rc3, h3) \<Rightarrow>
                if rc3 \<noteq> 0 then (rc3, h3)
                else (0, unlock (h3\<lparr>nd_online_user_queues := nd_online_user_queues h3 + 1\<rparr>)))))"

fun create_user_queues ::
  "hw_env \<Rightarrow> (int \<Rightarrow> int \<Rightarrow> u64 option) \<Rightarrow> nat list \<Rightarrow> nat \<Rightarrow> nvme_hw \<Rightarrow> int \<times> nvme_hw" where
  "create_user_queues e ring [] count h = (0, h)"
| "create_user_queues e ring (i # is) count h =
     (case nvme_create_user_queue e ring count i h of (rc, h1) \<Rightarrow>
        if rc \<noteq> 0 then (rc, h1) else create_user_queues e ring is (Suc count) h1)"

definition nvme_create_io_queues_mix ::
  "hw_env \<Rightarrow> (int \<Rightarrow> int \<Rightarrow> u64 option) \<Rightarrow> nvme_hw \<Rightarrow> int \<times> nvme_hw" where
  "nvme_create_io_queues_mix e ring h =
     (let k_q_max_id = nd_max_qid h + nd_nr_user_use_cq h;
          h1 = h\<lparr>nd_user_start_qid := nd_online_queues h\<rparr>
      in case create_user_queues e ring [unat (nd_online_queues h1)..<Suc (unat k_q_max_id)] 0 h1 of (ret, h2) \<Rightarrow>
           (if ret \<ge> 0 then 0 else ret, h2))"

subsection \<open>Tearing the kernel queues down again\<close>

definition nvme_suspend_queue :: "hw_env \<Rightarrow> nat \<Rightarrow> nvme_hw \<Rightarrow> nvme_hw" where
  "nvme_suspend_queue e i h =
     (if \<not> kq_enabled (get_q e h i) then h
      else
        let h1 = upd_q i (\<lambda>q. q\<lparr>kq_enabled := False\<rparr>) h;
            h2 = h1\<lparr>nd_online_queues := nd_online_queues h1 - 1\<rparr>
        in if kq_polled (get_q e h2 i) then upd_q i (\<lambda>q. q\<lparr>kq_polled := False\<rparr>) h2
           else io_log (IoFreeIrq (kq_cq_vector (get_q e h2 i))) h2)"

definition nvme_suspend_io_queues :: "hw_env \<Rightarrow> nvme_hw \<Rightarrow> nvme_hw" where
  "nvme_suspend_io_queues e h = fold (nvme_suspend_queue e) (rev [1..<unat (hw_queue_count h)]) h"

definition nvme_delete_queue :: "hw_env \<Rightarrow> nat \<Rightarrow> bool \<Rightarrow> nvme_hw \<Rightarrow> int \<times> nvme_hw" where
  "nvme_delete_queue e i is_cq h =
     (let qid = kq_qid (get_q e h i); rc = he_alloc_request e (hw_log h)
      in (rc, io_log (IoDeleteSent (if is_cq then DeleteCQ qid else DeleteSQ qid) rc) h))"

fun send_deletes :: "hw_env \<Rightarrow> bool \<Rightarrow> nat \<Rightarrow> nat \<Rightarrow> nvme_hw \<Rightarrow> nat \<times> nat \<times> nvme_hw" where
  "send_deletes e is_cq 0 sent h = (0, sent, h)"
| "send_deletes e is_cq (Suc k) sent h =
     (case nvme_delete_queue e (Suc k) is_cq h of (rc, h1) \<Rightarrow>
        if rc \<noteq> 0 then (Suc k, sent, h1) else send_deletes e is_cq k (Suc sent) h1)"

lemma send_deletes_measure: "send_deletes e b k sent h = (k', sent', h') \<Longrightarrow> 2 * k' + sent' \<le> 2 * k + sent \<and> k' + sent' = k + sent"
  by (induction e b k sent h rule: send_deletes.induct) (auto split: prod.splits if_splits)

function disable_loop :: "hw_env \<Rightarrow> bool \<Rightarrow> nat \<Rightarrow> nat \<Rightarrow> nvme_hw \<Rightarrow> bool \<times> nvme_hw" where
  "disable_loop e is_cq nr sent h =
     (case send_deletes e is_cq nr sent h of (nr1, sent1, h1) \<Rightarrow>
      if sent1 = 0 then (True, h1)
      else
        let ok = he_delete_done e (hw_log h1); h2 = io_log (IoDeleteWait (nr1 + sent1) ok) h1 in
        if \<not> ok then (False, h2) else disable_loop e is_cq nr1 (sent1 - 1) h2)"
  by pat_completeness auto
termination
  by (relation "measure (\<lambda>(_, _, nr, sent, _). 2 * nr + sent)")
     (auto dest!: sym [THEN send_deletes_measure])

declare disable_loop.simps [simp del]

definition nvme_disable_io_queues :: "hw_env \<Rightarrow> nvme_hw \<Rightarrow> nvme_hw" where
  "nvme_disable_io_queues e h =
     (let nr = (\<lambda>h. nat (sint (nd_online_queues h - 1))) in
      case disable_loop e False (nr h) 0 h of (ok, h1) \<Rightarrow>
        if ok then snd (disable_loop e True (nr h1) 0 h1) else h1)"

subsection \<open>Interrupt vectors\<close>

definition nvme_calc_irq_sets :: "u32 \<Rightarrow> nvme_hw \<Rightarrow> nvme_hw" where
  "nvme_calc_irq_sets nrirqs0 h =
     (let nr_write_queues = nd_nr_write_queues h;
          nrirqs = (if nrirqs0 = 0 then 1 else nrirqs0);
          nr_read_queues =
            (if nrirqs0 = 0 then 0
             else if nrirqs = 1 \<or> nr_write_queues = 0 then 0
             else if nr_write_queues \<ge> nrirqs then 1
             else nrirqs - nr_write_queues)
      in h\<lparr>hw_io_default := nrirqs - nr_read_queues, hw_io_read := nr_read_queues\<rparr>)"

text \<open>\<open>pci_alloc_irq_vectors_affinity\<close> calls \<open>nvme_calc_irq_sets\<close> with the vectors it obtained less the one
  reserved for the admin queue.\<close>

definition nvme_setup_irqs :: "hw_env \<Rightarrow> u32 \<Rightarrow> nvme_hw \<Rightarrow> int \<times> nvme_hw" where
  "nvme_setup_irqs e nr_io_queues h =
     (let poll_queues = min (nd_nr_poll_queues h) (nr_io_queues - 1);
          h1 = h\<lparr>hw_io_poll := poll_queues, hw_io_default := 1, hw_io_read := 0\<rparr>;
          irq_queues = (if he_single_vector e then 1 else 1 + (nr_io_queues - poll_queues));
          rc = he_alloc_vectors e (hw_log h1) irq_queues;
          h2 = io_log (IoVectors irq_queues rc) h1
      in if rc > 0 then (rc, nvme_calc_irq_sets (of_int (rc - 1)) h2) else (rc, h2))"

definition nvme_max_io_queues :: "bool \<Rightarrow> u32 \<Rightarrow> nvme_dev \<Rightarrow> u32" where
  "nvme_max_io_queues shared_tags possible_cpus nd =
     (if shared_tags then 1 else possible_cpus + nd_nr_write_queues nd + nd_nr_poll_queues nd)"

subsection \<open>Set-up\<close>

definition snvme_set_queue_count :: "hw_env \<Rightarrow> u32 \<Rightarrow> nvme_hw \<Rightarrow> int \<times> u32 \<times> nvme_hw" where
  "snvme_set_queue_count e count h =
     (let q_count = (count - 1) OR push_bit 16 (count - 1) in
      case he_set_features e q_count of (status, result) \<Rightarrow>
      let h1 = io_log (IoFeatures q_count) h in
      if status < 0 then (status, count, h1)
      else if status > 0 then (0, 0, h1)
      else (0, (let granted = min (result AND 0xffff) (drop_bit 16 result) + 1
                in if sint count < sint granted then count else granted), h1))"

definition nvme_cmb_qdepth :: "u32 \<Rightarrow> u64 \<Rightarrow> u32 \<Rightarrow> int" where
  "nvme_cmb_qdepth depth cmb_size nr_io_queues =
     (let q_size_aligned = (depth * 64 + 4095) div 4096 * 4096 in
      if ucast (q_size_aligned * nr_io_queues) > cmb_size then
        let mem_per_q = cmb_size div ucast nr_io_queues div 4096 * 4096;
            q_depth = sint (ucast (mem_per_q div 64) :: u32)
        in if q_depth < 64 then - ENOMEM else q_depth
      else sint depth)"

text \<open>Sampling the parameters, the negotiation, and the split of the grant when the user registered
  queues.\<close>

definition negotiate :: "hw_env \<Rightarrow> nvme_hw \<Rightarrow> int \<times> u32 \<times> nvme_hw" where
  "negotiate e h =
     (let h0 = (if nd_cap_kernel_ioq h = 0
                then h\<lparr>nd_nr_write_queues := he_write_queues e, nd_nr_poll_queues := he_poll_queues e\<rparr> else h);
          nr0 = nd_nr_allocated_queues h0 - 1;
          expect_num = nd_nr_user_allocated_cq h0 + nr0;
          nr1 = (if nd_use_user_allocated h0 then nr0 + nd_nr_user_allocated_cq h0 else nr0)
      in case snvme_set_queue_count e nr1 h0 of (result, nr2, h1) \<Rightarrow>
         let h2 = (if result = 0 then h1\<lparr>nd_ctrl_max_io_queues := nr2\<rparr> else h1) in
         if \<not> nd_use_user_allocated h2 then (result, nr2, h2)
         else if nr2 < nd_nr_allocated_queues h2 - 1 then (result, nr2, h2\<lparr>nd_use_user_allocated := False\<rparr>)
         else if nr2 \<le> expect_num then
           if nd_nr_user_allocated_cq h2 > nr2 - 1 then (result, nr2, h2\<lparr>nd_use_user_allocated := False\<rparr>)
           else
             let na = nr2 - nd_nr_user_allocated_cq h2 in
             (result, na - 1, h2\<lparr>nd_nr_allocated_queues := na, nd_nr_user_use_cq := nd_nr_user_allocated_cq h2,
                nd_nr_user_use_sq := nd_nr_user_allocated_sq h2\<rparr>)
         else (result, nr2, h2))"

definition cap_kernel_share :: "u32 \<Rightarrow> nvme_hw \<Rightarrow> u32" where
  "cap_kernel_share nr h =
     (if nd_cap_kernel_ioq h \<noteq> 0 \<and> \<not> nd_use_user_allocated h \<and> nr > nd_cap_kernel_ioq h
      then nd_cap_kernel_ioq h else nr)"

definition admin_irq_off :: "hw_env \<Rightarrow> nvme_hw \<Rightarrow> nvme_hw" where
  "admin_irq_off e h =
     (if kq_enabled (get_q e h 0) then io_log (IoFreeIrq 0) (upd_q 0 (\<lambda>q. q\<lparr>kq_enabled := False\<rparr>) h) else h)"

definition cmb_depth :: "u32 \<Rightarrow> nvme_hw \<Rightarrow> nvme_hw" where
  "cmb_depth nr h =
     (if \<not> hw_cmb_use_sqes h then h
      else let d = nvme_cmb_qdepth (nd_q_depth h) (hw_cmb_size h) nr in
        if d > 0 then h\<lparr>nd_q_depth := of_int d\<rparr> else h\<lparr>hw_cmb_use_sqes := False\<rparr>)"

text \<open>The loop that gives up one queue at a time until the doorbells fit the BAR; it runs with at least one
  queue.\<close>

fun remap_loop :: "hw_env \<Rightarrow> nat \<Rightarrow> nvme_hw \<Rightarrow> int \<times> nat \<times> nvme_hw" where
  "remap_loop e 0 h = (- ENOMEM, 0, h)"
| "remap_loop e (Suc k) h =
     (case nvme_remap_bar e (db_bar_size h (of_nat (Suc k))) h of (rc, h1) \<Rightarrow>
        if rc = 0 then (0, Suc k, h1) else if k = 0 then (- ENOMEM, 0, h1) else remap_loop e k h1)"

text \<open>The part from the label \<open>retry\<close> on; it is entered holding the lock. It may go round again, so whether it
  returns is to be proved.\<close>

partial_function (option) setup_loop ::
  "hw_env \<Rightarrow> (int \<Rightarrow> int \<Rightarrow> u64 option) \<Rightarrow> u32 \<Rightarrow> nvme_hw \<Rightarrow> (int \<times> nvme_hw) option" where
  "setup_loop e ring nr h =
     (case nvme_setup_irqs e nr (io_log IoFreeVectors (admin_irq_off e h)) of (rc1, h1) \<Rightarrow>
      if rc1 \<le> 0 then Some (- EIO, unlock h1)
      else
        let h2 = h1\<lparr>hw_num_vecs := of_int rc1, nd_max_qid := of_int (max (rc1 - 1) 1) + hw_io_poll h1\<rparr> in
        case queue_request_irq e 0 h2 of (rc3, h3) \<Rightarrow>
        if rc3 \<noteq> 0 then Some (rc3, unlock h3)
        else
          case nvme_create_io_queues e (unlock (upd_q 0 (\<lambda>q. q\<lparr>kq_enabled := True\<rparr>) h3)) of (rc4, h4) \<Rightarrow>
          case (if nd_use_user_allocated h4 then nvme_create_io_queues_mix e ring h4 else (rc4, h4)) of (rc5, h5) \<Rightarrow>
          if rc5 \<noteq> 0 \<or> nd_online_queues h5 < 2 then Some (rc5, h5)
          else if nd_online_queues h5 - 1 < nd_max_qid h5 then
            (case nvme_setup_io_queues_trylock e (nvme_disable_io_queues e h5) of (rc6, h6) \<Rightarrow>
             if rc6 \<noteq> 0 then Some (rc6, h6)
             else setup_loop e ring (nd_online_queues h5 - 1) (nvme_suspend_io_queues e h6))
          else Some (0, h5))"

definition s_nvme_setup_io_queues ::
  "hw_env \<Rightarrow> (int \<Rightarrow> int \<Rightarrow> u64 option) \<Rightarrow> nvme_hw \<Rightarrow> (int \<times> nvme_hw) option" where
  "s_nvme_setup_io_queues e ring h =
     (case negotiate e h of (result, nr, h1) \<Rightarrow>
      if result < 0 then Some (result, h1)
      else if nr = 0 then Some (0, h1)
      else
        let nr1 = cap_kernel_share nr h1 in
        case nvme_setup_io_queues_trylock e h1 of (rc2, h2) \<Rightarrow>
        if rc2 \<noteq> 0 then Some (rc2, h2)
        else
          case remap_loop e (unat nr1) (cmb_depth nr1 (admin_irq_off e h2)) of (rc3, nr3, h3) \<Rightarrow>
          if rc3 \<noteq> 0 then Some (rc3, unlock h3)
          else setup_loop e ring (of_nat nr3) (upd_q 0 (\<lambda>q. q\<lparr>kq_q_db := 0\<rparr>) h3))"

end
