(* ===== verification/Qid_Pool.thy ===== *)
theory Qid_Pool
  imports Snvme_Types
begin

text \<open>
  The user-QID pool of \<open>pci.c\<close>: \<open>snvm_user_qid_pool_init_locked\<close>,
  \<open>snvm_user_qid_alloc_locked\<close> and \<open>snvm_user_qid_free_locked\<close>. The bitmap is a list of
  booleans with one entry per QID of the range. The contract of the pool is the locale
  \<open>id_allocator\<close>: a set of ids in use, an all-or-nothing allocation of several fresh ids and
  a release. The lemmas its clients need are proved once in the locale; the interpretation
  at the end discharges the contract for the driver's bitmap code.
\<close>

subsection \<open>Operations\<close>

text \<open>\<open>find_first_zero_bit\<close> looks at the first \<open>n\<close> bits and returns \<open>n\<close> when they are all
  set.\<close>

definition find_first_zero_bit :: "bool list \<Rightarrow> nat \<Rightarrow> nat" where
  "find_first_zero_bit bm n = length (takeWhile (\<lambda>b. b) (take n bm))"

definition snvm_user_qid_pool_init_locked ::
  "kenv \<Rightarrow> qid_pool \<Rightarrow> nvme_dev option \<Rightarrow> int \<times> qid_pool" where
  "snvm_user_qid_pool_init_locked e p ndev =
     (if user_qid_bitmap p \<noteq> None then (0, p)
      else case ndev of None \<Rightarrow> (- ENODEV, p)
      | Some nd \<Rightarrow>
          if nd_online_queues nd = 0 \<or> nd_nr_allocated_queues nd = 0 then (- ENODEV, p)
          else if nd_ctrl_max_io_queues nd = 0 then (- ENODEV, p)
          else
            let first = nd_online_queues nd; last = nd_ctrl_max_io_queues nd in
            if first > last then (- EBUSY, p)
            else
              let count = last - first + 1 in
              if \<not> kmalloc_ok e A_bitmap then (- ENOMEM, p)
              else (0, p\<lparr>user_qid_first := first, user_qid_last := last,
                         user_qid_bitmap := Some (replicate (unat count) False)\<rparr>))"

definition pool_size :: "qid_pool \<Rightarrow> nat" where
  "pool_size p = unat (user_qid_last p - user_qid_first p + 1)"

text \<open>The index of a QID in the bitmap: a 16-bit QID promoted to \<open>unsigned int\<close>, minus the
  first QID of the pool.\<close>

definition qid_bit :: "qid_pool \<Rightarrow> u16 \<Rightarrow> nat" where
  "qid_bit p qid = unat (ucast qid - user_qid_first p)"

text \<open>The rollback loop clears the bits handed out so far, last one first.\<close>

fun qid_alloc_rollback :: "qid_pool \<Rightarrow> u16 list \<Rightarrow> bool list \<Rightarrow> bool list" where
  "qid_alloc_rollback p [] bm = bm"
| "qid_alloc_rollback p (q # qs) bm = qid_alloc_rollback p qs (bm[qid_bit p q := False])"

text \<open>The loop over \<open>i < nr\<close>, with the QIDs written so far in \<open>out\<close>.\<close>

fun qid_alloc_loop ::
  "qid_pool \<Rightarrow> nat \<Rightarrow> bool list \<Rightarrow> u16 list \<Rightarrow> int \<times> bool list \<times> u16 list" where
  "qid_alloc_loop p 0 bm out = (0, bm, out)"
| "qid_alloc_loop p (Suc nr) bm out =
     (let bit = find_first_zero_bit bm (pool_size p) in
      if bit \<ge> pool_size p then (- EAGAIN, qid_alloc_rollback p (rev out) bm, out)
      else qid_alloc_loop p nr (bm[bit := True])
             (out @ [ucast (user_qid_first p + of_nat bit)]))"

text \<open>Both operations dereference the bitmap, which their callers have initialised before;
  on a null bitmap the result is unspecified, as it is in C.\<close>

definition snvm_user_qid_alloc_locked ::
  "qid_pool \<Rightarrow> nat \<Rightarrow> int \<times> qid_pool \<times> u16 list" where
  "snvm_user_qid_alloc_locked p nr =
     (case qid_alloc_loop p nr (the (user_qid_bitmap p)) [] of
        (rc, bm, out) \<Rightarrow> (rc, p\<lparr>user_qid_bitmap := Some bm\<rparr>, out))"

definition snvm_user_qid_free_locked :: "qid_pool \<Rightarrow> u16 \<Rightarrow> qid_pool" where
  "snvm_user_qid_free_locked p qid =
     (if ucast qid < user_qid_first p \<or> ucast qid > user_qid_last p then p
      else p\<lparr>user_qid_bitmap := Some ((the (user_qid_bitmap p))[qid_bit p qid := False])\<rparr>)"

subsection \<open>A bitmap as the set of its bits\<close>

definition bits :: "bool list \<Rightarrow> nat set" where
  "bits bm = {i. i < length bm \<and> bm ! i}"

lemma bits_simps [simp]:
  "i < length bm \<Longrightarrow> bits (bm[i := True]) = insert i (bits bm)"
  "bits (bm[i := False]) = bits bm - {i}"
  "bits (replicate n False) = {}"
  by (auto simp: bits_def nth_list_update split: if_splits)
    (metis nth_list_update_eq nth_list_update_neq)

lemma bits_le: "i \<in> bits bm \<Longrightarrow> i < length bm"
  by (simp add: bits_def)

lemma finite_bits [simp]: "finite (bits bm)"
  by (simp add: bits_def)

lemma bits_inj:
  assumes "length a = length b" "bits a = bits b" shows "a = b"
proof (rule nth_equalityI)
  fix i assume "i < length a"
  moreover have "i \<in> bits a \<longleftrightarrow> i \<in> bits b" using assms by simp
  ultimately show "a ! i = b ! i" using assms(1) by (auto simp: bits_def)
qed (fact assms)

lemma takeWhile_stop: "length (takeWhile P xs) < length xs \<Longrightarrow> \<not> P (xs ! length (takeWhile P xs))"
  by (induction xs) auto

lemma takeWhile_all: "length (takeWhile P xs) \<ge> length xs \<Longrightarrow> x \<in> set xs \<Longrightarrow> P x"
  by (induction xs) (auto split: if_splits)

lemma find_first_zero_bit_found:
  "find_first_zero_bit bm (length bm) < length bm \<Longrightarrow> find_first_zero_bit bm (length bm) \<notin> bits bm"
  using takeWhile_stop [of "\<lambda>b. b" bm] by (simp add: find_first_zero_bit_def bits_def)

lemma find_first_zero_bit_none:
  "find_first_zero_bit bm (length bm) \<ge> length bm \<Longrightarrow> bits bm = {..<length bm}"
  using takeWhile_all [where P = "\<lambda>b. b" and xs = bm] by (force simp: find_first_zero_bit_def bits_def)

lemma rollback_bits:
  "length (qid_alloc_rollback p qs bm) = length bm"
  "bits (qid_alloc_rollback p qs bm) = bits bm - qid_bit p ` set qs"
  by (induction qs arbitrary: bm) auto

subsection \<open>QIDs and bits\<close>

definition range_ok :: "qid_pool \<Rightarrow> bool" where
  "range_ok p \<longleftrightarrow> user_qid_first p \<le> user_qid_last p \<and> user_qid_last p \<le> 0xffff"

definition qid_of :: "qid_pool \<Rightarrow> nat \<Rightarrow> u16" where
  "qid_of p b = ucast (user_qid_first p + of_nat b)"

definition in_range :: "qid_pool \<Rightarrow> u16 \<Rightarrow> bool" where
  "in_range p q \<longleftrightarrow> user_qid_first p \<le> ucast q \<and> ucast q \<le> user_qid_last p"

lemma unat_ucast_u16 [simp]: "unat (ucast (q :: u16) :: u32) = unat q"
proof -
  have "unat q < 2 ^ 16" using unsigned_less [of q, where ?'a = nat] by simp
  then show ?thesis by (simp add: unsigned_ucast_eq take_bit_nat_eq_self)
qed

lemma range_ok_unat:
  assumes "range_ok p"
  shows "unat (user_qid_first p) \<le> unat (user_qid_last p)" "unat (user_qid_last p) < 65536"
    "pool_size p = unat (user_qid_last p) - unat (user_qid_first p) + 1"
proof -
  show 1: "unat (user_qid_first p) \<le> unat (user_qid_last p)" "unat (user_qid_last p) < 65536"
    using assms by (auto simp: range_ok_def word_le_nat_alt)
  have "unat (user_qid_last p - user_qid_first p) = unat (user_qid_last p) - unat (user_qid_first p)"
    using assms by (simp add: range_ok_def unat_sub)
  then show "pool_size p = unat (user_qid_last p) - unat (user_qid_first p) + 1"
    using 1 by (simp add: pool_size_def unat_word_ariths)
qed

lemma unat_qid_of:
  assumes "range_ok p" "b < pool_size p"
  shows "unat (qid_of p b) = unat (user_qid_first p) + b"
proof -
  note r = range_ok_unat [OF assms(1)]
  have "unat (user_qid_first p) + b < 65536" using r assms(2) by linarith
  then show ?thesis by (simp add: qid_of_def unsigned_ucast_eq take_bit_eq_mod unat_word_ariths unat_of_nat)
qed

lemma in_range_unat:
  "range_ok p \<Longrightarrow> in_range p q \<longleftrightarrow> unat (user_qid_first p) \<le> unat q \<and> unat q \<le> unat (user_qid_last p)"
  by (simp add: in_range_def word_le_nat_alt)

lemma qid_bit_unat: "in_range p q \<Longrightarrow> qid_bit p q = unat q - unat (user_qid_first p)"
  by (simp add: in_range_def qid_bit_def unat_sub)

lemma qid_of_range:
  assumes "range_ok p" "b < pool_size p"
  shows "in_range p (qid_of p b)" "qid_bit p (qid_of p b) = b"
proof -
  note r = range_ok_unat [OF assms(1)]
  show "in_range p (qid_of p b)"
    using r assms(2) by (simp add: in_range_unat [OF assms(1)] unat_qid_of [OF assms])
  then show "qid_bit p (qid_of p b) = b"
    by (simp add: qid_bit_unat unat_qid_of [OF assms])
qed

lemma qid_bit_range:
  assumes "range_ok p" "in_range p q"
  shows "qid_bit p q < pool_size p" "qid_of p (qid_bit p q) = q"
proof -
  note r = range_ok_unat [OF assms(1)]
  show 1: "qid_bit p q < pool_size p"
    using assms r by (simp add: qid_bit_unat in_range_unat [OF assms(1)]) linarith
  have "unat (qid_of p (qid_bit p q)) = unat q"
    using assms(2) by (simp add: unat_qid_of [OF assms(1) 1]) (simp add: qid_bit_unat in_range_unat [OF assms(1)])
  then show "qid_of p (qid_bit p q) = q" by (simp add: word_unat_eq_iff)
qed

lemma qid_bit_inj:
  "range_ok p \<Longrightarrow> in_range p q \<Longrightarrow> in_range p q' \<Longrightarrow> qid_bit p q = qid_bit p q' \<longleftrightarrow> q = q'"
  by (metis qid_bit_range(2))

subsection \<open>Well-formed pools and the QIDs in use\<close>

definition pool_wf :: "qid_pool \<Rightarrow> bool" where
  "pool_wf p \<longleftrightarrow> (case user_qid_bitmap p of None \<Rightarrow> False
                 | Some bm \<Rightarrow> range_ok p \<and> length bm = pool_size p)"

definition pool_range :: "qid_pool \<Rightarrow> u16 set" where
  "pool_range p = {q. in_range p q}"

definition pool_used :: "qid_pool \<Rightarrow> u16 set" where
  "pool_used p = {q. in_range p q \<and> (\<exists>bm. user_qid_bitmap p = Some bm \<and> qid_bit p q \<in> bits bm)}"

definition pool_taken :: "qid_pool \<Rightarrow> u16 \<Rightarrow> bool" where
  "pool_taken p q \<longleftrightarrow> in_range p q \<and> the (user_qid_bitmap p) ! qid_bit p q"

lemma pool_same_shape [simp]:
  "range_ok (p\<lparr>user_qid_bitmap := b\<rparr>) = range_ok p" "in_range (p\<lparr>user_qid_bitmap := b\<rparr>) = in_range p"
  "pool_size (p\<lparr>user_qid_bitmap := b\<rparr>) = pool_size p" "qid_bit (p\<lparr>user_qid_bitmap := b\<rparr>) = qid_bit p"
  "pool_range (p\<lparr>user_qid_bitmap := b\<rparr>) = pool_range p"
  by (auto simp: range_ok_def in_range_def pool_size_def qid_bit_def pool_range_def fun_eq_iff)

lemma pool_eqI:
  assumes "pool_wf p" "pool_wf (p\<lparr>user_qid_bitmap := b\<rparr>)"
    "pool_used (p\<lparr>user_qid_bitmap := b\<rparr>) = pool_used p"
  shows "p\<lparr>user_qid_bitmap := b\<rparr> = p"
proof -
  obtain bm bm' where b: "user_qid_bitmap p = Some bm" "b = Some bm'"
    and l: "range_ok p" "length bm = pool_size p" "length bm' = pool_size p"
    using assms(1,2) by (auto simp: pool_wf_def split: option.splits)
  have "i \<in> bits bm' \<longleftrightarrow> i \<in> bits bm" for i
  proof (cases "i < pool_size p")
    case True
    then have "qid_of p i \<in> pool_used (p\<lparr>user_qid_bitmap := b\<rparr>) \<longleftrightarrow> i \<in> bits bm'"
      "qid_of p i \<in> pool_used p \<longleftrightarrow> i \<in> bits bm"
      using l qid_of_range [of p i] by (simp_all add: pool_used_def b)
    then show ?thesis using assms(3) by simp
  next
    case False then show ?thesis using l by (auto simp: bits_def)
  qed
  then have "bm' = bm" using l by (intro bits_inj) auto
  then show ?thesis using b by simp
qed

subsection \<open>The allocation loop\<close>

lemma qid_alloc_loop_spec:
  assumes "qid_alloc_loop p nr bm out = (rc, bm', out')" "range_ok p" "length bm = pool_size p"
    "\<forall>q \<in> set out. in_range p q"
  shows "length bm' = pool_size p \<and>
    (rc = 0 \<and> (\<exists>qs. out' = out @ qs \<and> length qs = nr \<and> distinct qs \<and>
         (\<forall>q \<in> set qs. in_range p q \<and> qid_bit p q \<notin> bits bm) \<and>
         bits bm' = bits bm \<union> qid_bit p ` set qs)
     \<or> rc = - EAGAIN \<and> (\<exists>qs. length qs < nr \<and> distinct qs \<and>
         (\<forall>q \<in> set qs. in_range p q \<and> qid_bit p q \<notin> bits bm) \<and>
         bits bm \<union> qid_bit p ` set qs = {..<pool_size p} \<and>
         bits bm' = bits bm - qid_bit p ` set out))"
  using assms
proof (induction p nr bm out rule: qid_alloc_loop.induct)
  case (1 p bm out)
  then show ?case by auto
next
  case (2 p nr bm out)
  let ?b = "find_first_zero_bit bm (pool_size p)"
  let ?q = "qid_of p ?b"
  show ?case
  proof (cases "?b \<ge> pool_size p")
    case True
    then show ?thesis using 2(2-) find_first_zero_bit_none [of bm]
      by (auto simp: rollback_bits Let_def intro!: exI [of _ "[]"])
  next
    case False
    then have b: "?b < pool_size p" by simp
    note q = qid_of_range [OF 2(3) b]
    have nb: "?b \<notin> bits bm" using b 2(4) find_first_zero_bit_found [of bm] by simp
    have rec: "qid_alloc_loop p nr (bm[?b := True]) (out @ [?q]) = (rc, bm', out')"
      using 2(2) False by (simp add: Let_def qid_of_def)
    have bb: "bits (bm[?b := True]) = insert ?b (bits bm)" using b 2(4) by simp
    have bo: "\<forall>q \<in> set (out @ [?q]). in_range p q" using q 2(5) by auto
    have ih: "length bm' = pool_size p \<and>
      (rc = 0 \<and> (\<exists>qs. out' = (out @ [?q]) @ qs \<and> length qs = nr \<and> distinct qs \<and>
         (\<forall>q \<in> set qs. in_range p q \<and> qid_bit p q \<notin> insert ?b (bits bm)) \<and>
         bits bm' = insert ?b (bits bm) \<union> qid_bit p ` set qs)
       \<or> rc = - EAGAIN \<and> (\<exists>qs. length qs < nr \<and> distinct qs \<and>
         (\<forall>q \<in> set qs. in_range p q \<and> qid_bit p q \<notin> insert ?b (bits bm)) \<and>
         insert ?b (bits bm) \<union> qid_bit p ` set qs = {..<pool_size p} \<and>
         bits bm' = insert ?b (bits bm) - qid_bit p ` set (out @ [?q])))"
      using 2(1) [OF refl _ _ 2(3)] False rec bo 2(4) unfolding bb qid_of_def by simp
    have fresh: "?q \<notin> set qs" if "\<forall>q \<in> set qs. qid_bit p q \<notin> insert ?b (bits bm)" for qs
      using that q(2) by auto
    from ih show ?thesis
    proof (elim conjE disjE exE)
      fix qs assume *: "length bm' = pool_size p" "rc = 0" "out' = (out @ [?q]) @ qs" "length qs = nr" "distinct qs"
        "\<forall>q \<in> set qs. in_range p q \<and> qid_bit p q \<notin> insert ?b (bits bm)"
        "bits bm' = insert ?b (bits bm) \<union> qid_bit p ` set qs"
      then show ?thesis using q nb fresh [of qs]
        by (intro conjI disjI1 exI [of _ "?q # qs"]) auto
    next
      fix qs assume *: "length bm' = pool_size p" "rc = - EAGAIN" "length qs < nr" "distinct qs"
        "\<forall>q \<in> set qs. in_range p q \<and> qid_bit p q \<notin> insert ?b (bits bm)"
        "insert ?b (bits bm) \<union> qid_bit p ` set qs = {..<pool_size p}"
        "bits bm' = insert ?b (bits bm) - qid_bit p ` set (out @ [?q])"
      then show ?thesis using q nb fresh [of qs]
        by (intro conjI disjI2 exI [of _ "?q # qs"]) auto
    qed
  qed
qed

subsection \<open>The contract of the pool\<close>

locale id_allocator =
  fixes wf :: "'p \<Rightarrow> bool"
    and used :: "'p \<Rightarrow> 'q set"
    and range_of :: "'p \<Rightarrow> 'q set"
    and alloc :: "'p \<Rightarrow> nat \<Rightarrow> int \<times> 'p \<times> 'q list"
    and free :: "'p \<Rightarrow> 'q \<Rightarrow> 'p"
  assumes finite_range: "wf p \<Longrightarrow> finite (range_of p)"
    and used_range: "used p \<subseteq> range_of p"
    and alloc_ok: "wf p \<Longrightarrow> alloc p n = (0, p', qs) \<Longrightarrow>
      wf p' \<and> range_of p' = range_of p \<and> used p' = used p \<union> set qs \<and>
      length qs = n \<and> distinct qs \<and> set qs \<subseteq> range_of p - used p"
    and alloc_fail: "wf p \<Longrightarrow> alloc p n = (rc, p', qs) \<Longrightarrow> rc \<noteq> 0 \<Longrightarrow>
      rc = - EAGAIN \<and> p' = p \<and> card (range_of p - used p) < n"
    and free_ok: "wf p \<Longrightarrow> wf (free p q) \<and> range_of (free p q) = range_of p \<and> used (free p q) = used p - {q}"
    and used_inj: "wf p \<Longrightarrow> wf p' \<Longrightarrow> range_of p' = range_of p \<Longrightarrow> used p' = used p \<Longrightarrow> p' = p"
begin

lemma alloc_cases:
  assumes "wf p" "alloc p n = (rc, p', qs)"
  obtains "rc = 0" "wf p'" "range_of p' = range_of p" "used p' = used p \<union> set qs" "length qs = n"
      "distinct qs" "set qs \<subseteq> range_of p - used p"
  | "rc = - EAGAIN" "p' = p" "card (range_of p - used p) < n"
  using assms alloc_ok [of p n p' qs] alloc_fail [of p n rc p' qs] by (cases "rc = 0") auto

lemma alloc_succeeds_iff:
  assumes "wf p" shows "fst (alloc p n) = 0 \<longleftrightarrow> n \<le> card (range_of p - used p)"
proof -
  obtain rc p' qs where a: "alloc p n = (rc, p', qs)" by (metis prod_cases3)
  from assms a show ?thesis
  proof (cases rule: alloc_cases)
    case 1
    have "card (set qs) \<le> card (range_of p - used p)"
      using 1 finite_range [OF assms] by (intro card_mono) auto
    then show ?thesis using 1 a by (simp add: distinct_card)
  next
    case 2 then show ?thesis using a by simp
  qed
qed

lemma free_all:
  "wf p \<Longrightarrow> wf (fold (\<lambda>q p. free p q) qs p) \<and> range_of (fold (\<lambda>q p. free p q) qs p) = range_of p \<and>
     used (fold (\<lambda>q p. free p q) qs p) = used p - set qs"
  by (induction qs arbitrary: p) (auto simp: free_ok)

lemma free_after_alloc:
  assumes "wf p" "alloc p n = (0, p', qs)"
  shows "fold (\<lambda>q p. free p q) qs p' = p"
proof -
  note a = alloc_ok [OF assms]
  then have f: "wf (fold (\<lambda>q p. free p q) qs p') \<and> range_of (fold (\<lambda>q p. free p q) qs p') = range_of p \<and>
    used (fold (\<lambda>q p. free p q) qs p') = used p' - set qs" using free_all [of p' qs] by simp
  moreover have "used p' - set qs = used p" using a by auto
  ultimately show ?thesis using used_inj assms(1) by metis
qed

end

subsection \<open>The driver's bitmap meets the contract\<close>

lemma pool_wf_range: "pool_wf p \<Longrightarrow> range_ok p"
  by (auto simp: pool_wf_def split: option.splits)

lemma pool_wf_cases:
  assumes "pool_wf p" obtains bm where "user_qid_bitmap p = Some bm" "range_ok p" "length bm = pool_size p"
  using assms by (auto simp: pool_wf_def split: option.splits)

lemma pool_alloc_ok:
  assumes "pool_wf p" "snvm_user_qid_alloc_locked p n = (0, p', qs)"
  shows "pool_wf p' \<and> pool_range p' = pool_range p \<and> pool_used p' = pool_used p \<union> set qs \<and>
    length qs = n \<and> distinct qs \<and> set qs \<subseteq> pool_range p - pool_used p"
proof -
  from assms(1) obtain bm where bm: "user_qid_bitmap p = Some bm" "range_ok p" "length bm = pool_size p"
    by (rule pool_wf_cases)
  obtain bm' where l: "qid_alloc_loop p n bm [] = (0, bm', qs)" and p': "p' = p\<lparr>user_qid_bitmap := Some bm'\<rparr>"
    using assms(2) bm(1) by (auto simp: snvm_user_qid_alloc_locked_def split: prod.splits)
  from qid_alloc_loop_spec [OF l bm(2,3)]
  have s: "length bm' = pool_size p" "length qs = n" "distinct qs"
    "\<forall>q \<in> set qs. in_range p q \<and> qid_bit p q \<notin> bits bm" "bits bm' = bits bm \<union> qid_bit p ` set qs"
    by auto
  have "pool_used p' = pool_used p \<union> set qs"
    using s(4) qid_bit_inj [OF bm(2)] by (auto simp: pool_used_def p' bm(1) s(5))
  then show ?thesis using s bm by (auto simp: p' pool_wf_def pool_used_def pool_range_def)
qed

lemma pool_alloc_fail:
  assumes "pool_wf p" "snvm_user_qid_alloc_locked p n = (rc, p', qs)" "rc \<noteq> 0"
  shows "rc = - EAGAIN \<and> p' = p \<and> card (pool_range p - pool_used p) < n"
proof -
  from assms(1) obtain bm where bm: "user_qid_bitmap p = Some bm" "range_ok p" "length bm = pool_size p"
    by (rule pool_wf_cases)
  obtain bm' where l: "qid_alloc_loop p n bm [] = (rc, bm', qs)" and p': "p' = p\<lparr>user_qid_bitmap := Some bm'\<rparr>"
    using assms(2) bm(1) by (auto simp: snvm_user_qid_alloc_locked_def split: prod.splits)
  from qid_alloc_loop_spec [OF l bm(2,3)] assms(3)
  obtain fs where s: "length bm' = pool_size p" "rc = - EAGAIN" "length fs < n" "distinct fs" "\<forall>q \<in> set fs. in_range p q"
    "bits bm \<union> qid_bit p ` set fs = {..<pool_size p}" "bits bm' = bits bm"
    by auto
  have "q \<in> set fs" if "q \<in> pool_range p - pool_used p" for q
  proof -
    have q: "in_range p q" "qid_bit p q \<notin> bits bm" using that bm(1) by (auto simp: pool_range_def pool_used_def)
    then have "qid_bit p q \<in> qid_bit p ` set fs" using s(6) qid_bit_range(1) [OF bm(2) q(1)] by blast
    then obtain q' where q': "q' \<in> set fs" "qid_bit p q = qid_bit p q'" by blast
    with q show ?thesis using s(5) qid_bit_inj [OF bm(2)] by metis
  qed
  then have "card (pool_range p - pool_used p) \<le> card (set fs)" by (intro card_mono) auto
  moreover have "bm' = bm" using s bm by (intro bits_inj) auto
  ultimately show ?thesis using s bm(1) by (simp add: p' distinct_card)
qed

lemma pool_free_ok:
  assumes "pool_wf p"
  shows "pool_wf (snvm_user_qid_free_locked p q) \<and> pool_range (snvm_user_qid_free_locked p q) = pool_range p \<and>
    pool_used (snvm_user_qid_free_locked p q) = pool_used p - {q}"
proof -
  from assms obtain bm where bm: "user_qid_bitmap p = Some bm" "range_ok p" "length bm = pool_size p"
    by (rule pool_wf_cases)
  show ?thesis
  proof (cases "in_range p q")
    case True
    then have *: "snvm_user_qid_free_locked p q = p\<lparr>user_qid_bitmap := Some (bm[qid_bit p q := False])\<rparr>"
      by (auto simp: snvm_user_qid_free_locked_def in_range_def bm(1))
    show ?thesis unfolding *
      using bm True qid_bit_inj [OF bm(2)] by (auto simp: pool_wf_def pool_used_def)
  next
    case False
    then have *: "snvm_user_qid_free_locked p q = p"
      by (auto simp: snvm_user_qid_free_locked_def in_range_def not_le)
    show ?thesis using False assms by (auto simp: * pool_used_def)
  qed
qed

lemma pool_range_bounds:
  assumes "range_ok p" "range_ok p'" "pool_range p' \<subseteq> pool_range p"
  shows "user_qid_first p \<le> user_qid_first p'" "user_qid_last p' \<le> user_qid_last p"
proof -
  note r = range_ok_unat [OF assms(2)]
  have sz: "0 < pool_size p'" "unat (user_qid_last p') - unat (user_qid_first p') < pool_size p'" using r by auto
  have "in_range p (qid_of p' 0)" "in_range p (qid_of p' (unat (user_qid_last p') - unat (user_qid_first p')))"
    using assms(3) qid_of_range(1) [OF assms(2) sz(1)] qid_of_range(1) [OF assms(2) sz(2)]
    by (auto simp: pool_range_def)
  then show "user_qid_first p \<le> user_qid_first p'" "user_qid_last p' \<le> user_qid_last p"
    using r(1) by (auto simp: in_range_unat [OF assms(1)] unat_qid_of [OF assms(2) sz(1)]
        unat_qid_of [OF assms(2) sz(2)] word_le_nat_alt)
qed

lemma pool_used_inj:
  assumes "pool_wf p" "pool_wf p'" "pool_range p' = pool_range p" "pool_used p' = pool_used p"
  shows "p' = p"
proof -
  note r = pool_wf_range [OF assms(1)] pool_wf_range [OF assms(2)]
  have e: "user_qid_first p' = user_qid_first p" "user_qid_last p' = user_qid_last p"
    using pool_range_bounds [OF r] pool_range_bounds [OF r(2,1)] assms(3) by (auto intro: order_antisym)
  then have p': "p' = p\<lparr>user_qid_bitmap := user_qid_bitmap p'\<rparr>" by simp
  have "p\<lparr>user_qid_bitmap := user_qid_bitmap p'\<rparr> = p"
    by (rule pool_eqI) (use assms p' in simp_all)
  with p' show ?thesis by simp
qed

interpretation qp: id_allocator pool_wf pool_used pool_range snvm_user_qid_alloc_locked
  snvm_user_qid_free_locked
proof unfold_locales
  show "pool_used p \<subseteq> pool_range p" for p by (auto simp: pool_used_def pool_range_def)
qed (use pool_alloc_ok pool_alloc_fail pool_free_ok pool_used_inj in \<open>simp_all\<close>)

text \<open>A test pool: QIDs 3 to 6, of which 3 and 5 are in use.\<close>

definition pool_ex :: qid_pool where
  "pool_ex = \<lparr>user_qid_bitmap = Some [True, False, True, False], user_qid_first = 3, user_qid_last = 6\<rparr>"

lemma pool_ex_wf: "pool_wf pool_ex"
  by (simp add: pool_ex_def pool_wf_def range_ok_def pool_size_def)

lemma pool_ex_alloc:
  "snvm_user_qid_alloc_locked pool_ex 2 =
     (0, pool_ex\<lparr>user_qid_bitmap := Some [True, True, True, True]\<rparr>, [4, 6])"
  by code_simp

subsection \<open>Properties\<close>

text \<open>C5. A request for \<open>n\<close> user QIDs is served completely or not at all. When the pool has \<open>n\<close> free
  QIDs the call returns 0 and \<open>n\<close> pairwise distinct QIDs of the controller's user range, none
  of which was in use, and exactly these become used; otherwise it returns \<open>-EAGAIN\<close> and the
  pool is what it was, the rollback loop included.\<close>

theorem snvm_user_qid_alloc_all_or_nothing:
  assumes "pool_wf p" "snvm_user_qid_alloc_locked p n = (rc, p', qs)"
  shows "if n \<le> card (pool_range p - pool_used p)
         then rc = 0 \<and> length qs = n \<and> distinct qs \<and> set qs \<subseteq> pool_range p - pool_used p \<and>
              pool_wf p' \<and> pool_range p' = pool_range p \<and> pool_used p' = pool_used p \<union> set qs
         else rc = - EAGAIN \<and> p' = p"
  using assms qp.alloc_succeeds_iff [OF assms(1), of n]
  by (cases rule: qp.alloc_cases [OF assms]) simp_all

theorem snvm_user_qid_alloc_all_or_nothing_witness:
  "snvm_user_qid_alloc_locked pool_ex 2 =
     (0, pool_ex\<lparr>user_qid_bitmap := Some [True, True, True, True]\<rparr>, [4, 6]) \<and>
   pool_used (pool_ex\<lparr>user_qid_bitmap := Some [True, True, True, True]\<rparr>) = pool_used pool_ex \<union> {4, 6}"
  using snvm_user_qid_alloc_all_or_nothing [OF pool_ex_wf pool_ex_alloc] pool_ex_alloc
  by (simp split: if_splits)

text \<open>C17. Releasing the QIDs of an allocation, in any order in which they were handed out, gives
  back the very pool the allocation started from (bitmap included).\<close>

theorem snvm_user_qid_free_undoes_alloc:
  assumes "pool_wf p" "snvm_user_qid_alloc_locked p n = (0, p', qs)"
  shows "fold (\<lambda>q p. snvm_user_qid_free_locked p q) qs p' = p"
  using assms by (rule qp.free_after_alloc)

theorem snvm_user_qid_free_undoes_alloc_witness:
  "snvm_user_qid_free_locked (snvm_user_qid_free_locked
      (pool_ex\<lparr>user_qid_bitmap := Some [True, True, True, True]\<rparr>) 4) 6 = pool_ex"
  using snvm_user_qid_free_undoes_alloc [OF pool_ex_wf pool_ex_alloc] by simp

lemma pool_init_Some:
  "user_qid_bitmap p = Some bm \<Longrightarrow> snvm_user_qid_pool_init_locked e p ndev = (0, p)"
  by (simp add: snvm_user_qid_pool_init_locked_def)

lemma pool_init_None:
  "user_qid_bitmap p = None \<Longrightarrow> snvm_user_qid_pool_init_locked e p None = (- ENODEV, p)"
  by (simp add: snvm_user_qid_pool_init_locked_def)

definition fresh_pool :: "nvme_dev \<Rightarrow> qid_pool" where
  "fresh_pool nd = \<lparr>user_qid_bitmap = Some (replicate (unat (nd_ctrl_max_io_queues nd - nd_online_queues nd + 1)) False),
     user_qid_first = nd_online_queues nd, user_qid_last = nd_ctrl_max_io_queues nd\<rparr>"

lemma pool_init_fresh:
  "user_qid_bitmap p = None \<Longrightarrow>
   snvm_user_qid_pool_init_locked e p (Some nd) =
     (if nd_online_queues nd = 0 \<or> nd_nr_allocated_queues nd = 0 \<or> nd_ctrl_max_io_queues nd = 0 then (- ENODEV, p)
      else if nd_online_queues nd > nd_ctrl_max_io_queues nd then (- EBUSY, p)
      else if \<not> kmalloc_ok e A_bitmap then (- ENOMEM, p)
      else (0, fresh_pool nd))"
  by (simp add: snvm_user_qid_pool_init_locked_def Let_def fresh_pool_def)

lemma pool_init_cases:
  assumes "snvm_user_qid_pool_init_locked e p ndev = (rc, p')"
  obtains "user_qid_bitmap p \<noteq> None" "rc = 0" "p' = p"
  | "user_qid_bitmap p = None" "rc \<in> {- ENODEV, - EBUSY, - ENOMEM}" "p' = p"
  | nd where "user_qid_bitmap p = None" "rc = 0" "ndev = Some nd" "nd_online_queues nd \<noteq> 0"
      "nd_online_queues nd \<le> nd_ctrl_max_io_queues nd" "p' = fresh_pool nd"
proof (cases "user_qid_bitmap p")
  case (Some bm)
  with assms have "rc = 0" "p' = p" using pool_init_Some [OF Some, of e ndev] by auto
  with Some show ?thesis using that(1) by blast
next
  case None
  show ?thesis
  proof (cases ndev)
    case (Some nd)
    have "rc \<in> {- ENODEV, - EBUSY, - ENOMEM} \<and> p' = p \<or>
      rc = 0 \<and> nd_online_queues nd \<noteq> 0 \<and> nd_online_queues nd \<le> nd_ctrl_max_io_queues nd \<and> p' = fresh_pool nd"
      using assms pool_init_fresh [OF None, of e nd] Some by (auto split: if_splits)
    with None Some show ?thesis using that(2,3) by blast
  next
    case ndev: None
    with assms have "rc = - ENODEV" "p' = p" using pool_init_None [OF None, of e] by auto
    with None show ?thesis using that(2) by blast
  qed
qed

lemma fresh_pool_wf:
  assumes "nd_online_queues nd \<le> nd_ctrl_max_io_queues nd" "nd_ctrl_max_io_queues nd \<le> 0xffff"
  shows "pool_wf (fresh_pool nd)"
  using assms by (simp add: pool_wf_def range_ok_def pool_size_def fresh_pool_def)

lemma fresh_pool_simps [simp]:
  "pool_used (fresh_pool nd) = {}"
  "pool_range (fresh_pool nd) = {q. nd_online_queues nd \<le> ucast q \<and> ucast q \<le> nd_ctrl_max_io_queues nd}"
  by (simp_all add: pool_used_def pool_range_def in_range_def fresh_pool_def)

lemma pool_init_wf:
  assumes "snvm_user_qid_pool_init_locked e p (Some nd) = (0, p')" "user_qid_bitmap p \<noteq> None \<Longrightarrow> pool_wf p"
    "nd_ctrl_max_io_queues nd \<le> 0xffff"
  shows "pool_wf p'"
  using assms(1)
proof (cases rule: pool_init_cases)
  case 1 then show ?thesis using assms(2) by blast
next
  case (3 nd') then show ?thesis using assms(3) fresh_pool_wf [of nd] by blast
qed simp

text \<open>C18. The first use of a controller's user-QID pool makes a well-formed, empty pool that lies
  strictly above every queue the kernel has brought online and never above what the
  controller granted: no user QID can be the admin queue's or a kernel I/O queue's. A
  controller that never finished its queue negotiation gets no pool.\<close>

theorem snvm_user_qid_pool_init_disjoint_from_kernel:
  assumes "snvm_user_qid_pool_init_locked e p (Some nd) = (rc, p')" "user_qid_bitmap p = None"
    "nd_ctrl_max_io_queues nd \<le> 0xffff"
  shows "if rc = 0 then pool_wf p' \<and> pool_used p' = {} \<and>
      pool_range p' = {q. nd_online_queues nd \<le> ucast q \<and> ucast q \<le> nd_ctrl_max_io_queues nd} \<and>
      0 \<notin> pool_range p'
    else p' = p \<and> (nd_ctrl_max_io_queues nd = 0 \<longrightarrow> rc = - ENODEV)"
  using assms(1) unfolding pool_init_fresh [OF assms(2)]
  by (auto simp: fresh_pool_wf [OF _ assms(3)] not_less split: if_splits)

theorem snvm_user_qid_pool_init_disjoint_from_kernel_witness:
  "snvm_user_qid_pool_init_locked env_ex empty_pool (Some nd_ex) = (0, fresh_pool nd_ex) \<and>
   pool_wf (fresh_pool nd_ex) \<and> 0 \<notin> pool_range (fresh_pool nd_ex)"
proof -
  have i: "snvm_user_qid_pool_init_locked env_ex empty_pool (Some nd_ex) = (0, fresh_pool nd_ex)"
    by (subst pool_init_fresh) (simp_all add: empty_pool_def nd_ex_def env_ex_def)
  show ?thesis using snvm_user_qid_pool_init_disjoint_from_kernel [OF i] i
    by (simp add: empty_pool_def nd_ex_def)
qed

end
