(* ===== verification/Io_Queue_Bringup.thy ===== *)
theory Io_Queue_Bringup
  imports Io_Queue_Setup Qid_Pool
begin

text \<open>
  Properties of the I/O queue bring-up: it returns, releases the lock, stays inside \<open>dev->queues\<close> unless the
  registration of user queues is turned down, and leaves the kernel with at most its cap of queues.
\<close>

subsection \<open>What the steps leave alone\<close>

text \<open>The state without the queue contents and the log, and the queues that are enabled.\<close>

definition core :: "nvme_hw \<Rightarrow> nvme_hw" where
  "core h = h\<lparr>hw_queues := [], hw_log := []\<rparr>"

definition enabled :: "nvme_hw \<Rightarrow> bool list" where
  "enabled h = map kq_enabled (hw_queues h)"

lemma length_enabled [simp]: "length (enabled h) = length (hw_queues h)"
  by (simp add: enabled_def)

lemma core_fields:
  assumes "core h' = core h"
  shows "nd_online_queues h' = nd_online_queues h" "nd_max_qid h' = nd_max_qid h"
    "hw_queue_count h' = hw_queue_count h" "hw_locked h' = hw_locked h" "hw_overrun h' = hw_overrun h"
    "nd_use_user_allocated h' = nd_use_user_allocated h" "hw_io_poll h' = hw_io_poll h"
    "nd_nr_poll_queues h' = nd_nr_poll_queues h" "nd_cap_kernel_ioq h' = nd_cap_kernel_ioq h"
    "nd_ctrl_max_io_queues h' = nd_ctrl_max_io_queues h" "nd_nr_allocated_queues h' = nd_nr_allocated_queues h"
  using arg_cong [OF assms, of nd_online_queues] arg_cong [OF assms, of nd_max_qid]
    arg_cong [OF assms, of hw_queue_count] arg_cong [OF assms, of hw_locked] arg_cong [OF assms, of hw_overrun]
    arg_cong [OF assms, of nd_use_user_allocated] arg_cong [OF assms, of hw_io_poll]
    arg_cong [OF assms, of nd_nr_poll_queues] arg_cong [OF assms, of nd_cap_kernel_ioq]
    arg_cong [OF assms, of nd_ctrl_max_io_queues] arg_cong [OF assms, of nd_nr_allocated_queues]
  by (simp_all add: core_def)

lemma core_update [simp]:
  "core (h\<lparr>nd_online_queues := x\<rparr>) = (core h)\<lparr>nd_online_queues := x\<rparr>"
  "core (h\<lparr>hw_queue_count := y\<rparr>) = (core h)\<lparr>hw_queue_count := y\<rparr>"
  "core (h\<lparr>hw_locked := z\<rparr>) = (core h)\<lparr>hw_locked := z\<rparr>"
  "enabled (h\<lparr>nd_online_queues := x\<rparr>) = enabled h"
  "enabled (h\<lparr>hw_queue_count := y\<rparr>) = enabled h"
  "enabled (h\<lparr>hw_locked := z\<rparr>) = enabled h"
  by (simp_all add: core_def enabled_def)

lemma core_io_log [simp]:
  "core (io_log ev h) = core h" "enabled (io_log ev h) = enabled h" "hw_queues (io_log ev h) = hw_queues h"
  by (simp_all add: io_log_def core_def enabled_def)

lemma core_unlock [simp]:
  "core (unlock h) = (core h)\<lparr>hw_locked := False\<rparr>" "enabled (unlock h) = enabled h"
  "hw_queues (unlock h) = hw_queues h"
  by (simp_all add: unlock_def core_def enabled_def)

lemma length_upd_q [simp]: "length (hw_queues (upd_q i f h)) = length (hw_queues h)"
  by (simp add: upd_q_def)

lemma core_upd_q [simp]: "i < length (hw_queues h) \<Longrightarrow> core (upd_q i f h) = core h"
  by (simp add: upd_q_def core_def)

lemma online_upd_q [simp]: "nd_online_queues (upd_q i f h) = nd_online_queues h"
  by (simp add: upd_q_def)

lemma enabled_upd_q:
  "enabled (upd_q i f h) = (if i < length (hw_queues h) then (enabled h)[i := kq_enabled (f (hw_queues h ! i))] else enabled h)"
  by (simp add: upd_q_def enabled_def map_update)

lemma enabled_upd_q_same [simp]: "(\<And>q. kq_enabled (f q) = kq_enabled q) \<Longrightarrow> enabled (upd_q i f h) = enabled h"
  by (simp add: upd_q_def enabled_def map_update) (metis list_update_id nth_map)

lemma core_submit [simp]:
  "core (snd (submit_io_admin e c h)) = core h" "enabled (snd (submit_io_admin e c h)) = enabled h"
  "hw_queues (snd (submit_io_admin e c h)) = hw_queues h"
  by (simp_all add: submit_io_admin_def Let_def)

lemma trylock:
  "nvme_setup_io_queues_trylock e h = (rc, h') \<Longrightarrow>
     enabled h' = enabled h \<and> length (hw_queues h') = length (hw_queues h) \<and>
     (rc = 0 \<and> core h' = (core h)\<lparr>hw_locked := True\<rparr> \<or> rc = - ENODEV \<and> core h' = core h)"
  by (auto simp: nvme_setup_io_queues_trylock_def split: if_splits)

lemma core_request_irq [simp]:
  "core (snd (queue_request_irq e i h)) = core h" "enabled (snd (queue_request_irq e i h)) = enabled h"
  "hw_queues (snd (queue_request_irq e i h)) = hw_queues h"
  by (simp_all add: queue_request_irq_def Let_def)

lemma core_alloc_coherent [simp]:
  "core (snd (alloc_coherent e h)) = core h" "enabled (snd (alloc_coherent e h)) = enabled h"
  "hw_queues (snd (alloc_coherent e h)) = hw_queues h"
  by (simp_all add: alloc_coherent_def Let_def)

text \<open>A step that keeps the enabled flags, the array and the rest of the state up to \<open>f\<close>.\<close>

definition moves :: "(nvme_hw \<Rightarrow> nvme_hw) \<Rightarrow> nvme_hw \<Rightarrow> nvme_hw \<Rightarrow> bool" where
  "moves f h h' \<longleftrightarrow> core h' = f (core h) \<and> enabled h' = enabled h \<and> length (hw_queues h') = length (hw_queues h)"

lemma alloc_sq_cmds_moves:
  "nvme_alloc_sq_cmds e i h = (rc, h') \<Longrightarrow> i < length (hw_queues h) \<Longrightarrow> moves id h h'"
  unfolding nvme_alloc_sq_cmds_def moves_def alloc_coherent_def Let_def
  by (auto split: option.splits if_splits)

lemma alloc_queue_moves:
  assumes "nvme_alloc_queue e i d h = (rc, h')" "i < length (hw_queues h)"
  shows "moves id h h' \<and> (rc = 0 \<longrightarrow> i < unat (hw_queue_count h)) \<or>
         rc = 0 \<and> unat (hw_queue_count h) \<le> i \<and> moves (\<lambda>k. k\<lparr>hw_queue_count := hw_queue_count h + 1\<rparr>) h h'"
proof (cases "unat (hw_queue_count h) > i")
  case True then show ?thesis using assms by (simp add: nvme_alloc_queue_def moves_def)
next
  case False
  define h0 where "h0 = upd_q i (\<lambda>q. q\<lparr>kq_q_depth := d\<rparr>) h"
  have h0: "core h0 = core h" "enabled h0 = enabled h" "length (hw_queues h0) = length (hw_queues h)"
    using assms(2) by (simp_all add: h0_def)
  obtain a h1 where a: "alloc_coherent e h0 = (a, h1)" by force
  have h1: "core h1 = core h" "enabled h1 = enabled h" "length (hw_queues h1) = length (hw_queues h)"
    using h0 core_alloc_coherent [of e h0] by (simp_all add: a)
  show ?thesis
  proof (cases a)
    case None
    then show ?thesis using assms False a h1 by (simp add: nvme_alloc_queue_def h0_def moves_def)
  next
    case (Some cq)
    obtain rc2 h2 where sq: "nvme_alloc_sq_cmds e i (upd_q i (\<lambda>q. q\<lparr>kq_cq_dma_addr := cq\<rparr>) h1) = (rc2, h2)" by force
    have h2: "core h2 = core h" "enabled h2 = enabled h" "length (hw_queues h2) = length (hw_queues h)"
      using alloc_sq_cmds_moves [OF sq] h1 assms(2) by (simp_all add: moves_def)
    show ?thesis
    proof (cases "rc2 = 0")
      case True
      let ?h3 = "upd_q i (\<lambda>q. q\<lparr>kq_cq_head := 0, kq_cq_phase := 1, kq_q_db := of_nat i * 2 * nd_db_stride h2, kq_qid := of_nat i\<rparr>) h2"
      have "rc = 0" "h' = ?h3\<lparr>hw_queue_count := hw_queue_count ?h3 + 1\<rparr>"
        using assms(1) False a Some sq True by (simp_all add: nvme_alloc_queue_def h0_def Let_def)
      moreover have c3: "core ?h3 = core h" using h2 assms(2) by simp
      moreover have "hw_queue_count ?h3 = hw_queue_count h" using core_fields(3) [OF c3] .
      ultimately show ?thesis using h2 False by (simp add: moves_def)
    next
      case False
      then show ?thesis using assms(1) \<open>\<not> unat (hw_queue_count h) > i\<close> a Some sq h2
        by (auto simp: nvme_alloc_queue_def h0_def moves_def Let_def)
    qed
  qed
qed

subsection \<open>The invariant of the queue array\<close>

text \<open>The admin queue is online; behind it exactly the queues below \<open>online_queues\<close> are enabled, they are
  allocated, and the allocated ones fit the array.\<close>

definition hw_wf :: "nvme_hw \<Rightarrow> bool" where
  "hw_wf h \<longleftrightarrow> 1 \<le> unat (nd_online_queues h) \<and> unat (nd_online_queues h) \<le> unat (hw_queue_count h) \<and>
     unat (hw_queue_count h) \<le> length (hw_queues h) \<and> length (hw_queues h) < 2 ^ 32 \<and> \<not> hw_overrun h \<and>
     (\<forall>i. 1 \<le> i \<and> i < length (hw_queues h) \<longrightarrow> enabled h ! i = (i < unat (nd_online_queues h)))"

lemma hw_wf_core:
  assumes "hw_wf h" "core h' = core h" "enabled h' = enabled h" "length (hw_queues h') = length (hw_queues h)"
  shows "hw_wf h'"
  using assms(1,3,4) core_fields [OF assms(2)] by (simp add: hw_wf_def)

lemma unat_Suc_u32: "unat (x :: u32) < n \<Longrightarrow> n < 2 ^ 32 \<Longrightarrow> unat (x + 1) = Suc (unat x)"
  using unat_plus_no_wrap [of x 1] by simp

lemma alloc_queues_wf:
  assumes "alloc_queues e [unat (hw_queue_count h)..<Suc m] h = (rc, h')" "hw_wf h" "m < length (hw_queues h)"
  shows "hw_wf h' \<and> core h' = (core h)\<lparr>hw_queue_count := hw_queue_count h'\<rparr> \<and> enabled h' = enabled h \<and>
    length (hw_queues h') = length (hw_queues h) \<and> unat (hw_queue_count h) \<le> unat (hw_queue_count h') \<and>
    unat (hw_queue_count h') \<le> max (unat (hw_queue_count h)) (Suc m) \<and>
    (rc = 0 \<longrightarrow> m < unat (hw_queue_count h'))"
  using assms
proof (induction "Suc m - unat (hw_queue_count h)" arbitrary: h)
  case 0
  then show ?case by (simp add: core_def)
next
  case (Suc d)
  let ?k = "unat (hw_queue_count h)"
  have km: "?k \<le> m" using Suc.hyps(2) by simp
  then have l: "[?k..<Suc m] = ?k # [Suc ?k..<Suc m]" by (simp add: upt_conv_Cons)
  obtain r1 h1 where a: "nvme_alloc_queue e ?k (nd_q_depth h) h = (r1, h1)" by force
  have kl: "?k < length (hw_queues h)" using km Suc.prems(3) by simp
  have len: "length (hw_queues h) < 2 ^ 32" using Suc.prems(2) by (simp add: hw_wf_def)
  show ?case
  proof (cases "r1 = 0")
    case False
    then have m: "moves id h h1" using alloc_queue_moves [OF a kl] by auto
    have "h' = h1" "rc = - ENOMEM" using Suc.prems(1) False unfolding l by (simp_all add: a)
    moreover have "core h1 = core h" "enabled h1 = enabled h" "length (hw_queues h1) = length (hw_queues h)"
      using m by (simp_all add: moves_def)
    moreover have "hw_wf h1" using hw_wf_core [OF Suc.prems(2) calculation(3-5)] .
    ultimately show ?thesis using core_fields(3) [of h1 h] by (simp add: core_def)
  next
    case True
    then have m: "moves (\<lambda>k. k\<lparr>hw_queue_count := hw_queue_count h + 1\<rparr>) h h1"
      using alloc_queue_moves [OF a kl] by simp
    have c1: "core h1 = (core h)\<lparr>hw_queue_count := hw_queue_count h + 1\<rparr>" "enabled h1 = enabled h"
      "length (hw_queues h1) = length (hw_queues h)" using m by (simp_all add: moves_def)
    have q1: "hw_queue_count h1 = hw_queue_count h + 1" using arg_cong [OF c1(1), of hw_queue_count] by (simp add: core_def)
    have u1: "unat (hw_queue_count h1) = Suc ?k" using unat_Suc_u32 [OF kl len] q1 by simp
    have o1: "nd_online_queues h1 = nd_online_queues h" "hw_overrun h1 = hw_overrun h"
      using arg_cong [OF c1(1), of nd_online_queues] arg_cong [OF c1(1), of hw_overrun] by (simp_all add: core_def)
    have w1: "hw_wf h1" using Suc.prems(2) u1 c1(2,3) o1 kl by (simp add: hw_wf_def)
    have r: "alloc_queues e [unat (hw_queue_count h1)..<Suc m] h1 = (rc, h')"
      using Suc.prems(1) True unfolding l by (simp add: a u1)
    have "d = Suc m - unat (hw_queue_count h1)" using Suc.hyps(2) u1 by simp
    from Suc.hyps(1) [OF this r w1] Suc.prems(3) c1 u1 km show ?thesis by auto
  qed
qed

lemma unat_word_add_sub: "(x :: u32) + 1 - 1 = x"
  by simp

text \<open>What creating a queue does to the shape of the state: nothing, or one more queue online and enabled.\<close>

lemma create_queue_moves:
  assumes c: "nvme_create_queue e i p h = (rc, h')" and i: "i < length (hw_queues h)" and lk: "\<not> hw_locked h"
  shows "rc \<noteq> 0 \<and> moves id h h' \<or>
    core h' = (core h)\<lparr>nd_online_queues := nd_online_queues h + 1\<rparr> \<and> enabled h' = (enabled h)[i := True] \<and>
    length (hw_queues h') = length (hw_queues h)"
proof -
  define v where "v = (if p then 0 else if hw_num_vecs h = 1 then 0 else of_nat i :: u16)"
  define h0 where "h0 = upd_q i (\<lambda>q. q\<lparr>kq_delete_error := False, kq_polled := (kq_polled q \<or> p)\<rparr>) h"
  have m0: "moves id h h0" using i by (simp add: moves_def h0_def)
  obtain rc1 h1 where a1: "adapter_alloc_cq e i v h0 = (rc1, h1)" by force
  have "moves id h (snd (adapter_alloc_cq e i v h0))" using m0 by (simp add: adapter_alloc_cq_def Let_def moves_def)
  then have m1: "moves id h h1" by (simp add: a1)
  obtain rc2 h2 where a2: "adapter_alloc_sq e i h1 = (rc2, h2)" by force
  have "moves id h (snd (adapter_alloc_sq e i h1))" using m1 by (simp add: adapter_alloc_sq_def Let_def moves_def)
  then have m2: "moves id h h2" by (simp add: a2)
  obtain rc3 h3 where a3: "nvme_setup_io_queues_trylock e (upd_q i (\<lambda>q. q\<lparr>kq_cq_vector := v\<rparr>) h2) = (rc3, h3)" by force
  define h4 where "h4 = nvme_init_queue i h3"
  obtain rc5 h5 where a5: "(if p then (0, h4) else queue_request_irq e i h4) = (rc5, h5)" by force
  note steps = c [unfolded nvme_create_queue_def Let_def, folded v_def h0_def, unfolded a1 prod.case a2 a3]
  consider "rc1 \<noteq> 0" | "rc1 = 0" "rc2 < 0" | "rc1 = 0" "rc2 > 0" | "rc1 = 0" "rc2 = 0" "rc3 \<noteq> 0" | "rc1 = 0" "rc2 = 0" "rc3 = 0"
    by linarith
  then show ?thesis
  proof cases
    case 1 then show ?thesis using steps m1 by simp
  next
    case 2 then show ?thesis using steps m2 by simp
  next
    case 3 then show ?thesis using steps m2 by (auto simp: moves_def)
  next
    case 4 then show ?thesis using steps m2 i trylock [OF a3] by (auto simp: moves_def)
  next
    case 5
    have m3: "core h3 = (core h)\<lparr>hw_locked := True\<rparr>" "enabled h3 = enabled h" "length (hw_queues h3) = length (hw_queues h)"
      using trylock [OF a3] 5(3) m2 i by (auto simp: moves_def)
    have on3: "nd_online_queues h3 = nd_online_queues h" using arg_cong [OF m3(1), of nd_online_queues] by (simp add: core_def)
    have c4: "core h4 = (core h)\<lparr>hw_locked := True, nd_online_queues := nd_online_queues h + 1\<rparr>"
      and e4: "enabled h4 = enabled h" "length (hw_queues h4) = length (hw_queues h)"
      using m3 on3 i by (simp_all add: h4_def nvme_init_queue_def Let_def)
    have m5: "core h5 = core h4" "enabled h5 = enabled h4" "length (hw_queues h5) = length (hw_queues h4)"
      using a5 by (auto simp: queue_request_irq_def Let_def split: if_splits)
    have on5: "nd_online_queues h5 = nd_online_queues h + 1"
      using arg_cong [OF trans [OF m5(1) c4], of nd_online_queues] by (simp add: core_def)
    have lk': "(core h)\<lparr>hw_locked := False\<rparr> = core h" using lk by (simp add: core_def)
    have lk'': "(core h)\<lparr>nd_online_queues := x, hw_locked := False\<rparr> = (core h)\<lparr>nd_online_queues := x\<rparr>" for x
      using lk by (simp add: core_def)
    have on: "(core h)\<lparr>nd_online_queues := nd_online_queues h\<rparr> = core h" by (simp add: core_def)
    show ?thesis
    proof (cases "rc5 < 0")
      case True
      then have "rc = rc5" and h': "h' = snd (submit_io_admin e (DeleteCQ (of_nat i)) (snd (submit_io_admin e (DeleteSQ (of_nat i))
                    (unlock (h5\<lparr>nd_online_queues := nd_online_queues h5 - 1\<rparr>)))))"
        using steps 5 a5 unfolding h4_def by simp_all
      moreover have "core h' = core h" unfolding h' using m5 c4 on5 lk' on by simp
      ultimately show ?thesis using True m5 e4 by (auto simp: moves_def)
    next
      case False
      then have h': "h' = unlock (upd_q i (\<lambda>q. q\<lparr>kq_enabled := True\<rparr>) h5)"
        using steps 5 a5 unfolding h4_def by simp
      have "core h' = (core h)\<lparr>nd_online_queues := nd_online_queues h + 1\<rparr>"
        unfolding h' using m5 c4 e4 i lk'' by simp
      moreover have "enabled h' = (enabled h)[i := True]" "length (hw_queues h') = length (hw_queues h)"
        unfolding h' using m5 e4 i by (simp_all add: enabled_upd_q)
      ultimately show ?thesis by simp
    qed
  qed
qed

lemma create_queue_wf:
  assumes c: "nvme_create_queue e i p h = (rc, h')" and w: "hw_wf h" and i: "i = unat (nd_online_queues h)"
    and q: "i < unat (hw_queue_count h)" and lk: "\<not> hw_locked h"
  shows "hw_wf h' \<and> core h' = (core h)\<lparr>nd_online_queues := nd_online_queues h'\<rparr> \<and>
    length (hw_queues h') = length (hw_queues h) \<and>
    (unat (nd_online_queues h') = Suc i \<or> rc \<noteq> 0 \<and> nd_online_queues h' = nd_online_queues h)"
proof -
  have il: "i < length (hw_queues h)" using q w by (simp add: hw_wf_def)
  from create_queue_moves [OF c il lk] show ?thesis
  proof
    assume m: "rc \<noteq> 0 \<and> moves id h h'"
    then have c: "core h' = core h" "enabled h' = enabled h" "length (hw_queues h') = length (hw_queues h)"
      by (simp_all add: moves_def)
    have "hw_wf h'" using hw_wf_core [OF w c] .
    then show ?thesis using m c core_fields(1) [OF c(1)] by (simp add: core_def)
  next
    assume m: "core h' = (core h)\<lparr>nd_online_queues := nd_online_queues h + 1\<rparr> \<and> enabled h' = (enabled h)[i := True] \<and>
      length (hw_queues h') = length (hw_queues h)"
    then have c: "core h' = (core h)\<lparr>nd_online_queues := nd_online_queues h + 1\<rparr>" ..
    have f: "nd_online_queues h' = nd_online_queues h + 1" "hw_queue_count h' = hw_queue_count h" "hw_overrun h' = hw_overrun h"
      using arg_cong [OF c, of nd_online_queues] arg_cong [OF c, of hw_queue_count] arg_cong [OF c, of hw_overrun]
      by (simp_all add: core_def)
    have u: "unat (nd_online_queues h') = Suc i"
      using unat_Suc_u32 [of "nd_online_queues h" "length (hw_queues h)"] il i w f by (simp add: hw_wf_def)
    have "hw_wf h'" unfolding hw_wf_def using m w u f q i il by (auto simp: hw_wf_def nth_list_update)
    then show ?thesis using m c f u by simp
  qed
qed

lemma create_queues_wf:
  assumes "create_queues e rw [unat (nd_online_queues h)..<Suc m] ret h = (rc, h')" "hw_wf h"
    "m < unat (hw_queue_count h)" "\<not> hw_locked h"
  shows "hw_wf h' \<and> core h' = (core h)\<lparr>nd_online_queues := nd_online_queues h'\<rparr> \<and>
    length (hw_queues h') = length (hw_queues h) \<and>
    unat (nd_online_queues h') \<le> max (unat (nd_online_queues h)) (Suc m) \<and>
    (rc = 0 \<longrightarrow> m < unat (nd_online_queues h'))"
  using assms
proof (induction "Suc m - unat (nd_online_queues h)" arbitrary: h ret)
  case 0
  then show ?case by (simp add: core_def)
next
  case (Suc d)
  let ?k = "unat (nd_online_queues h)"
  have km: "?k \<le> m" using Suc.hyps(2) by simp
  then have l: "[?k..<Suc m] = ?k # [Suc ?k..<Suc m]" by (simp add: upt_conv_Cons)
  obtain r1 h1 where a: "nvme_create_queue e ?k (?k > unat rw) h = (r1, h1)" by force
  have qk: "?k < unat (hw_queue_count h)" using km Suc.prems(3) by simp
  note w = create_queue_wf [OF a Suc.prems(2) refl qk Suc.prems(4)]
  have c1: "core h1 = (core h)\<lparr>nd_online_queues := nd_online_queues h1\<rparr>" using w by simp
  have f: "hw_queue_count h1 = hw_queue_count h" "hw_locked h1 = hw_locked h"
    using arg_cong [OF c1, of hw_queue_count] arg_cong [OF c1, of hw_locked] by (simp_all add: core_def)
  show ?case
  proof (cases "r1 = 0")
    case False
    then have "h' = h1" "rc = r1" using Suc.prems(1) unfolding l by (simp_all add: a)
    then show ?thesis using w False km by auto
  next
    case True
    then have u: "unat (nd_online_queues h1) = Suc ?k" using w by simp
    have r: "create_queues e rw [unat (nd_online_queues h1)..<Suc m] 0 h1 = (rc, h')"
      using Suc.prems(1) True unfolding l by (simp add: a u)
    have "d = Suc m - unat (nd_online_queues h1)" using Suc.hyps(2) u by simp
    from Suc.hyps(1) [OF this r] w f Suc.prems u km show ?thesis by auto
  qed
qed

subsection \<open>Suspending and deleting\<close>

lemma send_deletes_log: "send_deletes e b k sent h = (k', sent', h') \<Longrightarrow> \<exists>lg. h' = h\<lparr>hw_log := lg\<rparr>"
proof (induction e b k sent h rule: send_deletes.induct)
  case (1 e b sent h) then show ?case by (auto intro: exI [of _ "hw_log h"])
next
  case (2 e b k sent h)
  obtain rc h1 where d: "nvme_delete_queue e (Suc k) b h = (rc, h1)" by force
  then obtain lg where lg: "h1 = h\<lparr>hw_log := lg\<rparr>" by (auto simp: nvme_delete_queue_def io_log_def Let_def)
  show ?case
  proof (cases "rc = 0")
    case True
    then have "send_deletes e b k (Suc sent) h1 = (k', sent', h')" using 2(2) d by simp
    then have "\<exists>lg. h' = h1\<lparr>hw_log := lg\<rparr>" using 2(1) [OF d [symmetric]] True by simp
    then show ?thesis using lg by auto
  next
    case False then show ?thesis using 2(2) d lg by auto
  qed
qed

lemma disable_loop_log: "disable_loop e b k sent h = (ok, h') \<Longrightarrow> \<exists>lg. h' = h\<lparr>hw_log := lg\<rparr>"
proof (induction e b k sent h rule: disable_loop.induct)
  case (1 e b k sent h)
  obtain k1 sent1 h1 where sd: "send_deletes e b k sent h = (k1, sent1, h1)" by (metis prod_cases3)
  obtain lg where lg: "h1 = h\<lparr>hw_log := lg\<rparr>" using send_deletes_log [OF sd] ..
  show ?case
  proof (cases "sent1 \<noteq> 0 \<and> he_delete_done e (hw_log h1)")
    case True
    let ?h2 = "io_log (IoDeleteWait (k1 + sent1) (he_delete_done e (hw_log h1))) h1"
    have "disable_loop e b k1 (sent1 - 1) ?h2 = (ok, h')"
      using 1(2) True by (subst (asm) disable_loop.simps) (simp add: sd Let_def)
    then have "\<exists>lg. h' = ?h2\<lparr>hw_log := lg\<rparr>" using 1(1) [OF sd [symmetric] refl _ refl refl] True by simp
    then show ?thesis using lg by (auto simp: io_log_def)
  next
    case False
    then show ?thesis using 1(2) lg by (subst (asm) disable_loop.simps) (auto simp: sd Let_def io_log_def split: if_splits)
  qed
qed

lemma disable_io_queues_log: "\<exists>lg. nvme_disable_io_queues e h = h\<lparr>hw_log := lg\<rparr>"
proof -
  obtain ok h1 where d1: "disable_loop e False (nat (sint (nd_online_queues h - 1))) 0 h = (ok, h1)" by force
  obtain lg1 where l1: "h1 = h\<lparr>hw_log := lg1\<rparr>" using disable_loop_log [OF d1] ..
  obtain ok2 h2 where d2: "disable_loop e True (nat (sint (nd_online_queues h1 - 1))) 0 h1 = (ok2, h2)" by force
  obtain lg2 where l2: "h2 = h1\<lparr>hw_log := lg2\<rparr>" using disable_loop_log [OF d2] ..
  show ?thesis using d1 d2 l1 l2 by (auto simp: nvme_disable_io_queues_def Let_def)
qed

lemma suspend_queue_wf:
  assumes w: "hw_wf h" and m: "1 \<le> m" "m < length (hw_queues h)" "unat (nd_online_queues h) \<le> Suc m"
  shows "hw_wf (nvme_suspend_queue e m h) \<and> unat (nd_online_queues (nvme_suspend_queue e m h)) \<le> m \<and>
    core (nvme_suspend_queue e m h) = (core h)\<lparr>nd_online_queues := nd_online_queues (nvme_suspend_queue e m h)\<rparr> \<and>
    length (hw_queues (nvme_suspend_queue e m h)) = length (hw_queues h)"
proof (cases "unat (nd_online_queues h) = Suc m")
  case False
  then have "\<not> kq_enabled (hw_queues h ! m)" using w m by (auto simp: hw_wf_def enabled_def)
  then have "nvme_suspend_queue e m h = h" using m by (simp add: nvme_suspend_queue_def get_q_def)
  then show ?thesis using w m False by (simp add: core_def)
next
  case True
  then have en: "kq_enabled (hw_queues h ! m)" using w m by (auto simp: hw_wf_def enabled_def)
  let ?h' = "nvme_suspend_queue e m h"
  have c: "core ?h' = (core h)\<lparr>nd_online_queues := nd_online_queues h - 1\<rparr>" and f: "enabled ?h' = (enabled h)[m := False]"
    and l: "length (hw_queues ?h') = length (hw_queues h)"
    using en m by (simp_all add: nvme_suspend_queue_def get_q_def Let_def) (simp add: upd_q_def enabled_def map_update)
  have o: "nd_online_queues ?h' = nd_online_queues h - 1" "hw_queue_count ?h' = hw_queue_count h" "hw_overrun ?h' = hw_overrun h"
    using arg_cong [OF c, of nd_online_queues] arg_cong [OF c, of hw_queue_count] arg_cong [OF c, of hw_overrun]
    by (simp_all add: core_def)
  have u: "unat (nd_online_queues h - 1) = m" using True by (simp add: unat_sub word_le_nat_alt)
  have "hw_wf ?h'" unfolding hw_wf_def using w m True o u f l by (auto simp: hw_wf_def nth_list_update)
  then show ?thesis using c l o u by simp
qed

lemma suspend_io_queues_wf:
  assumes w: "hw_wf h"
  shows "hw_wf (nvme_suspend_io_queues e h) \<and> nd_online_queues (nvme_suspend_io_queues e h) = 1 \<and>
    core (nvme_suspend_io_queues e h) = (core h)\<lparr>nd_online_queues := 1\<rparr> \<and>
    length (hw_queues (nvme_suspend_io_queues e h)) = length (hw_queues h)"
proof -
  have "hw_wf h \<Longrightarrow> 1 \<le> n \<Longrightarrow> unat (nd_online_queues h) \<le> n \<Longrightarrow> n \<le> length (hw_queues h) \<Longrightarrow>
      hw_wf (fold (nvme_suspend_queue e) (rev [1..<n]) h) \<and> nd_online_queues (fold (nvme_suspend_queue e) (rev [1..<n]) h) = 1 \<and>
      core (fold (nvme_suspend_queue e) (rev [1..<n]) h) = (core h)\<lparr>nd_online_queues := 1\<rparr> \<and>
      length (hw_queues (fold (nvme_suspend_queue e) (rev [1..<n]) h)) = length (hw_queues h)" for n
  proof (induction n arbitrary: h)
    case (Suc n)
    show ?case
    proof (cases "n = 0")
      case True
      then have "unat (nd_online_queues h) = 1" using Suc.prems by (simp add: hw_wf_def)
      then have "nd_online_queues h = 1" by (metis unat_1 unsigned_word_eqI)
      then show ?thesis using True Suc.prems by (simp add: core_def)
    next
      case False
      let ?h1 = "nvme_suspend_queue e n h"
      have s: "hw_wf ?h1 \<and> unat (nd_online_queues ?h1) \<le> n \<and>
          core ?h1 = (core h)\<lparr>nd_online_queues := nd_online_queues ?h1\<rparr> \<and> length (hw_queues ?h1) = length (hw_queues h)"
        using suspend_queue_wf [of h n e] Suc.prems False by simp
      have "fold (nvme_suspend_queue e) (rev [1..<Suc n]) h = fold (nvme_suspend_queue e) (rev [1..<n]) ?h1"
        using False by simp
      then show ?thesis using Suc.IH [of ?h1] s False Suc.prems(4) by simp
    qed
  qed simp
  from this [of "unat (hw_queue_count h)"] show ?thesis
    using w unfolding nvme_suspend_io_queues_def by (auto simp: hw_wf_def)
qed

subsection \<open>One round\<close>

text \<open>The configuration a round does not change.\<close>

definition cfg :: "nvme_hw \<Rightarrow> u32 \<times> u32 \<times> u32 \<times> bool \<times> u32 \<times> u32" where
  "cfg h = (nd_cap_kernel_ioq h, nd_ctrl_max_io_queues h, nd_nr_poll_queues h, nd_use_user_allocated h, nd_max_qid h,
     nd_nr_allocated_queues h)"

lemma cfg_core: "cfg (core h) = cfg h"
  by (simp add: cfg_def core_def)

lemma cfg_update [simp]:
  "cfg (k\<lparr>nd_online_queues := x\<rparr>) = cfg k" "cfg (k\<lparr>hw_queue_count := x\<rparr>) = cfg k" "cfg (k\<lparr>hw_locked := b\<rparr>) = cfg k"
  by (simp_all add: cfg_def)

lemma unat_pred_u32: "1 \<le> unat (x :: u32) \<Longrightarrow> unat (x - 1) = unat x - 1"
  by (simp add: unat_sub word_le_nat_alt)

lemma create_io_queues_wf:
  assumes c: "nvme_create_io_queues e h = (rc, h')" and w: "hw_wf h" and mx: "unat (nd_max_qid h) < length (hw_queues h)"
    and lk: "\<not> hw_locked h"
  shows "hw_wf h' \<and> \<not> hw_locked h' \<and> length (hw_queues h') = length (hw_queues h) \<and> cfg h' = cfg h \<and>
    unat (nd_online_queues h') \<le> max (unat (nd_online_queues h)) (Suc (unat (nd_max_qid h)))"
proof -
  obtain r1 h1 where a: "alloc_queues e [unat (hw_queue_count h)..<Suc (unat (nd_max_qid h))] h = (r1, h1)" by force
  note A = alloc_queues_wf [OF a w mx]
  then have c1: "core h1 = (core h)\<lparr>hw_queue_count := hw_queue_count h1\<rparr>" by simp
  have f1: "nd_max_qid h1 = nd_max_qid h" "hw_locked h1 = hw_locked h" "nd_online_queues h1 = nd_online_queues h"
    using arg_cong [OF c1, of nd_max_qid] arg_cong [OF c1, of hw_locked] arg_cong [OF c1, of nd_online_queues]
    by (simp_all add: core_def)
  define m where "m = min (nd_max_qid h1) (hw_queue_count h1 - 1)"
  have q1: "1 \<le> unat (hw_queue_count h1)" using A by (simp add: hw_wf_def)
  have mq: "unat m \<le> unat (nd_max_qid h)" "unat m < unat (hw_queue_count h1)"
    using unat_pred_u32 [OF q1] q1 f1 by (auto simp: m_def min_def word_le_nat_alt)
  define rw where "rw = (if m \<noteq> 1 \<and> hw_io_poll h1 \<noteq> 0 then hw_io_default h1 + hw_io_read h1 else m)"
  obtain r2 h2 where b: "create_queues e rw [unat (nd_online_queues h1)..<Suc (unat m)] r1 h1 = (r2, h2)" by force
  have B: "hw_wf h2 \<and> core h2 = (core h1)\<lparr>nd_online_queues := nd_online_queues h2\<rparr> \<and>
    length (hw_queues h2) = length (hw_queues h1) \<and>
    unat (nd_online_queues h2) \<le> max (unat (nd_online_queues h1)) (Suc (unat m))"
    using create_queues_wf [OF b _ mq(2)] A f1 lk by simp
  then have c2: "core h2 = (core h1)\<lparr>nd_online_queues := nd_online_queues h2\<rparr>" by simp
  have "h' = h2" using c [unfolded nvme_create_io_queues_def a prod.case Let_def, folded m_def, folded rw_def, unfolded b prod.case]
    by simp
  moreover have "cfg h2 = cfg h" using arg_cong [OF c2, of cfg] arg_cong [OF c1, of cfg] by (simp add: cfg_core)
  moreover have "hw_locked h2 = hw_locked h1" using arg_cong [OF c2, of hw_locked] by (simp add: core_def)
  ultimately show ?thesis using A B f1 lk mq by auto
qed

text \<open>Creating user queues touches the two user-queue fields and the log.\<close>

definition ucore :: "nvme_hw \<Rightarrow> nvme_hw" where
  "ucore h = h\<lparr>nd_online_user_queues := 0, nd_user_start_qid := 0, hw_log := []\<rparr>"

lemma ucore_fields:
  assumes "ucore h' = ucore h"
  shows "hw_queues h' = hw_queues h" "nd_online_queues h' = nd_online_queues h" "hw_queue_count h' = hw_queue_count h"
    "hw_locked h' = hw_locked h" "hw_overrun h' = hw_overrun h" "cfg h' = cfg h"
  using arg_cong [OF assms, of hw_queues] arg_cong [OF assms, of nd_online_queues] arg_cong [OF assms, of hw_queue_count]
    arg_cong [OF assms, of hw_locked] arg_cong [OF assms, of hw_overrun] arg_cong [OF assms, of cfg]
  by (simp_all add: ucore_def cfg_def)

lemma ucore_simps [simp]:
  "ucore (io_log ev h) = ucore h" "ucore (h\<lparr>nd_user_start_qid := x\<rparr>) = ucore h"
  "ucore (h\<lparr>nd_online_user_queues := x\<rparr>) = ucore h" "ucore (h\<lparr>hw_locked := b\<rparr>) = (ucore h)\<lparr>hw_locked := b\<rparr>"
  "ucore (snd (submit_io_admin e c h)) = ucore h" "\<not> hw_locked h \<Longrightarrow> (ucore h)\<lparr>hw_locked := False\<rparr> = ucore h"
  by (simp_all add: ucore_def io_log_def submit_io_admin_def Let_def)

lemma create_user_queue_ucore:
  assumes "nvme_create_user_queue e ring uq q h = (rc, h')" "\<not> hw_locked h"
  shows "ucore h' = ucore h"
  using assms
  unfolding nvme_create_user_queue_def submit_io_admin_def nvme_setup_io_queues_trylock_def Let_def unlock_def
  by (auto split: option.splits if_splits)

lemma create_user_queues_ucore:
  "create_user_queues e ring is n h = (rc, h') \<Longrightarrow> \<not> hw_locked h \<Longrightarrow> ucore h' = ucore h"
proof (induction "is" arbitrary: n h)
  case (Cons i "is")
  obtain r1 h1 where c: "nvme_create_user_queue e ring n i h = (r1, h1)" by force
  note u = create_user_queue_ucore [OF c Cons.prems(2)]
  show ?case using Cons c u ucore_fields(4) [OF u] by (auto split: if_splits)
qed simp

lemma create_io_queues_mix_ucore:
  assumes "nvme_create_io_queues_mix e ring h = (rc, h')" "\<not> hw_locked h"
  shows "ucore h' = ucore h"
proof -
  let ?h1 = "h\<lparr>nd_user_start_qid := nd_online_queues h\<rparr>"
  let ?l = "[unat (nd_online_queues ?h1)..<Suc (unat (nd_max_qid h + nd_nr_user_use_cq h))]"
  obtain r h2 where c: "create_user_queues e ring ?l 0 ?h1 = (r, h2)" by force
  have "h' = h2" using assms(1) [unfolded nvme_create_io_queues_mix_def Let_def c prod.case] by simp
  then show ?thesis using create_user_queues_ucore [OF c] assms(2) by simp
qed

lemma hw_wf_ucore: "hw_wf h \<Longrightarrow> ucore h' = ucore h \<Longrightarrow> hw_wf h'"
  using ucore_fields [of h' h] by (simp add: hw_wf_def enabled_def)

lemma hw_wf_upd_admin: "hw_wf h \<Longrightarrow> hw_wf (upd_q 0 f h)"
proof -
  assume w: "hw_wf h"
  then have l: "0 < length (hw_queues h)" by (auto simp: hw_wf_def)
  have c: "core (upd_q 0 f h) = core h" using l by simp
  show ?thesis using w l core_fields [OF c] by (auto simp: hw_wf_def enabled_upd_q nth_list_update)
qed

subsection \<open>Interrupt vectors\<close>

text \<open>With the documented contract of the vector allocator, the highest kernel QID of a round is within the
  number of queues asked for.\<close>

lemma setup_irqs_max_qid:
  assumes s: "nvme_setup_irqs e nr h = (rc, h')" and nr: "1 \<le> unat nr" and rc: "0 < rc"
    and vec: "\<And>lg n. he_alloc_vectors e lg n \<le> uint n"
  shows "unat (of_int (max (rc - 1) 1) + hw_io_poll h') \<le> unat nr"
proof -
  have nr32: "unat nr < 2 ^ 32" by (rule order_less_le_trans [OF unsigned_less]) simp
  define p where "p = min (nd_nr_poll_queues h) (nr - 1)"
  have p: "unat p \<le> unat nr - 1" using unat_pred_u32 [OF nr] by (simp add: p_def min_def word_le_nat_alt)
  have hp: "hw_io_poll h' = p" using s rc
    by (auto simp: nvme_setup_irqs_def Let_def nvme_calc_irq_sets_def io_log_def p_def split: if_splits)
  have np: "unat (nr - p) = unat nr - unat p" using p nr by (simp add: unat_sub word_le_nat_alt)
  have b: "rc \<le> uint (1 + (nr - p)) \<or> rc \<le> 1"
  proof (cases "he_single_vector e")
    case True
    then show ?thesis using s vec [of _ 1] by (auto simp: nvme_setup_irqs_def Let_def split: if_splits)
  next
    case False
    then show ?thesis using s vec by (auto simp: nvme_setup_irqs_def Let_def p_def split: if_splits)
  qed
  have "uint (1 + (nr - p)) \<le> 1 + uint (nr - p)" using uint_add_le [of 1 "nr - p"] by simp
  also have "uint (nr - p) = int (unat nr - unat p)" using np by (metis uint_nat)
  finally have mx: "max (rc - 1) 1 \<le> int (unat nr - unat p)" using b p nr by linarith
  define k where "k = nat (max (rc - 1) 1)"
  have k: "max (rc - 1) 1 = int k" "k \<le> unat nr - unat p" using mx unfolding k_def by linarith+
  have "k < 2 ^ 32" using k(2) nr32 by simp
  then have "unat (of_int (max (rc - 1) 1) :: u32) = k" using k(1) by (simp add: take_bit_nat_eq_self unat_of_nat)
  moreover have "k + unat p < 2 ^ 32" using k(2) p nr nr32 by simp
  ultimately have "unat (of_int (max (rc - 1) 1) + p) = k + unat p" by (simp add: unat_plus_no_wrap)
  then show ?thesis using hp k(2) p by simp
qed

lemma admin_irq_off_wf:
  assumes "hw_wf h"
  shows "hw_wf (admin_irq_off e h)" "core (admin_irq_off e h) = core h"
    "length (hw_queues (admin_irq_off e h)) = length (hw_queues h)"
proof -
  have l: "0 < length (hw_queues h)" using assms by (auto simp: hw_wf_def)
  show c: "core (admin_irq_off e h) = core h" using l by (simp add: admin_irq_off_def)
  show "length (hw_queues (admin_irq_off e h)) = length (hw_queues h)" by (simp add: admin_irq_off_def)
  show "hw_wf (admin_irq_off e h)"
    using assms hw_wf_upd_admin [OF assms] hw_wf_core [OF hw_wf_upd_admin [OF assms]] by (simp add: admin_irq_off_def)
qed

text \<open>What the label \<open>retry\<close> meets and what the code after it returns with.\<close>

definition round_pre :: "u32 \<Rightarrow> nvme_hw \<Rightarrow> bool" where
  "round_pre nr h \<longleftrightarrow> hw_wf h \<and> nd_online_queues h = 1 \<and> hw_locked h \<and> 1 \<le> unat nr \<and> unat nr < length (hw_queues h)"

definition kept :: "nvme_hw \<Rightarrow> nvme_hw \<Rightarrow> bool" where
  "kept h h' \<longleftrightarrow> nd_cap_kernel_ioq h' = nd_cap_kernel_ioq h \<and> nd_ctrl_max_io_queues h' = nd_ctrl_max_io_queues h \<and>
     nd_use_user_allocated h' = nd_use_user_allocated h \<and> nd_nr_allocated_queues h' = nd_nr_allocated_queues h \<and>
     length (hw_queues h') = length (hw_queues h)"

definition round_post :: "u32 \<Rightarrow> nvme_hw \<Rightarrow> int \<Rightarrow> nvme_hw \<Rightarrow> bool" where
  "round_post nr h rc h' \<longleftrightarrow> hw_wf h' \<and> \<not> hw_locked h' \<and> kept h h' \<and> unat (nd_online_queues h') \<le> Suc (unat nr) \<and>
     (rc = 0 \<and> 2 \<le> nd_online_queues h' \<longrightarrow> nd_online_queues h' = nd_max_qid h' + 1)"

lemma setup_irqs_core:
  "nvme_setup_irqs e nr h = (rc, h') \<Longrightarrow>
     hw_queues h' = hw_queues h \<and> nd_online_queues h' = nd_online_queues h \<and> hw_queue_count h' = hw_queue_count h \<and>
     hw_overrun h' = hw_overrun h \<and> hw_locked h' = hw_locked h \<and> cfg h' = cfg h"
  by (auto simp: nvme_setup_irqs_def Let_def nvme_calc_irq_sets_def io_log_def cfg_def split: if_splits)

text \<open>One pass from \<open>retry\<close> to the point where the queues have been created.\<close>

lemma round_created:
  assumes pre: "round_pre nr h" and s: "nvme_setup_irqs e nr (io_log IoFreeVectors (admin_irq_off e h)) = (rc1, h1)" and rc: "0 < rc1"
    and vec: "\<And>lg n. he_alloc_vectors e lg n \<le> uint n"
    and h2: "h2 = h1\<lparr>hw_num_vecs := of_int rc1, nd_max_qid := of_int (max (rc1 - 1) 1) + hw_io_poll h1\<rparr>"
    and r: "queue_request_irq e 0 h2 = (rc3, h3)"
    and c: "nvme_create_io_queues e (unlock (upd_q 0 (\<lambda>q. q\<lparr>kq_enabled := True\<rparr>) h3)) = (rc4, h4)"
    and m: "(if nd_use_user_allocated h4 then nvme_create_io_queues_mix e ring h4 else (rc4, h4)) = (rc5, h5)"
  shows "hw_wf h3 \<and> nd_online_queues h3 = 1 \<and> kept h h3 \<and>
    hw_wf h5 \<and> \<not> hw_locked h5 \<and> kept h h5 \<and> unat (nd_max_qid h5) \<le> unat nr \<and>
    unat (nd_online_queues h5) \<le> Suc (unat (nd_max_qid h5))"
proof -
  let ?h0 = "io_log IoFreeVectors (admin_irq_off e h)"
  have w: "hw_wf h" and o: "nd_online_queues h = 1" and nr: "1 \<le> unat nr" "unat nr < length (hw_queues h)"
    using pre by (simp_all add: round_pre_def)
  note A = admin_irq_off_wf [OF w, of e]
  have c0: "core ?h0 = core h" "length (hw_queues ?h0) = length (hw_queues h)" using A by simp_all
  have w0: "hw_wf ?h0" using hw_wf_core [OF A(1), of ?h0] by simp
  note S = setup_irqs_core [OF s]
  have w2: "hw_wf h2" using w0 S unfolding h2 by (simp add: hw_wf_def enabled_def)
  have k0: "kept h ?h0" using core_fields [OF c0(1)] c0(2) by (simp add: kept_def)
  have k2: "kept h h2" using k0 S unfolding h2 by (simp add: kept_def cfg_def)
  have o2: "nd_online_queues h2 = 1" using S o core_fields(1) [OF c0(1)] unfolding h2 by simp
  have m2: "unat (nd_max_qid h2) \<le> unat nr" using setup_irqs_max_qid [OF s nr(1) rc vec] unfolding h2 by simp
  have c3: "core h3 = core h2" "enabled h3 = enabled h2" "length (hw_queues h3) = length (hw_queues h2)"
    using core_request_irq [of e 0 h2] by (simp_all add: r)
  have w3: "hw_wf h3" using hw_wf_core [OF w2 c3] .
  define h3' where "h3' = unlock (upd_q 0 (\<lambda>q. q\<lparr>kq_enabled := True\<rparr>) h3)"
  have l3: "0 < length (hw_queues h3)" using w3 by (auto simp: hw_wf_def)
  have w3': "hw_wf h3'" using hw_wf_upd_admin [OF w3] unfolding h3'_def by (simp add: hw_wf_def unlock_def enabled_def)
  have c3': "core h3' = (core h2)\<lparr>hw_locked := False\<rparr>" "length (hw_queues h3') = length (hw_queues h2)"
    using c3 l3 by (simp_all add: h3'_def)
  have f3: "nd_online_queues h3' = 1" "cfg h3' = cfg h2" "\<not> hw_locked h3'"
    using arg_cong [OF c3'(1), of nd_online_queues] arg_cong [OF c3'(1), of cfg] arg_cong [OF c3'(1), of hw_locked] o2
    by (simp_all add: core_def cfg_def)
  have "unat (nd_max_qid h3') < length (hw_queues h3')" using m2 nr k2 f3(2) c3'(2) by (simp add: kept_def cfg_def)
  note C = create_io_queues_wf [OF c [folded h3'_def] w3' this f3(3)]
  have m5: "ucore h5 = ucore h4"
    using m C create_io_queues_mix_ucore [of e ring h4 rc5 h5] by (auto split: if_splits)
  have "hw_wf h5" using hw_wf_ucore [OF _ m5] C by simp
  then show ?thesis
    using C ucore_fields [OF m5] f3 c3'(2) k2 m2 w3 c3(3) core_fields [OF c3(1)] o2 by (simp add: kept_def cfg_def)
qed

subsection \<open>The loop\<close>

lemma trylock_fields:
  "nvme_setup_io_queues_trylock e h = (rc, h') \<Longrightarrow> hw_wf h \<Longrightarrow>
     hw_wf h' \<and> kept h h' \<and> nd_online_queues h' = nd_online_queues h \<and> nd_max_qid h' = nd_max_qid h \<and>
     hw_locked h' = (rc = 0 \<or> hw_locked h)"
  by (auto simp: nvme_setup_io_queues_trylock_def io_log_def hw_wf_def enabled_def kept_def split: if_splits)

lemma setup_loop_returns:
  assumes vec: "\<And>lg n. he_alloc_vectors e lg n \<le> uint n"
  shows "round_pre nr h \<Longrightarrow> \<exists>rc h'. setup_loop e ring nr h = Some (rc, h') \<and> round_post nr h rc h'"
proof (induction "unat nr" arbitrary: nr h rule: less_induct)
  case less
  note pre = less.prems
  obtain rc1 h1 where s: "nvme_setup_irqs e nr (io_log IoFreeVectors (admin_irq_off e h)) = (rc1, h1)" by force
  define h2 where "h2 = h1\<lparr>hw_num_vecs := of_int rc1, nd_max_qid := of_int (max (rc1 - 1) 1) + hw_io_poll h1\<rparr>"
  obtain rc3 h3 where r: "queue_request_irq e 0 h2 = (rc3, h3)" by force
  obtain rc4 h4 where c: "nvme_create_io_queues e (unlock (upd_q 0 (\<lambda>q. q\<lparr>kq_enabled := True\<rparr>) h3)) = (rc4, h4)" by force
  obtain rc5 h5 where m: "(if nd_use_user_allocated h4 then nvme_create_io_queues_mix e ring h4 else (rc4, h4)) = (rc5, h5)" by force
  obtain rc6 h6 where t: "nvme_setup_io_queues_trylock e (nvme_disable_io_queues e h5) = (rc6, h6)" by force
  note step = setup_loop.simps [of e ring nr h, unfolded s prod.case Let_def, folded h2_def, unfolded r prod.case c m t]
  show ?case
  proof (cases "0 < rc1")
    case False
    have w: "hw_wf h" and o: "nd_online_queues h = 1" using pre by (simp_all add: round_pre_def)
    note A = admin_irq_off_wf [OF w, of e]
    note S = setup_irqs_core [OF s]
    have "round_post nr h (- EIO) (unlock h1)"
      using A S w o core_fields [OF A(2)]
      by (simp add: round_post_def hw_wf_def kept_def cfg_def unlock_def enabled_def io_log_def)
    then show ?thesis using step False by simp
  next
    case True
    note R = round_created [OF pre s True vec h2_def r c m]
    show ?thesis
    proof (cases "rc3 = 0")
      case False
      have "round_post nr h rc3 (unlock h3)" using R False
        by (simp add: round_post_def hw_wf_def kept_def unlock_def enabled_def)
      then show ?thesis using step True False by simp
    next
      case rc3: True
      have on: "unat (nd_online_queues h5) \<le> Suc (unat nr)" using R by linarith
      consider (stop) "rc5 \<noteq> 0 \<or> nd_online_queues h5 < 2"
        | (enough) "\<not> (rc5 \<noteq> 0 \<or> nd_online_queues h5 < 2)" "\<not> nd_online_queues h5 - 1 < nd_max_qid h5"
        | (fewer) "\<not> (rc5 \<noteq> 0 \<or> nd_online_queues h5 < 2)" "nd_online_queues h5 - 1 < nd_max_qid h5" by blast
      then show ?thesis
      proof cases
        case stop
        then have "round_post nr h rc5 h5" using R on by (auto simp: round_post_def)
        then show ?thesis using step True rc3 stop by simp
      next
        case enough
        have u: "1 \<le> unat (nd_online_queues h5)" using R by (simp add: hw_wf_def)
        have "unat (nd_max_qid h5) \<le> unat (nd_online_queues h5 - 1)" using enough(2) by (simp add: word_less_nat_alt)
        then have "unat (nd_online_queues h5 - 1) = unat (nd_max_qid h5)" using unat_pred_u32 [OF u] R by linarith
        then have "nd_online_queues h5 - 1 = nd_max_qid h5" by (rule unsigned_word_eqI)
        then have "nd_online_queues h5 = nd_max_qid h5 + 1" by (simp add: diff_eq_eq)
        then have "round_post nr h 0 h5" using R on by (simp add: round_post_def)
        then show ?thesis using step True rc3 enough by simp
      next
        case fewer
        obtain lg where d: "nvme_disable_io_queues e h5 = h5\<lparr>hw_log := lg\<rparr>" using disable_io_queues_log ..
        have w5: "hw_wf (h5\<lparr>hw_log := lg\<rparr>)" using R by (simp add: hw_wf_def enabled_def)
        note T = trylock_fields [OF t [unfolded d] w5]
        have k6: "kept h h6" using R T by (simp add: kept_def)
        have "2 \<le> unat (nd_online_queues h5)" using fewer(1) by (simp add: word_less_nat_alt)
        then have u: "unat (nd_online_queues h5 - 1) = unat (nd_online_queues h5) - 1" "1 \<le> unat (nd_online_queues h5 - 1)"
          using unat_pred_u32 [of "nd_online_queues h5"] by simp_all
        then have lt: "unat (nd_online_queues h5 - 1) < unat nr" using fewer(2) R by (simp add: word_less_nat_alt)
        show ?thesis
        proof (cases "rc6 = 0")
          case False
          then have "round_post nr h rc6 h6" using T R on k6 by (simp add: round_post_def)
          then show ?thesis using step True rc3 fewer False by simp
        next
          case rc6: True
          let ?h7 = "nvme_suspend_io_queues e h6"
          have c7: "hw_wf ?h7" "nd_online_queues ?h7 = 1" "core ?h7 = (core h6)\<lparr>nd_online_queues := 1\<rparr>"
            "length (hw_queues ?h7) = length (hw_queues h6)" using suspend_io_queues_wf [of h6 e] T by simp_all
          have f7: "hw_locked ?h7 = hw_locked h6" "cfg ?h7 = cfg h6"
            using arg_cong [OF c7(3), of hw_locked] arg_cong [OF c7(3), of cfg] by (simp_all add: core_def cfg_def)
          have k7: "kept h ?h7" using k6 f7 c7(4) by (simp add: kept_def cfg_def)
          have "round_pre (nd_online_queues h5 - 1) ?h7" using c7 f7 T rc6 u lt k7 pre by (simp add: round_pre_def kept_def)
          from less.hyps [OF lt this] obtain rc h' where
            l: "setup_loop e ring (nd_online_queues h5 - 1) ?h7 = Some (rc, h')" and p: "round_post (nd_online_queues h5 - 1) ?h7 rc h'"
            by blast
          have "round_post nr h rc h'" using p k7 lt by (simp add: round_post_def kept_def)
          then show ?thesis using step True rc3 fewer rc6 l by simp
        qed
      qed
    qed
  qed
qed

subsection \<open>Negotiation and the whole set-up\<close>

lemma sint_le_uint: "sint (w :: u32) \<le> uint w"
proof -
  have "sint w = take_bit 32 (uint w) - 2 ^ 32 * of_bool (bit (uint w) 31)"
    using signed_take_bit_eq_take_bit_minus [of 31 "uint w"] by (simp add: sint_uint)
  also have "take_bit 32 (uint w) = uint w" using take_bit_int_eq_self [of "uint w" 32] unsigned_less [of w, where ?'a = int] by simp
  finally show ?thesis by simp
qed

lemma signed_min_le:
  assumes "g \<le> (0x10000 :: u32)" "\<not> sint c < sint g"
  shows "g \<le> c"
proof -
  have "uint g \<le> 0x10000" using assms(1) by (simp add: word_le_def)
  then have "sint g = uint g" using signed_take_bit_int_eq_self [of 31 "uint g"] unsigned_greater_eq [of g, where ?'a = int]
    by (simp add: sint_uint)
  then have "uint g \<le> uint c" using assms(2) sint_le_uint [of c] by linarith
  then show ?thesis by (simp add: word_le_def)
qed

lemma set_queue_count_le:
  assumes "snvme_set_queue_count e count h = (rc, nr, h')"
  shows "nr \<le> count" "h' = io_log (IoFeatures ((count - 1) OR push_bit 16 (count - 1))) h" "rc \<le> 0"
proof -
  obtain st r where f: "he_set_features e ((count - 1) OR push_bit 16 (count - 1)) = (st, r)" by force
  let ?g = "min (r AND 0xffff) (drop_bit 16 r) + 1 :: u32"
  have lo: "r AND 0xffff \<le> 0xffff" by (rule word_and_le1)
  then have g: "?g \<le> 0x10000" by (simp add: min_def word_le_nat_alt unat_plus_if' split: if_splits)
  show "h' = io_log (IoFeatures ((count - 1) OR push_bit 16 (count - 1))) h" "rc \<le> 0"
    using assms f by (auto simp: snvme_set_queue_count_def Let_def split: if_splits)
  show "nr \<le> count"
    using assms f signed_min_le [OF g] by (auto simp: snvme_set_queue_count_def Let_def split: if_splits)
qed

lemma negotiate_kernel_only:
  assumes n: "negotiate e h = (rc, nr, h')" and u: "\<not> nd_use_user_allocated h" and w: "hw_wf h"
  shows "nr \<le> nd_nr_allocated_queues h - 1 \<and> rc \<le> 0 \<and> (rc = 0 \<longrightarrow> nd_ctrl_max_io_queues h' = nr) \<and> hw_wf h' \<and>
    nd_online_queues h' = nd_online_queues h \<and> hw_locked h' = hw_locked h \<and> \<not> nd_use_user_allocated h' \<and>
    nd_cap_kernel_ioq h' = nd_cap_kernel_ioq h \<and> nd_nr_allocated_queues h' = nd_nr_allocated_queues h \<and>
    length (hw_queues h') = length (hw_queues h)"
proof -
  let ?h0 = "if nd_cap_kernel_ioq h = 0
    then h\<lparr>nd_nr_write_queues := he_write_queues e, nd_nr_poll_queues := he_poll_queues e\<rparr> else h"
  obtain r nr2 h1 where q: "snvme_set_queue_count e (nd_nr_allocated_queues h - 1) ?h0 = (r, nr2, h1)" by (metis prod_cases3)
  note Q = set_queue_count_le [OF q]
  have r: "rc = r" "nr = nr2" "h' = (if r = 0 then h1\<lparr>nd_ctrl_max_io_queues := nr2\<rparr> else h1)"
    using n u q Q(2) by (auto simp: negotiate_def Let_def io_log_def split: if_splits)
  show ?thesis using Q r u w by (auto simp: io_log_def hw_wf_def enabled_def)
qed

lemma remap_loop_kept:
  "remap_loop e k h = (rc, k', h') \<Longrightarrow> hw_wf h \<Longrightarrow>
     hw_wf h' \<and> kept h h' \<and> nd_online_queues h' = nd_online_queues h \<and> hw_locked h' = hw_locked h \<and>
     (rc = 0 \<longrightarrow> 1 \<le> k' \<and> k' \<le> k)"
proof (induction e k h rule: remap_loop.induct)
  case (2 e k h)
  obtain r1 h1 where b: "nvme_remap_bar e (db_bar_size h (of_nat (Suc k))) h = (r1, h1)" by force
  have h1: "hw_wf h1 \<and> kept h h1 \<and> nd_online_queues h1 = nd_online_queues h \<and> hw_locked h1 = hw_locked h"
    using b 2(3) by (auto simp: nvme_remap_bar_def io_log_def hw_wf_def enabled_def kept_def split: if_splits)
  show ?case
  proof (cases "r1 = 0 \<or> k = 0")
    case True
    then show ?thesis using 2(2) b h1 by (auto split: if_splits)
  next
    case False
    then have "remap_loop e k h1 = (rc, k', h')" using 2(2) b by simp
    from 2(1) [OF b [symmetric] _ _ this] False h1 show ?thesis by (auto simp: kept_def)
  qed
qed (auto simp: kept_def)

definition bringup_pre :: "hw_env \<Rightarrow> nvme_hw \<Rightarrow> bool" where
  "bringup_pre e h \<longleftrightarrow> (\<forall>lg n. he_alloc_vectors e lg n \<le> uint n) \<and> hw_wf h \<and> nd_online_queues h = 1 \<and> \<not> hw_locked h \<and>
     1 \<le> unat (nd_nr_allocated_queues h) \<and> unat (nd_nr_allocated_queues h) \<le> length (hw_queues h)"

lemma setup_io_queues_kernel_only:
  assumes pre: "bringup_pre e h" and u: "\<not> nd_use_user_allocated h"
  shows "\<exists>rc h'. s_nvme_setup_io_queues e ring h = Some (rc, h') \<and> hw_wf h' \<and> \<not> hw_locked h' \<and>
    length (hw_queues h') = length (hw_queues h) \<and> nd_cap_kernel_ioq h' = nd_cap_kernel_ioq h \<and>
    (nd_cap_kernel_ioq h \<noteq> 0 \<longrightarrow> unat (nd_online_queues h') \<le> Suc (unat (nd_cap_kernel_ioq h))) \<and>
    unat (nd_online_queues h') \<le> unat (nd_nr_allocated_queues h) \<and>
    (rc = 0 \<longrightarrow> nd_ctrl_max_io_queues h' \<le> nd_nr_allocated_queues h - 1) \<and>
    (rc = 0 \<and> 2 \<le> nd_online_queues h' \<longrightarrow> nd_online_queues h' = nd_max_qid h' + 1)"
proof -
  have w: "hw_wf h" and o: "nd_online_queues h = 1" and lk: "\<not> hw_locked h" and na: "1 \<le> unat (nd_nr_allocated_queues h)"
    "unat (nd_nr_allocated_queues h) \<le> length (hw_queues h)" and vec: "\<And>lg n. he_alloc_vectors e lg n \<le> uint n"
    using pre by (auto simp: bringup_pre_def)
  obtain rc1 nr h1 where n: "negotiate e h = (rc1, nr, h1)" by (metis prod_cases3)
  note N = negotiate_kernel_only [OF n u w]
  have na1: "unat (nd_nr_allocated_queues h - 1) = unat (nd_nr_allocated_queues h) - 1" using unat_pred_u32 [OF na(1)] .
  define nr1 where "nr1 = cap_kernel_share nr h1"
  have nr1: "nr1 \<le> nr" "nd_cap_kernel_ioq h \<noteq> 0 \<longrightarrow> nr1 \<le> nd_cap_kernel_ioq h" "nr \<noteq> 0 \<longrightarrow> nr1 \<noteq> 0"
    using N by (auto simp: nr1_def cap_kernel_share_def)
  obtain rc2 h2 where t: "nvme_setup_io_queues_trylock e h1 = (rc2, h2)" by force
  note T = trylock_fields [OF t]
  define h2' where "h2' = cmb_depth nr1 (admin_irq_off e h2)"
  obtain rc3 nr3 h3 where m: "remap_loop e (unat nr1) h2' = (rc3, nr3, h3)" by (metis prod_cases3)
  define h4 where "h4 = upd_q 0 (\<lambda>q. q\<lparr>kq_q_db := 0\<rparr>) h3"
  note step = s_nvme_setup_io_queues_def [of e ring h, unfolded n prod.case Let_def, folded nr1_def, unfolded t prod.case,
      folded h2'_def, unfolded m prod.case, folded h4_def]
  have c1: "unat (nd_online_queues h1) \<le> unat (nd_nr_allocated_queues h)" using N o na by simp
  show ?thesis
  proof (cases "rc1 < 0 \<or> nr = 0 \<or> rc2 \<noteq> 0")
    case True
    have *: "hw_wf h2 \<and> kept h1 h2 \<and> nd_online_queues h2 = nd_online_queues h1 \<and> (rc2 \<noteq> 0 \<longrightarrow> \<not> hw_locked h2)"
      using T N lk by simp
    have "\<not> (2 :: u32) \<le> 1" by (simp add: word_le_nat_alt)
    then show ?thesis using True step N * o na lk by (auto simp: kept_def split: if_splits)
  next
    case False
    then have ok: "rc1 = 0" "nr \<noteq> 0" "rc2 = 0" using N by auto
    have T2: "hw_wf h2" "kept h1 h2" "nd_online_queues h2 = 1" "hw_locked h2" using T N o ok by auto
    note A = admin_irq_off_wf [OF T2(1), of e]
    have A2: "hw_wf h2'" "kept h1 h2'" "nd_online_queues h2' = 1" "hw_locked h2'"
      using A T2 core_fields [OF A(2)] by (auto simp: h2'_def cmb_depth_def Let_def hw_wf_def enabled_def kept_def)
    note M = remap_loop_kept [OF m A2(1)]
    have M3: "hw_wf h3" "kept h1 h3" "nd_online_queues h3 = 1" "hw_locked h3" using M A2 by (auto simp: kept_def)
    show ?thesis
    proof (cases "rc3 = 0")
      case False
      then show ?thesis using step ok M3 N na
        by (auto simp: kept_def unlock_def hw_wf_def enabled_def)
    next
      case True
      have nr3: "1 \<le> nr3" "nr3 \<le> unat nr1" using M True by auto
      have lt: "unat nr1 < 2 ^ 32" by (rule order_less_le_trans [OF unsigned_less]) simp
      have u3: "unat (of_nat nr3 :: u32) = nr3" using nr3 lt by (simp add: unat_of_nat take_bit_nat_eq_self)
      have l3: "0 < length (hw_queues h3)" using M3(1) by (auto simp: hw_wf_def)
      have c4: "core h4 = core h3" using l3 by (simp add: h4_def)
      have w4: "hw_wf h4" unfolding h4_def using hw_wf_upd_admin [OF M3(1)] .
      have k4: "kept h1 h4" using M3(2) core_fields [OF c4] by (simp add: kept_def h4_def)
      have le: "nr3 \<le> unat (nd_nr_allocated_queues h) - 1" using nr3 nr1(1) N na1 by (simp add: word_le_nat_alt)
      have "round_pre (of_nat nr3) h4"
        using w4 core_fields [OF c4] M3 nr3 u3 le na N k4 by (simp add: round_pre_def kept_def)
      from setup_loop_returns [OF vec this, of ring] obtain rc h'
        where l: "setup_loop e ring (of_nat nr3) h4 = Some (rc, h')" and p: "round_post (of_nat nr3) h4 rc h'" by blast
      have s: "s_nvme_setup_io_queues e ring h = Some (rc, h')" using step ok True l by simp
      have on: "unat (nd_online_queues h') \<le> Suc nr3" using p u3 by (simp add: round_post_def)
      have "nd_cap_kernel_ioq h \<noteq> 0 \<longrightarrow> nr3 \<le> unat (nd_cap_kernel_ioq h)" using nr3 nr1(2) by (auto simp: word_le_nat_alt)
      then show ?thesis using s p on le na k4 N ok by (auto simp: round_post_def kept_def)
    qed
  qed
qed

end
