(* ===== verification/Io_Queue_Claims.thy ===== *)
theory Io_Queue_Claims
  imports Io_Queue_Bringup
begin

text \<open>
  The claims about the I/O queue bring-up, with the case that goes wrong, and the layout of the doorbells.
\<close>

subsection \<open>A registration that is turned down\<close>

lemma overrun_simps [simp]:
  "hw_overrun (upd_q i f h) = (hw_overrun h \<or> length (hw_queues h) \<le> i)" "hw_overrun (io_log ev h) = hw_overrun h"
  "hw_overrun (unlock h) = hw_overrun h" "hw_overrun (nvme_init_queue i h) = (hw_overrun h \<or> length (hw_queues h) \<le> i)"
  by (auto simp: upd_q_def io_log_def unlock_def nvme_init_queue_def Let_def)

lemma overrun_snd [simp]:
  "hw_overrun (snd (submit_io_admin e c h)) = hw_overrun h"
  "hw_overrun (snd (nvme_setup_io_queues_trylock e h)) = hw_overrun h"
  "hw_overrun (snd (queue_request_irq e i h)) = hw_overrun h"
  by (simp_all add: submit_io_admin_def nvme_setup_io_queues_trylock_def queue_request_irq_def Let_def io_log_def)

text \<open>Allocation in an environment that never refuses memory.\<close>

lemma alloc_queue_ok:
  assumes "\<And>lg. he_dma_alloc e lg \<noteq> None" "\<not> hw_cmb_use_sqes h" "nvme_alloc_queue e i d h = (rc, h')"
  shows "rc = 0" "\<not> hw_cmb_use_sqes h'"
proof -
  define da where "da = (\<lambda>lg. the (he_dma_alloc e lg))"
  have d: "he_dma_alloc e lg = Some (da lg)" for lg using assms(1) [of lg] by (simp add: da_def)
  have cmb: "hw_cmb_use_sqes (upd_q i f k) = hw_cmb_use_sqes k" "hw_cmb_use_sqes (io_log ev k) = hw_cmb_use_sqes k" for i f k ev
    by (simp_all add: upd_q_def io_log_def)
  show "rc = 0" "\<not> hw_cmb_use_sqes h'"
    using assms(2,3) by (auto simp: nvme_alloc_queue_def nvme_alloc_sq_cmds_def alloc_coherent_def Let_def d cmb split: if_splits)
qed

lemma alloc_queue_overrun:
  "hw_overrun h \<or> length (hw_queues h) \<le> i \<and> unat (hw_queue_count h) \<le> i \<Longrightarrow> hw_overrun (snd (nvme_alloc_queue e i d h))"
  by (auto simp: nvme_alloc_queue_def nvme_alloc_sq_cmds_def alloc_coherent_def Let_def split: option.splits prod.splits if_splits)

lemma alloc_queues_overrun_mono: "hw_overrun h \<Longrightarrow> hw_overrun (snd (alloc_queues e is h))"
proof (induction "is" arbitrary: h)
  case (Cons i "is")
  then show ?case using alloc_queue_overrun [of h i e "nd_q_depth h"] by (simp add: case_prod_unfold)
qed simp

lemma create_queue_overrun_mono: "hw_overrun h \<Longrightarrow> hw_overrun (snd (nvme_create_queue e i p h))"
  by (simp add: nvme_create_queue_def adapter_alloc_cq_def adapter_alloc_sq_def Let_def case_prod_unfold)

lemma create_queues_overrun_mono: "hw_overrun h \<Longrightarrow> hw_overrun (snd (create_queues e rw is ret h))"
proof (induction "is" arbitrary: h ret)
  case (Cons i "is")
  then show ?case using create_queue_overrun_mono [of h e i "i > unat rw"] by (simp add: case_prod_unfold)
qed simp

lemma alloc_queues_overrun:
  assumes "unat (hw_queue_count h) \<le> length (hw_queues h)" "length (hw_queues h) \<le> m" "length (hw_queues h) < 2 ^ 32"
    "\<not> hw_cmb_use_sqes h" "\<And>lg. he_dma_alloc e lg \<noteq> None"
  shows "hw_overrun (snd (alloc_queues e [unat (hw_queue_count h)..<Suc m] h))"
  using assms
proof (induction "Suc m - unat (hw_queue_count h)" arbitrary: h)
  case 0 then show ?case by simp
next
  case (Suc d)
  let ?k = "unat (hw_queue_count h)"
  have "?k \<le> m" using Suc.hyps(2) by linarith
  then have l: "[?k..<Suc m] = ?k # [Suc ?k..<Suc m]" by (simp add: upt_conv_Cons)
  obtain r1 h1 where a: "nvme_alloc_queue e ?k (nd_q_depth h) h = (r1, h1)" by force
  show ?case
  proof (cases "?k < length (hw_queues h)")
    case False
    then have "hw_overrun h1" using alloc_queue_overrun [of h ?k e "nd_q_depth h"] a by simp
    then show ?thesis unfolding l using alloc_queues_overrun_mono [of h1] by (simp add: a)
  next
    case True
    note r1 = alloc_queue_ok [OF Suc.prems(5,4) a]
    then have mv: "moves (\<lambda>k. k\<lparr>hw_queue_count := hw_queue_count h + 1\<rparr>) h h1"
      using alloc_queue_moves [OF a True] by simp
    then have c: "core h1 = (core h)\<lparr>hw_queue_count := hw_queue_count h + 1\<rparr>" "length (hw_queues h1) = length (hw_queues h)"
      by (simp_all add: moves_def)
    have "hw_queue_count h1 = hw_queue_count h + 1" using arg_cong [OF c(1), of hw_queue_count] by (simp add: core_def)
    then have u: "unat (hw_queue_count h1) = Suc ?k" using unat_Suc_u32 [OF True Suc.prems(3)] by simp
    have "hw_overrun (snd (alloc_queues e [unat (hw_queue_count h1)..<Suc m] h1))"
      using Suc.hyps(1) [of h1] Suc.hyps(2) Suc.prems u c r1 True by simp
    then show ?thesis unfolding l by (simp add: a r1 u)
  qed
qed

lemma create_io_queues_overrun:
  assumes "unat (hw_queue_count h) \<le> length (hw_queues h)" "length (hw_queues h) \<le> unat (nd_max_qid h)"
    "\<not> hw_cmb_use_sqes h" "\<And>lg. he_dma_alloc e lg \<noteq> None"
  shows "hw_overrun (snd (nvme_create_io_queues e h))"
proof -
  obtain r1 h1 where a: "alloc_queues e [unat (hw_queue_count h)..<Suc (unat (nd_max_qid h))] h = (r1, h1)" by force
  have "unat (nd_max_qid h) < 2 ^ 32" by (rule order_less_le_trans [OF unsigned_less]) simp
  then have "hw_overrun h1" using alloc_queues_overrun [OF assms(1,2) _ assms(3,4)] assms(2) by (simp add: a del: upt_Suc)
  then have "hw_overrun (snd (case create_queues e rw is ret h1 of (r, h2) \<Rightarrow> (if r \<ge> 0 then 0 else r, h2)))" for rw "is" ret
    using create_queues_overrun_mono [of h1 e rw "is" ret] by (simp add: case_prod_unfold)
  then show ?thesis unfolding nvme_create_io_queues_def a prod.case Let_def .
qed

subsection \<open>When nothing fails\<close>

definition good_env :: "hw_env \<Rightarrow> bool" where
  "good_env e \<longleftrightarrow> (\<forall>lg. he_trylock e lg \<and> he_connecting e lg \<and> he_dma_alloc e lg \<noteq> None) \<and>
     (\<forall>lg v. he_request_irq e lg v = 0) \<and> (\<forall>lg c. he_admin e lg c = 0) \<and> (\<forall>lg n. he_alloc_vectors e lg n = uint n) \<and>
     \<not> he_single_vector e \<and> (\<forall>n. he_ioremap e n)"

lemma create_queue_ok:
  assumes "good_env e" shows "fst (nvme_create_queue e i p h) = 0"
proof -
  have "fst (submit_io_admin e c k) = 0" "fst (nvme_setup_io_queues_trylock e k) = 0" "fst (queue_request_irq e i k) = 0" for c k i
    using assms by (simp_all add: good_env_def submit_io_admin_def nvme_setup_io_queues_trylock_def queue_request_irq_def Let_def)
  then show ?thesis by (simp add: nvme_create_queue_def adapter_alloc_cq_def adapter_alloc_sq_def Let_def case_prod_unfold)
qed

lemma create_queues_ok: "good_env e \<Longrightarrow> fst (create_queues e rw is 0 h) = 0"
proof (induction "is" arbitrary: h)
  case (Cons i "is")
  then show ?case using create_queue_ok [of e i "i > unat rw" h] by (simp add: case_prod_unfold)
qed simp

lemma alloc_queues_ok: "good_env e \<Longrightarrow> \<not> hw_cmb_use_sqes h \<Longrightarrow> fst (alloc_queues e is h) = 0"
proof (induction "is" arbitrary: h)
  case (Cons i "is")
  obtain rc h1 where a: "nvme_alloc_queue e i (nd_q_depth h) h = (rc, h1)" by force
  have d: "\<And>lg. he_dma_alloc e lg \<noteq> None" using Cons.prems(1) by (simp add: good_env_def)
  show ?case using Cons alloc_queue_ok [OF d Cons.prems(2) a] by (simp add: a)
qed simp

lemma create_io_queues_all:
  assumes g: "good_env e" and cmb: "\<not> hw_cmb_use_sqes h" and w: "hw_wf h" and mx: "unat (nd_max_qid h) < length (hw_queues h)"
    and lk: "\<not> hw_locked h" and on: "unat (nd_online_queues h) \<le> unat (nd_max_qid h)"
    and c: "nvme_create_io_queues e h = (rc, h')"
  shows "rc = 0 \<and> unat (nd_online_queues h') = Suc (unat (nd_max_qid h))"
proof -
  obtain r1 h1 where a: "alloc_queues e [unat (hw_queue_count h)..<Suc (unat (nd_max_qid h))] h = (r1, h1)" by force
  note A = alloc_queues_wf [OF a w mx]
  have r1: "r1 = 0" using alloc_queues_ok [OF g cmb, of "[unat (hw_queue_count h)..<Suc (unat (nd_max_qid h))]"] unfolding a by simp
  have c1: "core h1 = (core h)\<lparr>hw_queue_count := hw_queue_count h1\<rparr>" using A by simp
  have f1: "nd_max_qid h1 = nd_max_qid h" "hw_locked h1 = hw_locked h" "nd_online_queues h1 = nd_online_queues h"
    using arg_cong [OF c1, of nd_max_qid] arg_cong [OF c1, of hw_locked] arg_cong [OF c1, of nd_online_queues]
    by (simp_all add: core_def)
  have lt: "unat (nd_max_qid h) < unat (hw_queue_count h1)" using A r1 by simp
  then have "unat (hw_queue_count h1 - 1) = unat (hw_queue_count h1) - 1" by (simp add: unat_pred_u32)
  then have "nd_max_qid h \<le> hw_queue_count h1 - 1" using lt by (simp add: word_le_nat_alt)
  then have m: "min (nd_max_qid h1) (hw_queue_count h1 - 1) = nd_max_qid h" by (simp add: f1 min_def)
  define rw where "rw = (if nd_max_qid h \<noteq> 1 \<and> hw_io_poll h1 \<noteq> 0 then hw_io_default h1 + hw_io_read h1 else nd_max_qid h)"
  obtain r2 h2 where b: "create_queues e rw [unat (nd_online_queues h1)..<Suc (unat (nd_max_qid h))] 0 h1 = (r2, h2)" by force
  have r2: "r2 = 0" using create_queues_ok [OF g, of rw "[unat (nd_online_queues h1)..<Suc (unat (nd_max_qid h))]" h1] unfolding b by simp
  have lk1: "\<not> hw_locked h1" using f1 lk by simp
  have w1: "hw_wf h1" using A by simp
  note B = create_queues_wf [OF b w1 lt lk1]
  have "rc = 0" "h' = h2"
    using c [unfolded nvme_create_io_queues_def a prod.case Let_def m r1, folded rw_def, unfolded b prod.case] r2 by simp_all
  then show ?thesis using B r2 f1 on by simp
qed

lemma setup_irqs_all:
  assumes g: "good_env e" and nr: "1 \<le> unat nr" "unat nr < 2 ^ 32 - 1" and s: "nvme_setup_irqs e nr h = (rc, h')"
  shows "0 < rc" "of_int (max (rc - 1) 1) + hw_io_poll h' = nr"
proof -
  define p where "p = min (nd_nr_poll_queues h) (nr - 1)"
  have p: "unat p \<le> unat nr - 1" using unat_pred_u32 [OF nr(1)] by (simp add: p_def min_def word_le_nat_alt)
  have np: "unat (nr - p) = unat nr - unat p" using p nr by (simp add: unat_sub word_le_nat_alt)
  have "unat (1 + (nr - p)) = 1 + (unat nr - unat p)" using unat_plus_no_wrap [of 1 "nr - p"] np nr by simp
  then have u: "uint (1 + (nr - p)) = 1 + int (unat nr - unat p)" by (simp add: uint_nat)
  have rc: "rc = uint (1 + (nr - p))" "hw_io_poll h' = p" using g s
    by (auto simp: good_env_def nvme_setup_irqs_def Let_def nvme_calc_irq_sets_def io_log_def p_def split: if_splits)
  show "0 < rc" using rc u by simp
  have un: "uint (nr - p) = int (unat nr - unat p)" using np by (metis uint_nat)
  have "1 \<le> unat nr - unat p" using p nr by linarith
  then have "max (rc - 1) 1 = uint (nr - p)" unfolding rc(1) u un by linarith
  then show "of_int (max (rc - 1) 1) + hw_io_poll h' = nr" using rc(2) by simp
qed

lemma cmb_frame [simp]:
  "hw_cmb_use_sqes (io_log ev h) = hw_cmb_use_sqes h" "hw_cmb_use_sqes (upd_q i f h) = hw_cmb_use_sqes h"
  "hw_cmb_use_sqes (snd (nvme_setup_irqs e nr h)) = hw_cmb_use_sqes h"
  "hw_cmb_use_sqes (snd (queue_request_irq e i h)) = hw_cmb_use_sqes h"
  "hw_cmb_use_sqes (admin_irq_off e h) = hw_cmb_use_sqes h" "hw_cmb_use_sqes (unlock h) = hw_cmb_use_sqes h"
  by (simp_all add: io_log_def upd_q_def nvme_setup_irqs_def nvme_calc_irq_sets_def Let_def queue_request_irq_def
      admin_irq_off_def unlock_def)

lemma stride_frame [simp]: "nd_db_stride (admin_irq_off e h) = nd_db_stride h"
  by (simp add: admin_irq_off_def io_log_def upd_q_def)

lemma setup_loop_all:
  assumes g: "good_env e" and pre: "round_pre nr h" and cmb: "\<not> hw_cmb_use_sqes h" and u: "\<not> nd_use_user_allocated h"
  shows "\<exists>h'. setup_loop e ring nr h = Some (0, h') \<and> nd_online_queues h' = nr + 1 \<and> kept h h'"
proof -
  have vec: "\<And>lg n. he_alloc_vectors e lg n \<le> uint n" using g by (simp add: good_env_def)
  have nr: "1 \<le> unat nr" "unat nr < length (hw_queues h)" "unat nr < 2 ^ 32 - 1" and w: "hw_wf h" and o: "nd_online_queues h = 1"
    using pre by (auto simp: round_pre_def hw_wf_def)
  let ?h0 = "io_log IoFreeVectors (admin_irq_off e h)"
  obtain rc1 h1 where s: "nvme_setup_irqs e nr ?h0 = (rc1, h1)" by force
  note I = setup_irqs_all [OF g nr(1,3) s]
  define h2 where "h2 = h1\<lparr>hw_num_vecs := of_int rc1, nd_max_qid := of_int (max (rc1 - 1) 1) + hw_io_poll h1\<rparr>"
  have mq: "nd_max_qid h2 = nr" using I by (simp add: h2_def)
  obtain rc3 h3 where r: "queue_request_irq e 0 h2 = (rc3, h3)" by force
  have rc3: "rc3 = 0" using r g by (auto simp: queue_request_irq_def Let_def good_env_def)
  define h3' where "h3' = unlock (upd_q 0 (\<lambda>q. q\<lparr>kq_enabled := True\<rparr>) h3)"
  obtain rc4 h4 where c: "nvme_create_io_queues e h3' = (rc4, h4)" by force
  have m: "(if nd_use_user_allocated h4 then nvme_create_io_queues_mix e ring h4 else (rc4, h4)) =
      (fst (if nd_use_user_allocated h4 then nvme_create_io_queues_mix e ring h4 else (rc4, h4)),
       snd (if nd_use_user_allocated h4 then nvme_create_io_queues_mix e ring h4 else (rc4, h4)))" by simp
  note R = round_created [OF pre s I(1) vec h2_def r c [unfolded h3'_def] m]
  have w3: "hw_wf h3" "nd_online_queues h3 = 1" "kept h h3" using R by simp_all
  have l3: "0 < length (hw_queues h3)" using w3(1) by (auto simp: hw_wf_def)
  have q3: "nd_max_qid h3 = nr" using r mq by (auto simp: queue_request_irq_def Let_def io_log_def)
  have "hw_cmb_use_sqes h1 = hw_cmb_use_sqes h" using cmb_frame(3) [of e nr ?h0] by (simp add: s)
  moreover have "hw_cmb_use_sqes h3 = hw_cmb_use_sqes h2" using cmb_frame(4) [of e 0 h2] by (simp add: r)
  ultimately have cm: "\<not> hw_cmb_use_sqes h3'" using cmb by (simp add: h3'_def h2_def)
  have h3': "hw_wf h3'" "nd_max_qid h3' = nr" "nd_online_queues h3' = 1" "\<not> hw_locked h3'" "length (hw_queues h3') = length (hw_queues h)"
      "kept h h3'"
    using hw_wf_upd_admin [OF w3(1), of "\<lambda>q. q\<lparr>kq_enabled := True\<rparr>"] w3 q3 l3
    by (simp_all add: h3'_def unlock_def upd_q_def hw_wf_def enabled_def kept_def)
  have C: "rc4 = 0 \<and> unat (nd_online_queues h4) = Suc (unat nr)"
    using create_io_queues_all [OF g cm h3'(1) _ h3'(4) _ c] h3' nr by simp
  have W: "cfg h4 = cfg h3'" "length (hw_queues h4) = length (hw_queues h3')"
    using create_io_queues_wf [OF c h3'(1) _ h3'(4)] h3' nr by simp_all
  have f4: "nd_max_qid h4 = nr" "kept h h4" "\<not> nd_use_user_allocated h4" using W h3' u by (simp_all add: cfg_def kept_def)
  have on: "nd_online_queues h4 = nr + 1"
  proof (rule unsigned_word_eqI)
    show "unat (nd_online_queues h4) = unat (nr + 1)"
      using C unat_Suc_u32 [of nr "length (hw_queues h)"] nr w by (simp add: hw_wf_def)
  qed
  have "\<not> nd_online_queues h4 < 2" using C nr by (simp add: word_less_nat_alt)
  then have "setup_loop e ring nr h = Some (0, h4)"
    unfolding setup_loop.simps [of e ring nr h, unfolded s prod.case Let_def, folded h2_def, unfolded r prod.case, folded h3'_def, unfolded c prod.case]
    using I(1) rc3 C f4 on by simp
  then show ?thesis using on f4 by blast
qed

text \<open>What the controller grants, and the kernel's share of it.\<close>

definition granted :: "u32 \<Rightarrow> u32 \<Rightarrow> u32" where
  "granted count result = min count (min (result AND 0xffff) (drop_bit 16 result) + 1)"

definition kernel_share :: "u32 \<Rightarrow> u32 \<Rightarrow> u32" where
  "kernel_share cap nr = (if cap = 0 then nr else min cap nr)"

lemma set_queue_count_granted:
  assumes "he_set_features e ((count - 1) OR push_bit 16 (count - 1)) = (0, r)" "count \<le> 0x7fffffff"
  shows "snvme_set_queue_count e count h = (0, granted count r, io_log (IoFeatures ((count - 1) OR push_bit 16 (count - 1))) h)"
proof -
  let ?g = "min (r AND 0xffff) (drop_bit 16 r) + 1 :: u32"
  have lo: "r AND 0xffff \<le> 0xffff" by (rule word_and_le1)
  then have g: "?g \<le> 0x10000" by (simp add: min_def word_le_nat_alt unat_plus_if' split: if_splits)
  have "uint count \<le> 0x7fffffff" "uint ?g \<le> 0x10000" using assms(2) g by (simp_all add: word_le_def)
  then have "sint count = uint count" "sint ?g = uint ?g"
    using signed_take_bit_int_eq_self [of 31 "uint count"] signed_take_bit_int_eq_self [of 31 "uint ?g"]
      unsigned_greater_eq [of count, where ?'a = int] unsigned_greater_eq [of ?g, where ?'a = int]
    by (simp_all add: sint_uint)
  then have "sint count < sint ?g \<longleftrightarrow> count < ?g" by (simp add: word_less_def)
  then have "(if sint count < sint ?g then count else ?g) = granted count r"
    using order_less_le [of count ?g] by (auto simp: granted_def min_def [of count])
  then show ?thesis using assms(1) by (simp add: snvme_set_queue_count_def Let_def)
qed

lemma remap_loop_fits:
  assumes "good_env e" "db_bar_size h (of_nat (Suc k)) \<le> he_bar0_len e"
  shows "\<exists>h'. remap_loop e (Suc k) h = (0, Suc k, h') \<and> hw_cmb_use_sqes h' = hw_cmb_use_sqes h"
  using assms by (auto simp: nvme_remap_bar_def good_env_def not_less)

text \<open>The state after a negotiation the controller answers.\<close>

definition negotiated :: "hw_env \<Rightarrow> u32 \<Rightarrow> nvme_hw \<Rightarrow> nvme_hw" where
  "negotiated e nr h =
     (io_log (IoFeatures ((nd_nr_allocated_queues h - 1 - 1) OR push_bit 16 (nd_nr_allocated_queues h - 1 - 1)))
       (if nd_cap_kernel_ioq h = 0
        then h\<lparr>nd_nr_write_queues := he_write_queues e, nd_nr_poll_queues := he_poll_queues e\<rparr> else h))
     \<lparr>nd_ctrl_max_io_queues := nr\<rparr>"

lemma negotiate_granted:
  assumes "\<And>c. he_set_features e c = (0, r)" "nd_nr_allocated_queues h - 1 \<le> 0x7fffffff" "\<not> nd_use_user_allocated h"
  shows "negotiate e h = (0, granted (nd_nr_allocated_queues h - 1) r, negotiated e (granted (nd_nr_allocated_queues h - 1) r) h)"
  using assms by (simp add: negotiate_def Let_def set_queue_count_granted negotiated_def io_log_def)

lemma setup_io_queues_all:
  assumes pre: "bringup_pre e h" and g: "good_env e" and u: "\<not> nd_use_user_allocated h" and cmb: "\<not> hw_cmb_use_sqes h"
    and ft: "\<And>c. he_set_features e c = (0, r)" and na: "nd_nr_allocated_queues h - 1 \<le> 0x7fffffff"
    and nr: "nr = granted (nd_nr_allocated_queues h - 1) r" "nr \<noteq> 0" and ks: "ks = kernel_share (nd_cap_kernel_ioq h) nr"
    and bar: "db_bar_size h ks \<le> he_bar0_len e"
  shows "\<exists>h'. s_nvme_setup_io_queues e ring h = Some (0, h') \<and> nd_online_queues h' = ks + 1 \<and>
    nd_ctrl_max_io_queues h' = nr \<and> nd_nr_allocated_queues h' = nd_nr_allocated_queues h"
proof -
  have w: "hw_wf h" and o: "nd_online_queues h = 1" and al: "1 \<le> unat (nd_nr_allocated_queues h)"
    "unat (nd_nr_allocated_queues h) \<le> length (hw_queues h)" using pre by (auto simp: bringup_pre_def)
  define h1 where "h1 = negotiated e nr h"
  have n: "negotiate e h = (0, nr, h1)" using negotiate_granted [OF ft na u] by (simp add: h1_def nr(1))
  have f1: "hw_wf h1" "nd_online_queues h1 = 1" "\<not> nd_use_user_allocated h1" "\<not> hw_cmb_use_sqes h1"
    "nd_db_stride h1 = nd_db_stride h" "nd_cap_kernel_ioq h1 = nd_cap_kernel_ioq h" "nd_ctrl_max_io_queues h1 = nr"
    "nd_nr_allocated_queues h1 = nd_nr_allocated_queues h" "length (hw_queues h1) = length (hw_queues h)"
    using w o u cmb by (simp_all add: h1_def negotiated_def io_log_def hw_wf_def enabled_def)
  have c: "cap_kernel_share nr h1 = ks" using f1 by (auto simp: cap_kernel_share_def ks kernel_share_def min_def)
  define h2 where "h2 = io_log (IoTrylock True) (h1\<lparr>hw_locked := True\<rparr>)"
  have t: "nvme_setup_io_queues_trylock e h1 = (0, h2)" using g by (simp add: nvme_setup_io_queues_trylock_def good_env_def h2_def)
  have f2: "hw_wf h2" "hw_locked h2" "kept h1 h2" "nd_online_queues h2 = 1" "\<not> hw_cmb_use_sqes h2" "nd_db_stride h2 = nd_db_stride h"
    using trylock_fields [OF t f1(1)] f1 by (simp_all add: h2_def io_log_def)
  define h2' where "h2' = admin_irq_off e h2"
  note A = admin_irq_off_wf [OF f2(1), of e]
  have f2': "hw_wf h2'" "hw_locked h2'" "kept h1 h2'" "nd_online_queues h2' = 1" "\<not> hw_cmb_use_sqes h2'" "nd_db_stride h2' = nd_db_stride h"
    using A f2 core_fields [OF A(2)] by (simp_all add: h2'_def kept_def)
  have d: "cmb_depth ks h2' = h2'" using f2'(5) by (simp add: cmb_depth_def)
  have ks0: "ks \<noteq> 0" using nr(2) by (auto simp: ks kernel_share_def min_def)
  then obtain k where k: "unat ks = Suc k" by (cases "unat ks") (auto simp: unat_eq_zero)
  have kw: "of_nat (Suc k) = ks" using k by (metis of_nat_unat ucast_id)
  obtain h3 where m: "remap_loop e (unat ks) h2' = (0, unat ks, h3)" and cm: "hw_cmb_use_sqes h3 = hw_cmb_use_sqes h2'"
    using remap_loop_fits [OF g, of h2' k] bar f2'(6) k kw by (auto simp: db_bar_size_def)
  note M = remap_loop_kept [OF m f2'(1)]
  define h4 where "h4 = upd_q 0 (\<lambda>q. q\<lparr>kq_q_db := 0\<rparr>) h3"
  have w3: "hw_wf h3" using M by simp
  have l3: "0 < length (hw_queues h3)" using w3 by (auto simp: hw_wf_def)
  have c4: "core h4 = core h3" using l3 by (simp add: h4_def)
  have k4: "kept h1 h4" using M f2'(3) core_fields [OF c4] by (simp add: kept_def h4_def)
  have lt: "unat ks < length (hw_queues h1)"
  proof -
    have "ks \<le> nr" by (simp add: ks kernel_share_def)
    moreover have "nr \<le> nd_nr_allocated_queues h - 1" by (simp add: nr(1) granted_def)
    ultimately show ?thesis using unat_pred_u32 [OF al(1)] al f1(9) by (simp add: word_le_nat_alt)
  qed
  have "round_pre ks h4"
    using hw_wf_upd_admin [OF w3, of "\<lambda>q. q\<lparr>kq_q_db := 0\<rparr>"] core_fields [OF c4] M f2' k lt k4
    by (simp add: round_pre_def h4_def [symmetric] kept_def)
  moreover have "\<not> hw_cmb_use_sqes h4" using cm f2' by (simp add: h4_def)
  moreover have "\<not> nd_use_user_allocated h4" using k4 f1 by (simp add: kept_def)
  ultimately obtain h' where l: "setup_loop e ring ks h4 = Some (0, h')" "nd_online_queues h' = ks + 1" "kept h4 h'"
    using setup_loop_all [OF g] by blast
  have "s_nvme_setup_io_queues e ring h = Some (0, h')"
    unfolding s_nvme_setup_io_queues_def n prod.case Let_def c t h2'_def [symmetric] d m h4_def [symmetric]
    using nr(2) l(1) by simp
  then show ?thesis using l k4 f1 by (simp add: kept_def)
qed

subsection \<open>Sample values\<close>

text \<open>Four CPUs, a controller that grants 64 queues, vectors as asked for; the kernel is capped at two queues.\<close>

definition queue_ex :: nvme_queue where
  "queue_ex = \<lparr>kq_enabled = False, kq_polled = False, kq_sq_cmb = False, kq_delete_error = False, kq_qid = 0, kq_q_depth = 0,
     kq_sq_dma_addr = 0, kq_cq_dma_addr = 0, kq_cq_vector = 0, kq_sq_tail = 0, kq_last_sq_tail = 0, kq_cq_head = 0,
     kq_cq_phase = 0, kq_q_db = 0\<rparr>"

definition hw_ex :: nvme_hw where
  "hw_ex = \<lparr>nd_admin_q = True, nd_online_queues = 1, nd_online_user_queues = 0, nd_user_start_qid = 0,
     nd_max_qid = 0, nd_q_depth = 1024, nd_db_stride = 1, nd_nr_allocated_queues = 5,
     nd_nr_write_queues = 0, nd_nr_poll_queues = 0, nd_nr_user_allocated_queues = 0, nd_nr_user_allocated_cq = 0, nd_nr_user_use_cq = 0,
     nd_nr_user_allocated_sq = 0, nd_nr_user_use_sq = 0, nd_use_user_allocated = False,
     nd_queue_on_host = False, nd_ctrl_max_io_queues = 0, nd_cap_kernel_ioq = 2,
     nd_max_hw_sectors = 256, nd_sgls = 0,
     hw_queue_count = 1, hw_queues = queue_ex\<lparr>kq_enabled := True\<rparr> # replicate 4 queue_ex, hw_num_vecs = 1, hw_io_default = 0,
     hw_io_read = 0, hw_io_poll = 0, hw_bar_mapped_size = 0x2000, hw_cmb_use_sqes = False, hw_cmb_sqs = False, hw_cmb_size = 0,
     hw_locked = False, hw_overrun = False, hw_log = []\<rparr>"

definition hw_env_ex :: hw_env where
  "hw_env_ex = \<lparr>he_write_queues = 0, he_poll_queues = 0, he_set_features = (\<lambda>_. (0, 0x003f003f)), he_trylock = (\<lambda>_. True),
     he_connecting = (\<lambda>_. True), he_bar0_len = 0x4000, he_ioremap = (\<lambda>_. True), he_single_vector = False, he_medium_prio = False,
     he_alloc_vectors = (\<lambda>_ n. uint n), he_request_irq = (\<lambda>_ _. 0), he_dma_alloc = (\<lambda>lg. Some (of_nat (length lg) * 0x1000)),
     he_p2pmem = (\<lambda>_. None), he_admin = (\<lambda>_ _. 0), he_alloc_request = (\<lambda>_. 0), he_delete_done = (\<lambda>_. True), he_wild_queue = queue_ex\<rparr>"

lemma bringup_pre_ex: "bringup_pre hw_env_ex hw_ex"
proof -
  have "enabled hw_ex ! i = (i < 1)" if "1 \<le> i" "i < 5" for i
    using that by (auto simp: enabled_def hw_ex_def queue_ex_def less_Suc_eq numeral_eq_Suc)
  then show ?thesis by (simp add: bringup_pre_def hw_wf_def) (simp add: hw_env_ex_def hw_ex_def)
qed

text \<open>C32. Bringing up the kernel's I/O queues after a reset always returns, however many queues the
  controller, the interrupt code and the allocator grant or refuse (the retry with fewer queues ends), provided
  the vector allocator never hands out more vectors than asked for. On every path, errors included, the lock
  taken on the way is released, nothing outside the allocated array of queues is written, and the queues that
  are enabled are exactly those below \<open>online_queues\<close>; on success every queue up to \<open>max_qid\<close> is online. This is
  the case where no user queues were registered before the driver was bound.\<close>

theorem s_nvme_setup_io_queues_returns:
  assumes "bringup_pre e h" "\<not> nd_use_user_allocated h"
  shows "\<exists>rc h'. s_nvme_setup_io_queues e ring h = Some (rc, h') \<and> hw_wf h' \<and> \<not> hw_locked h' \<and>
    length (hw_queues h') = length (hw_queues h) \<and> unat (nd_online_queues h') \<le> unat (nd_nr_allocated_queues h) \<and>
    (rc = 0 \<and> 2 \<le> nd_online_queues h' \<longrightarrow> nd_online_queues h' = nd_max_qid h' + 1)"
  using setup_io_queues_kernel_only [OF assms, of ring] by blast

theorem s_nvme_setup_io_queues_returns_witness:
  "\<exists>rc h'. s_nvme_setup_io_queues hw_env_ex (\<lambda>_ _. None) hw_ex = Some (rc, h') \<and> hw_wf h' \<and> \<not> hw_locked h'"
  using s_nvme_setup_io_queues_returns [OF bringup_pre_ex, of "\<lambda>_ _. None"] by (force simp: hw_ex_def)

text \<open>C33. With a cap on the kernel's share, a successful bring-up leaves every QID above the cap, up to the
  recorded ceiling, to user queues: the pool that the first \<open>NVM_ADD_USER_QUEUE\<close> makes contains them all, and
  none of the queues the kernel has online. No user queues were registered before the driver was bound.\<close>

theorem capped_bringup_leaves_user_qids:
  assumes "bringup_pre e h" "\<not> nd_use_user_allocated h" "nd_cap_kernel_ioq h \<noteq> 0"
    and "s_nvme_setup_io_queues e ring h = Some (rc, h')" "nd_ctrl_max_io_queues h' \<le> 0xffff"
    and "snvm_user_qid_pool_init_locked ke empty_pool (Some (nvme_dev.truncate h')) = (0, p)"
  shows "{q. nd_cap_kernel_ioq h < ucast q \<and> ucast q \<le> nd_ctrl_max_io_queues h'} \<subseteq> pool_range p \<and>
    (\<forall>q \<in> pool_range p. nd_online_queues h' \<le> ucast q)"
proof -
  from setup_io_queues_kernel_only [OF assms(1,2), of ring] assms(3,4)
  have on: "unat (nd_online_queues h') \<le> Suc (unat (nd_cap_kernel_ioq h))" by auto
  have t: "nd_online_queues (nvme_dev.truncate h') = nd_online_queues h'"
    "nd_ctrl_max_io_queues (nvme_dev.truncate h') = nd_ctrl_max_io_queues h'" by (simp_all add: nvme_dev.defs)
  have "p = fresh_pool (nvme_dev.truncate h')" using assms(6) by (simp add: pool_init_fresh empty_pool_def split: if_splits)
  then have "pool_range p = {q. nd_online_queues h' \<le> ucast q \<and> ucast q \<le> nd_ctrl_max_io_queues h'}" by (simp add: t)
  moreover have "nd_online_queues h' \<le> ucast q" if "nd_cap_kernel_ioq h < ucast q" for q :: u16
    using that on by (simp add: word_less_nat_alt word_le_nat_alt)
  ultimately show ?thesis by blast
qed

theorem capped_bringup_leaves_user_qids_witness:
  "\<exists>h' p. s_nvme_setup_io_queues hw_env_ex (\<lambda>_ _. None) hw_ex = Some (0, h') \<and>
     snvm_user_qid_pool_init_locked env_ex empty_pool (Some (nvme_dev.truncate h')) = (0, p) \<and>
     {q. (2 :: u32) < ucast q \<and> ucast q \<le> (4 :: u32)} \<subseteq> pool_range p"
proof -
  have n: "4 = granted (nd_nr_allocated_queues hw_ex - 1) 0x003f003f" "(4 :: u32) \<noteq> 0" by (simp_all add: granted_def hw_ex_def)
  have k: "2 = kernel_share (nd_cap_kernel_ioq hw_ex) 4" by (simp add: kernel_share_def hw_ex_def)
  have g: "good_env hw_env_ex" by (simp add: good_env_def hw_env_ex_def)
  have b: "db_bar_size hw_ex 2 \<le> he_bar0_len hw_env_ex" by (simp add: db_bar_size_def hw_ex_def hw_env_ex_def)
  have f: "he_set_features hw_env_ex c = (0, 0x003f003f)" for c by (simp add: hw_env_ex_def)
  have u: "\<not> nd_use_user_allocated hw_ex" "\<not> hw_cmb_use_sqes hw_ex" "nd_nr_allocated_queues hw_ex - 1 \<le> 0x7fffffff"
    "nd_cap_kernel_ioq hw_ex = 2" "nd_nr_allocated_queues hw_ex = 5" by (simp_all add: hw_ex_def)
  from setup_io_queues_all [OF bringup_pre_ex g u(1,2) f u(3) n k b, of "\<lambda>_ _. None"]
  obtain h' where s: "s_nvme_setup_io_queues hw_env_ex (\<lambda>_ _. None) hw_ex = Some (0, h')" and o: "nd_online_queues h' = 2 + 1"
    and c: "nd_ctrl_max_io_queues h' = 4" and a: "nd_nr_allocated_queues h' = nd_nr_allocated_queues hw_ex" by blast
  let ?nd = "nvme_dev.truncate h'"
  have t: "nd_online_queues ?nd = 3" "nd_ctrl_max_io_queues ?nd = 4" "nd_nr_allocated_queues ?nd = 5"
    using o c a u(5) by (simp_all add: nvme_dev.defs)
  have p: "snvm_user_qid_pool_init_locked env_ex empty_pool (Some ?nd) = (0, fresh_pool ?nd)"
    by (simp add: pool_init_fresh empty_pool_def t env_ex_def)
  have cm: "nd_ctrl_max_io_queues h' \<le> 0xffff" using c by simp
  have cp: "nd_cap_kernel_ioq hw_ex \<noteq> 0" by (simp add: u)
  show ?thesis using conjunct1 [OF capped_bringup_leaves_user_qids [OF bringup_pre_ex u(1) cp s cm p], unfolded u(4) c] s p
    by blast
qed

text \<open>C36. The ceiling recorded for user QIDs is bounded by what the driver asked for, not only by what the
  controller would grant: it never exceeds the number of kernel queues wanted (plus the user queues registered
  before the bind), however many more the controller supports.\<close>

theorem negotiated_ceiling_within_request:
  assumes "negotiate e h = (0, nr, h')"
  shows "nd_ctrl_max_io_queues h' \<le>
    nd_nr_allocated_queues h - 1 + (if nd_use_user_allocated h then nd_nr_user_allocated_cq h else 0)"
proof -
  let ?h0 = "if nd_cap_kernel_ioq h = 0
    then h\<lparr>nd_nr_write_queues := he_write_queues e, nd_nr_poll_queues := he_poll_queues e\<rparr> else h"
  let ?c = "nd_nr_allocated_queues h - 1 + (if nd_use_user_allocated h then nd_nr_user_allocated_cq h else 0)"
  obtain r nr2 h1 where q: "snvme_set_queue_count e ?c ?h0 = (r, nr2, h1)" by (metis prod_cases3)
  have f: "nd_nr_allocated_queues ?h0 = nd_nr_allocated_queues h" "nd_use_user_allocated ?h0 = nd_use_user_allocated h"
    "nd_nr_user_allocated_cq ?h0 = nd_nr_user_allocated_cq h" by simp_all
  have "(if nd_use_user_allocated h then nd_nr_allocated_queues h - 1 + nd_nr_user_allocated_cq h else nd_nr_allocated_queues h - 1) = ?c"
    by simp
  note n = assms [unfolded negotiate_def Let_def f this q prod.case]
  then have "nd_ctrl_max_io_queues h' = nr2" by (auto split: if_splits)
  then show ?thesis using set_queue_count_le(1) [OF q] by simp
qed

theorem negotiated_ceiling_within_request_witness:
  "negotiate hw_env_ex hw_ex = (0, 4, negotiated hw_env_ex 4 hw_ex) \<and> nd_ctrl_max_io_queues (negotiated hw_env_ex 4 hw_ex) \<le> 4"
proof -
  have n: "granted (nd_nr_allocated_queues hw_ex - 1) 0x003f003f = 4" by (simp add: granted_def hw_ex_def)
  have f: "he_set_features hw_env_ex c = (0, 0x003f003f)" for c by (simp add: hw_env_ex_def)
  have u: "\<not> nd_use_user_allocated hw_ex" "nd_nr_allocated_queues hw_ex = 5" "nd_nr_allocated_queues hw_ex - 1 \<le> 0x7fffffff"
    by (simp_all add: hw_ex_def)
  have "negotiate hw_env_ex hw_ex = (0, 4, negotiated hw_env_ex 4 hw_ex)" by (rule negotiate_granted [OF f u(3) u(1), unfolded n])
  then show ?thesis using negotiated_ceiling_within_request [of hw_env_ex hw_ex] u by simp
qed

text \<open>C34. When nothing fails, the bring-up succeeds on its first round with exactly the kernel's share of the
  grant online: the cap if one is set and smaller than the grant, the whole grant otherwise; the grant itself is
  recorded as the ceiling for user QIDs. This is for a device without registered user queues, without queues in the
  controller memory buffer and without the single-vector quirk.\<close>

theorem s_nvme_setup_io_queues_share:
  assumes "bringup_pre e h" "good_env e" "\<not> nd_use_user_allocated h" "\<not> hw_cmb_use_sqes h"
    "\<And>c. he_set_features e c = (0, r)" "nd_nr_allocated_queues h - 1 \<le> 0x7fffffff"
    "nr = granted (nd_nr_allocated_queues h - 1) r" "nr \<noteq> 0"
    "db_bar_size h (kernel_share (nd_cap_kernel_ioq h) nr) \<le> he_bar0_len e"
  shows "\<exists>h'. s_nvme_setup_io_queues e ring h = Some (0, h') \<and>
    nd_online_queues h' = kernel_share (nd_cap_kernel_ioq h) nr + 1 \<and> nd_ctrl_max_io_queues h' = nr"
  using setup_io_queues_all [OF assms(1-8) refl assms(9), of ring] by blast

theorem s_nvme_setup_io_queues_share_witness:
  "\<exists>h'. s_nvme_setup_io_queues hw_env_ex (\<lambda>_ _. None) hw_ex = Some (0, h') \<and> nd_online_queues h' = 3 \<and> nd_ctrl_max_io_queues h' = 4"
proof -
  have n: "4 = granted (nd_nr_allocated_queues hw_ex - 1) 0x003f003f" "(4 :: u32) \<noteq> 0" by (simp_all add: granted_def hw_ex_def)
  have k: "kernel_share (nd_cap_kernel_ioq hw_ex) 4 = 2" by (simp add: kernel_share_def hw_ex_def)
  have g: "good_env hw_env_ex" by (simp add: good_env_def hw_env_ex_def)
  have b: "db_bar_size hw_ex (kernel_share (nd_cap_kernel_ioq hw_ex) 4) \<le> he_bar0_len hw_env_ex"
    unfolding k by (simp add: db_bar_size_def hw_ex_def hw_env_ex_def)
  have f: "he_set_features hw_env_ex c = (0, 0x003f003f)" for c by (simp add: hw_env_ex_def)
  have u: "\<not> nd_use_user_allocated hw_ex" "\<not> hw_cmb_use_sqes hw_ex" "nd_nr_allocated_queues hw_ex - 1 \<le> 0x7fffffff"
    by (simp_all add: hw_ex_def)
  show ?thesis using s_nvme_setup_io_queues_share [OF bringup_pre_ex g u(1,2) f u(3) n b, of "\<lambda>_ _. None"] unfolding k by simp
qed

text \<open>C35. If more user queues were registered before the bind than the controller leaves room for, the
  registration is turned down, but the number of queues the kernel then sets up is the whole grant, which exceeds
  the array \<open>nvme_probe\<close> allocated for its own queues: setting up that many writes past the end of the array.\<close>

theorem refused_registration_overruns_queues:
  assumes u: "nd_use_user_allocated h" and cap: "nd_cap_kernel_ioq h = 0"
    and l: "length (hw_queues h) = unat (nd_nr_allocated_queues h)" and q: "unat (hw_queue_count h) \<le> length (hw_queues h)"
    and cmb: "\<not> hw_cmb_use_sqes h" and d: "\<And>lg. he_dma_alloc e lg \<noteq> None"
    and f: "\<And>c. he_set_features e c = (0, r)" and g: "g = min (r AND 0xffff) (drop_bit 16 r) + 1"
    and na: "1 \<le> unat (nd_nr_allocated_queues h)" "nd_nr_allocated_queues h \<le> g" "g \<le> nd_nr_user_allocated_cq h"
    and big: "nd_nr_user_allocated_cq h \<le> 0x3fffffff" "nd_nr_allocated_queues h \<le> 0x3fffffff"
  shows "\<exists>h1. negotiate e h = (0, g, h1) \<and> \<not> nd_use_user_allocated h1 \<and> cap_kernel_share g h1 = g \<and>
    hw_overrun (snd (nvme_create_io_queues e (h1\<lparr>nd_max_qid := g\<rparr>)))"
proof -
  let ?A = "nd_nr_allocated_queues h" and ?U = "nd_nr_user_allocated_cq h"
  have a1: "unat (?A - 1) = unat ?A - 1" using unat_pred_u32 [OF na(1)] .
  have ab: "unat ?A \<le> 0x3fffffff" "unat ?U \<le> 0x3fffffff" "unat ?A \<le> unat g" "unat g \<le> unat ?U"
    using big na by (simp_all add: word_le_nat_alt)
  have s: "unat (?A - 1 + ?U) = unat ?A - 1 + unat ?U" using unat_plus_no_wrap [of "?A - 1" ?U] a1 ab by simp
  have c: "?A - 1 + ?U \<le> 0x7fffffff" "g \<le> ?A - 1 + ?U" using s ab by (simp_all add: word_le_nat_alt)
  have c3: "g \<le> ?U + (?A - 1)" using c(2) by (simp only: add.commute [of ?U])
  have gr: "granted (?A - 1 + ?U) r = g" unfolding granted_def g [symmetric] using c(2) by (simp add: min_absorb2)
  have n1: "\<not> g < ?A - 1" using a1 ab by (simp add: word_less_nat_alt)
  have g1: "unat (g - 1) = unat g - 1" using unat_pred_u32 [of g] ab na(1) by simp
  have n2: "g - 1 < ?U" using g1 ab na(1) by (simp add: word_less_nat_alt)
  let ?h1 = "(io_log (IoFeatures ((?A - 1 + ?U - 1) OR push_bit 16 (?A - 1 + ?U - 1)))
       (h\<lparr>nd_nr_write_queues := he_write_queues e, nd_nr_poll_queues := he_poll_queues e\<rparr>))
     \<lparr>nd_ctrl_max_io_queues := g, nd_use_user_allocated := False\<rparr>"
  have n: "negotiate e h = (0, g, ?h1)"
    using u cap n1 n2 c c3 by (simp add: negotiate_def Let_def set_queue_count_granted [OF f c(1)] gr io_log_def)
  moreover have "cap_kernel_share g ?h1 = g" using cap by (simp add: cap_kernel_share_def io_log_def)
  moreover have "hw_overrun (snd (nvme_create_io_queues e (?h1\<lparr>nd_max_qid := g\<rparr>)))"
    by (rule create_io_queues_overrun) (use q l ab cmb d in \<open>simp_all add: io_log_def\<close>)
  ultimately show ?thesis by fastforce
qed

text \<open>One possible CPU, so an array of two queues; two user completion queues were registered and the controller
  grants two queues in all.\<close>

definition hw_user_ex :: nvme_hw where
  "hw_user_ex = hw_ex\<lparr>nd_nr_allocated_queues := 2, hw_queues := [queue_ex\<lparr>kq_enabled := True\<rparr>, queue_ex], nd_cap_kernel_ioq := 0,
     nd_use_user_allocated := True, nd_nr_user_allocated_cq := 2, nd_nr_user_allocated_sq := 2\<rparr>"

definition hw_env_two :: hw_env where
  "hw_env_two = hw_env_ex\<lparr>he_set_features := (\<lambda>_. (0, 0x00010001))\<rparr>"

theorem refused_registration_overruns_queues_witness:
  "\<exists>h1. negotiate hw_env_two hw_user_ex = (0, 2, h1) \<and> hw_overrun (snd (nvme_create_io_queues hw_env_two (h1\<lparr>nd_max_qid := 2\<rparr>)))"
proof -
  have f: "he_set_features hw_env_two c = (0, 0x00010001)" "he_dma_alloc hw_env_two lg \<noteq> None" for c lg
    by (simp_all add: hw_env_two_def hw_env_ex_def)
  have g: "2 = min (0x00010001 AND 0xffff) (drop_bit 16 0x00010001) + (1 :: u32)" by simp
  have u: "nd_use_user_allocated hw_user_ex" "nd_cap_kernel_ioq hw_user_ex = 0"
    "length (hw_queues hw_user_ex) = unat (nd_nr_allocated_queues hw_user_ex)"
    "unat (hw_queue_count hw_user_ex) \<le> length (hw_queues hw_user_ex)" "\<not> hw_cmb_use_sqes hw_user_ex"
    "1 \<le> unat (nd_nr_allocated_queues hw_user_ex)" "nd_nr_allocated_queues hw_user_ex \<le> 2" "2 \<le> nd_nr_user_allocated_cq hw_user_ex"
    "nd_nr_user_allocated_cq hw_user_ex \<le> 0x3fffffff" "nd_nr_allocated_queues hw_user_ex \<le> 0x3fffffff"
    by (simp_all add: hw_user_ex_def hw_ex_def)
  show ?thesis using refused_registration_overruns_queues [OF u(1-5) f(2,1) g u(6-10)] by blast
qed

subsection \<open>Doorbells\<close>

lemma unat_ucast_u32 [simp]: "unat (ucast (x :: u32) :: u64) = unat x"
proof -
  have "unat x < 2 ^ 32" using unsigned_less [of x, where ?'a = nat] by simp
  then show ?thesis by (simp add: unsigned_ucast_eq take_bit_nat_eq_self)
qed

lemma unat_times_numeral:
  assumes "unat (a :: u32) * k < 2 ^ 32" "k < 2 ^ 32"
  shows "unat (a * of_nat k) = unat a * k"
  using unat_mult_no_wrap [of a "of_nat k"] assms by (simp add: unat_of_nat take_bit_nat_eq_self)

lemma doorbell_index:
  assumes b: "unat s * 8 * (unat n + 1) + 0x1000 < 2 ^ 32" and q: "q \<le> n" and s0: "s \<noteq> 0"
  shows "unat (sq_idx q s) = 2 * unat q * unat s" "unat (cq_idx q s) = (2 * unat q + 1) * unat s"
    "unat (0x1000 + (n + 1) * 8 * s) = 0x1000 + (unat n + 1) * 8 * unat s"
proof -
  have s1: "1 \<le> unat s" using s0 by (metis One_nat_def Suc_leI neq0_conv unat_eq_zero)
  have qn: "unat q \<le> unat n" using q by (simp add: word_le_nat_alt)
  have bn: "8 * (unat n + 1) \<le> unat s * 8 * (unat n + 1)"
    using mult_le_mono1 [OF s1, of "8 * (unat n + 1)"] by (simp only: mult.assoc mult_1)
  have "2 * unat q + 1 \<le> 8 * (unat n + 1)" using qn by simp
  then have bs: "(2 * unat q + 1) * unat s \<le> unat s * 8 * (unat n + 1)" 
    using mult_le_mono1 [of "2 * unat q + 1" "8 * (unat n + 1)" "unat s"] by (simp only: ac_simps)
  have q2: "unat (q * 2) = 2 * unat q" using unat_times_numeral [of q 2] qn bn b by simp
  have q21: "unat (q * 2 + 1) = 2 * unat q + 1" using unat_plus_no_wrap [of "q * 2" 1] q2 qn bn b by simp
  show "unat (sq_idx q s) = 2 * unat q * unat s" unfolding sq_idx_def
    using unat_mult_no_wrap [of "q * 2" s] q2 bs b by simp
  show "unat (cq_idx q s) = (2 * unat q + 1) * unat s" unfolding cq_idx_def
    using unat_mult_no_wrap [of "q * 2 + 1" s] q21 bs b by simp
  have n1: "unat (n + 1) = unat n + 1" using unat_plus_no_wrap [of n 1] bn b by simp
  have n8: "unat ((n + 1) * 8) = (unat n + 1) * 8" using unat_times_numeral [of "n + 1" 8] n1 bn b by simp
  have ns: "unat ((n + 1) * 8 * s) = (unat n + 1) * 8 * unat s"
    using unat_mult_no_wrap [of "(n + 1) * 8" s] n8 b by (simp add: mult.commute mult.left_commute)
  show "unat (0x1000 + (n + 1) * 8 * s) = 0x1000 + (unat n + 1) * 8 * unat s"
    using unat_plus_no_wrap [of "0x1000" "(n + 1) * 8 * s"] ns b by (simp add: mult.commute mult.left_commute)
qed

text \<open>C37. The doorbells of all queues up to \<open>n\<close> lie within the register range the driver maps for \<open>n\<close> queues, and
  no two of them are the same: a queue's completion doorbell lies above its submission doorbell and below the
  doorbells of every later queue. Indices count 4-byte registers from offset 0x1000 of the BAR.\<close>

theorem doorbells_disjoint_and_mapped:
  assumes "unat (nd_db_stride h) * 8 * (unat n + 1) + 0x1000 < 2 ^ 32" "nd_db_stride h \<noteq> 0" "q \<le> n" "q' \<le> n"
  shows "0x1000 + 4 * unat (cq_idx q (nd_db_stride h)) + 4 \<le> unat (db_bar_size h n) \<and>
    sq_idx q (nd_db_stride h) < cq_idx q (nd_db_stride h) \<and>
    (q < q' \<longrightarrow> cq_idx q (nd_db_stride h) < sq_idx q' (nd_db_stride h))"
proof -
  let ?s = "nd_db_stride h"
  have s1: "1 \<le> unat ?s" using assms(2) by (metis One_nat_def Suc_leI neq0_conv unat_eq_zero)
  note q = doorbell_index [OF assms(1,3,2)] and q' = doorbell_index [OF assms(1,4,2)]
  have "unat (ucast (0x1000 + (n + 1) * 8 * ?s :: u32) :: u64) = 0x1000 + (unat n + 1) * 8 * unat ?s"
    using q(3) unat_ucast_u32 [of "0x1000 + (n + 1) * 8 * ?s"] by metis
  then have sz: "unat (db_bar_size h n) = 0x1000 + (unat n + 1) * 8 * unat ?s" unfolding db_bar_size_def .
  have qn: "unat q \<le> unat n" using assms(3) by (simp add: word_le_nat_alt)
  have "(2 * unat q + 1) * unat ?s + unat ?s \<le> (2 * unat n + 2) * unat ?s" using qn by (simp add: algebra_simps mult_le_mono1)
  moreover have "(unat n + 1) * 8 * unat ?s = 4 * ((2 * unat n + 2) * unat ?s)" by (simp add: algebra_simps)
  ultimately have "4 * ((2 * unat q + 1) * unat ?s) + 4 \<le> (unat n + 1) * 8 * unat ?s" using s1 by linarith
  moreover have "sq_idx q ?s < cq_idx q ?s" using q(1,2) s1 by (simp add: word_less_nat_alt)
  moreover have "cq_idx q ?s < sq_idx q' ?s" if "q < q'"
  proof -
    have "2 * unat q + 1 < 2 * unat q'" using that by (simp add: word_less_nat_alt)
    then have "(2 * unat q + 1) * unat ?s < 2 * unat q' * unat ?s" using s1 by (intro mult_less_mono1) simp_all
    then show ?thesis using q(2) q'(1) by (simp add: word_less_nat_alt)
  qed
  ultimately show ?thesis using sz q(2) by simp
qed

theorem doorbells_disjoint_and_mapped_witness:
  "0x1000 + 4 * unat (cq_idx 4 (nd_db_stride hw_ex)) + 4 \<le> unat (db_bar_size hw_ex 4) \<and> cq_idx 3 (nd_db_stride hw_ex) < sq_idx 4 (nd_db_stride hw_ex)"
proof -
  have s: "unat (nd_db_stride hw_ex) * 8 * (unat (4 :: u32) + 1) + 0x1000 < 2 ^ 32" "nd_db_stride hw_ex \<noteq> 0" by (simp_all add: hw_ex_def)
  show ?thesis using doorbells_disjoint_and_mapped [OF s, of 4 4] doorbells_disjoint_and_mapped [OF s, of 3 4] by simp
qed

end
