(* ===== verification/Map_Accounting.thy ===== *)
theory Map_Accounting
  imports Map_Mem
begin

text \<open>
  Resource accounting for mapping descriptors. A resource (a pinned page, a reference to a
  dma-buf, an IOMMU mapping of a bus address) is acquired and returned by events of the log,
  and a descriptor holds some units of it. The locale \<open>resource_accounting\<close> states what a
  resource has to satisfy: a fresh descriptor holds nothing, releasing a descriptor returns
  exactly what it holds, and a builder that stops half-way has recorded in its descriptor
  everything it acquired. Its lemmas show that the balance of the log equals what the live
  descriptors hold after every operation of \<open>map.c\<close>. It is interpreted three times.
\<close>

definition log_sum :: "(kevent \<Rightarrow> int) \<Rightarrow> kevent list \<Rightarrow> int" where
  "log_sum delta evs = sum_list (map delta evs)"

lemma log_sum_simps [simp]:
  "log_sum d [] = 0" "log_sum d (x # xs) = d x + log_sum d xs" "log_sum d (xs @ ys) = log_sum d xs + log_sum d ys"
  by (simp_all add: log_sum_def)

lemma log_sum_0: "\<forall>ev \<in> set evs. d ev = 0 \<Longrightarrow> log_sum d evs = 0"
  by (induction evs) auto

definition builders :: "(kenv \<Rightarrow> mid \<Rightarrow> kst \<Rightarrow> int \<times> kst) set" where
  "builders = {map_user_pages, map_gpu_memory, map_gpu_ioqueue_memory}"

lemma builders_touching: "b \<in> builders \<Longrightarrow> touching (b e)"
  using touching_builders by (auto simp: builders_def)

text \<open>The fields of a descriptor that do not describe held resources.\<close>

definition same_resources :: "kmap \<Rightarrow> kmap \<Rightarrow> bool" where
  "same_resources md md' \<longleftrightarrow> map_data md' = map_data md \<and> map_release md' = map_release md \<and>
     map_pdev md' = map_pdev md \<and> map_n_addrs md' = map_n_addrs md \<and> map_addrs md' = map_addrs md"

definition blank :: "kmap \<Rightarrow> bool" where
  "blank md \<longleftrightarrow> map_data md = None \<and> map_release md = None \<and> length (map_addrs md) = map_n_addrs md"

lemma fresh_map_blank [simp]: "blank (fresh_map e c va psz n)"
  by (simp add: blank_def fresh_map_def)

text \<open>The log balances what the live descriptors hold.\<close>

definition accounted :: "(kevent \<Rightarrow> int) \<Rightarrow> (kmap \<Rightarrow> int) \<Rightarrow> (kmap \<Rightarrow> bool) \<Rightarrow> kst \<Rightarrow> bool" where
  "accounted delta held ok s \<longleftrightarrow> (\<forall>m \<in> dom (k_maps s). ok (get_map s m)) \<and>
     log_sum delta (k_log s) = (\<Sum>m \<in> dom (k_maps s). held (get_map s m))"

locale resource_accounting =
  fixes delta :: "kevent \<Rightarrow> int" and held :: "kmap \<Rightarrow> int" and ok :: "kmap \<Rightarrow> bool"
    and env_ok :: "kenv \<Rightarrow> bool"
  assumes release: "ok md \<Longrightarrow> log_sum delta (release_events n md) = - held md"
    and build: "env_ok e \<Longrightarrow> b \<in> builders \<Longrightarrow> k_maps s m = Some md \<Longrightarrow> blank md \<Longrightarrow> b e m s = (err, s') \<Longrightarrow>
      ok (get_map s' m) \<and> log_sum delta (k_log s') = log_sum delta (k_log s) + held (get_map s' m)"
    and retag: "same_resources md md' \<Longrightarrow> ok md' = ok md \<and> held md' = held md"
    and admin: "delta (EvAdmin pd c r) = 0"
begin

lemma accounted_none_held:
  "accounted delta held ok s \<Longrightarrow> dom (k_maps s) = {} \<Longrightarrow> log_sum delta (k_log s) = 0"
  by (simp add: accounted_def)

lemma accounted_cong:
  "k_maps s' = k_maps s \<Longrightarrow> k_log s' = k_log s @ evs \<Longrightarrow> \<forall>ev \<in> set evs. delta ev = 0 \<Longrightarrow>
   accounted delta held ok s' = accounted delta held ok s"
  by (simp add: accounted_def get_map_def log_sum_0)

lemma accounted_unmap:
  assumes "accounted delta held ok s" "finite (dom (k_maps s))" "k_maps s m \<noteq> None"
  shows "accounted delta held ok (unmap_and_release m s)"
proof -
  let ?s = "unmap_and_release m s"
  have md: "m \<in> dom (k_maps s)" using assms(3) by (simp add: dom_def)
  have d: "dom (k_maps ?s) = dom (k_maps s) - {m}" by simp
  have g: "get_map ?s x = get_map s x" if "x \<in> dom (k_maps s) - {m}" for x
    using that by simp
  have "log_sum delta (k_log ?s) = (\<Sum>x \<in> dom (k_maps s). held (get_map s x)) - held (get_map s m)"
    using assms(1) md release [of "get_map s m"] by (auto simp: accounted_def)
  also have "\<dots> = (\<Sum>x \<in> dom (k_maps s) - {m}. held (get_map s x))"
    using sum.remove [OF assms(2) md, of "\<lambda>x. held (get_map s x)"] by simp
  also have "\<dots> = (\<Sum>x \<in> dom (k_maps ?s). held (get_map ?s x))"
    unfolding d using g by (intro sum.cong) auto
  finally show ?thesis using assms(1) g unfolding accounted_def d by (auto simp: g)
qed

lemma accounted_fold_unmap:
  assumes "accounted delta held ok s" "maps_wf s" "distinct ms" "set ms \<subseteq> dom (k_maps s)"
  shows "accounted delta held ok (fold unmap_and_release ms s)"
  using assms
proof (induction ms arbitrary: s)
  case (Cons m ms)
  have "accounted delta held ok (unmap_and_release m s)"
    using Cons.prems by (intro accounted_unmap maps_wf_finite) auto
  moreover have "maps_wf (unmap_and_release m s)" using Cons.prems by (intro unmap_and_release_wf)
  ultimately show ?case using Cons by (auto intro!: Cons.IH)
qed simp

lemma accounted_retag:
  assumes "accounted delta held ok s" "k_maps s m \<noteq> None" "same_resources (get_map s m) (f (get_map s m))"
  shows "accounted delta held ok (set_map m f s)"
proof -
  have d: "dom (k_maps (set_map m f s)) = dom (k_maps s)" using assms(2) by auto
  have "ok (get_map (set_map m f s) x) = ok (get_map s x) \<and> held (get_map (set_map m f s) x) = held (get_map s x)" for x
    using retag [OF assms(3)] by simp
  then show ?thesis using assms(1) unfolding accounted_def d by simp
qed

lemma accounted_map_pattern:
  assumes "accounted delta held ok s" "maps_wf s" "env_ok e" "b \<in> builders"
    "map_pattern b l psz e c va n s = (r, s')"
  shows "accounted delta held ok s'"
proof (cases "n < 1 \<or> \<not> kmalloc_ok e A_map")
  case True
  then show ?thesis using assms(1,5) by (auto simp: map_pattern_unfold split: if_splits)
next
  case False
  let ?m = "k_next_mid s"
  let ?s2 = "with_map ?m (fresh_map e c va psz n) s"
  obtain err s3 where b: "b e ?m ?s2 = (err, s3)" by fastforce
  have m2: "k_maps ?s2 ?m = Some (fresh_map e c va psz n)" by (simp add: with_map_def)
  note bd = build [OF assms(3,4) m2 fresh_map_blank b]
  note t = touches_frame [OF touchingD [OF builders_touching [OF assms(4)] b]]
  have fin: "finite (dom (k_maps s))" using maps_wf_finite [OF assms(2)] .
  have new: "?m \<notin> dom (k_maps s)" using maps_wf_fresh(1) [OF assms(2)] by (simp add: domIff)
  have d3: "dom (k_maps s3) = insert ?m (dom (k_maps s))" using t(14) m2 by (simp add: with_map_def)
  have g3: "get_map s3 x = get_map s x" if "x \<in> dom (k_maps s)" for x
  proof -
    have "x \<noteq> ?m" using that new by auto
    then show ?thesis using t(13) by (simp add: get_map_def with_map_def)
  qed
  have "log_sum delta (k_log s3) = held (get_map s3 ?m) + (\<Sum>x \<in> dom (k_maps s). held (get_map s x))"
    using bd assms(1) by (simp add: accounted_def with_map_def)
  also have "\<dots> = held (get_map s3 ?m) + (\<Sum>x \<in> dom (k_maps s). held (get_map s3 x))"
    using g3 by (auto intro!: sum.cong)
  also have "\<dots> = (\<Sum>x \<in> dom (k_maps s3). held (get_map s3 x))" using fin new by (simp add: d3)
  finally have a3: "accounted delta held ok s3" using bd assms(1) g3 by (auto simp: accounted_def d3)
  show ?thesis
  proof (cases "err = 0")
    case True
    then have "s' = insert_list l ?m s3" using assms(5) False b by (auto simp: map_pattern_unfold Let_def)
    then show ?thesis using a3 by (simp add: accounted_def)
  next
    case 2: False
    then have "s' = unmap_and_release ?m s3" using assms(5) False b by (auto simp: map_pattern_unfold Let_def)
    then show ?thesis using a3 d3 fin by (auto intro!: accounted_unmap)
  qed
qed

lemma accounted_map_userspace:
  "accounted delta held ok s \<Longrightarrow> maps_wf s \<Longrightarrow> env_ok e \<Longrightarrow> map_userspace e c va n s = (r, s') \<Longrightarrow> accounted delta held ok s'"
  unfolding map_patterns by (rule accounted_map_pattern) (auto simp: builders_def)

lemma accounted_map_device_memory:
  "accounted delta held ok s \<Longrightarrow> maps_wf s \<Longrightarrow> env_ok e \<Longrightarrow> map_device_memory e c va n s = (r, s') \<Longrightarrow> accounted delta held ok s'"
  unfolding map_patterns by (rule accounted_map_pattern) (auto simp: builders_def)

lemma accounted_map_device_ioqueue_memory:
  "accounted delta held ok s \<Longrightarrow> maps_wf s \<Longrightarrow> env_ok e \<Longrightarrow> map_device_ioqueue_memory e c va n s = (r, s') \<Longrightarrow> accounted delta held ok s'"
  unfolding map_patterns by (rule accounted_map_pattern) (auto simp: builders_def)

lemma accounted_purge:
  assumes "accounted delta held ok s" "maps_wf s"
  shows "accounted delta held ok (snd (map_purge_by_owner l owner s))"
  using accounted_fold_unmap [OF assms] maps_wf_distinct [OF assms(2), of l] maps_wf_list_live [OF assms(2), of _ l]
  by (simp add: map_purge_by_owner_eq Let_def subset_iff domIff)

end

subsection \<open>What the builders do to their descriptor\<close>

lemma dma_map_loop_effect:
  assumes "dma_map_loop e m i pgs s = (err, s')"
  shows "\<exists>as evs. get_map s' m = (get_map s m)\<lparr>map_addrs := as\<rparr> \<and> length as = length (map_addrs (get_map s m)) \<and>
    k_log s' = k_log s @ evs \<and> (\<forall>ev \<in> set evs. \<exists>pd pg a. ev = EvDmaMap pd pg a)"
  using assms
proof (induction pgs arbitrary: i s)
  case Nil
  then show ?case by (intro exI [of _ "map_addrs (get_map s m)"] exI [of _ "[]"]) simp
next
  case (Cons pg pgs)
  let ?pd = "map_pdev (get_map s m)" and ?a = "dma_map_page e (k_log s) (map_pdev (get_map s m)) pg"
  let ?s1 = "set_map m (\<lambda>md. md\<lparr>map_addrs := (map_addrs md)[i := ?a]\<rparr>) s"
  show ?case
  proof (cases "dma_mapping_error e ?pd ?a = 0")
    case True
    then have "dma_map_loop e m (Suc i) pgs (log_event (EvDmaMap ?pd pg ?a) ?s1) = (err, s')"
      using Cons.prems by (simp add: Let_def)
    from Cons.IH [OF this] obtain as evs where "get_map s' m = (get_map (log_event (EvDmaMap ?pd pg ?a) ?s1) m)\<lparr>map_addrs := as\<rparr>"
      "length as = length (map_addrs (get_map (log_event (EvDmaMap ?pd pg ?a) ?s1) m))"
      "k_log s' = k_log (log_event (EvDmaMap ?pd pg ?a) ?s1) @ evs" "\<forall>ev \<in> set evs. \<exists>pd pg a. ev = EvDmaMap pd pg a"
      by blast
    then show ?thesis by (intro exI [of _ as] exI [of _ "EvDmaMap ?pd pg ?a # evs"]) auto
  next
    case False
    then have "s' = ?s1" using Cons.prems by (simp add: Let_def)
    then show ?thesis by (intro exI [of _ "(map_addrs (get_map s m))[i := ?a]"] exI [of _ "[]"]) simp
  qed
qed

text \<open>Without IOMMU failures the loop succeeds, and the logged mappings are the recorded addresses.\<close>

lemma dma_map_loop_total:
  assumes "dma_map_loop e m i pgs s = (err, s')" "\<forall>pd a. dma_mapping_error e pd a = 0"
    "i + length pgs \<le> length (map_addrs (get_map s m))"
  shows "err = 0 \<and> (\<exists>as. length as = length pgs \<and>
    get_map s' m = (get_map s m)\<lparr>map_addrs := take i (map_addrs (get_map s m)) @ as @ drop (i + length pgs) (map_addrs (get_map s m))\<rparr> \<and>
    k_log s' = k_log s @ map2 (EvDmaMap (map_pdev (get_map s m))) pgs as)"
  using assms(1,3)
proof (induction pgs arbitrary: i s)
  case Nil
  then show ?case by simp
next
  case (Cons pg pgs)
  let ?md = "get_map s m"
  let ?a = "dma_map_page e (k_log s) (map_pdev ?md) pg"
  let ?t = "log_event (EvDmaMap (map_pdev ?md) pg ?a) (set_map m (\<lambda>md. md\<lparr>map_addrs := (map_addrs md)[i := ?a]\<rparr>) s)"
  have r: "dma_map_loop e m (Suc i) pgs ?t = (err, s')" using Cons.prems(1) assms(2) by (simp add: Let_def)
  have b: "Suc i + length pgs \<le> length (map_addrs (get_map ?t m))" using Cons.prems(2) by simp
  from Cons.IH [OF r b] obtain as where e: "err = 0" and as: "length as = length pgs"
    "get_map s' m = (get_map ?t m)\<lparr>map_addrs := take (Suc i) (map_addrs (get_map ?t m)) @ as @ drop (Suc i + length pgs) (map_addrs (get_map ?t m))\<rparr>"
    "k_log s' = k_log ?t @ map2 (EvDmaMap (map_pdev (get_map ?t m))) pgs as" by blast
  have "take (Suc i) ((map_addrs ?md)[i := ?a]) = take i (map_addrs ?md) @ [?a]"
    using Cons.prems(2) by (simp add: take_Suc_conv_app_nth)
  moreover have "drop (Suc i + length pgs) ((map_addrs ?md)[i := ?a]) = drop (Suc i + length pgs) (map_addrs ?md)"
    by simp
  ultimately show ?case using e as by (intro conjI exI [of _ "?a # as"]) auto
qed

lemma map_user_pages_cases:
  assumes "map_user_pages e m s = (err, s')"
  obtains "s' = s" "err \<noteq> 0 \<or> (\<exists>ps. get_user_pages e (k_log s) (map_vaddr (get_map s m)) (map_n_addrs (get_map s m)) = (0, ps))"
  | retval pages where "get_user_pages e (k_log s) (map_vaddr (get_map s m)) (map_n_addrs (get_map s m)) = (retval, pages)"
      "0 < retval"
      "dma_map_loop e m 0 pages (set_map m (\<lambda>md. md\<lparr>map_n_addrs := nat retval, map_page_size := PAGE_SIZE,
         map_data := Some (HostPages pages), map_release := Some Release_user_pages\<rparr>)
         (log_events (map EvPinPage pages) s)) = (err, s')"
  using assms
  by (cases "get_user_pages e (k_log s) (map_vaddr (get_map s m)) (map_n_addrs (get_map s m))")
    (auto simp: map_user_pages_def Let_def split: if_splits)

fun attach_event :: "kevent \<Rightarrow> bool" where
  "attach_event (EvAttach pd b a) = True"
| "attach_event (EvMapSg a) = True"
| "attach_event (EvUnmapSg a) = True"
| "attach_event (EvDetach a) = True"
| "attach_event _ = False"

lemma attach_events_intros:
  "\<exists>evs. s = log_events evs s \<and> (\<forall>ev \<in> set evs. attach_event ev)"
  "\<forall>ev \<in> set xs. attach_event ev \<Longrightarrow> \<exists>evs. log_events xs s = log_events evs s \<and> (\<forall>ev \<in> set evs. attach_event ev)"
  by (rule exI [of _ "[]"], simp) blast

lemma dma_map_pages_effect:
  "nvfs_nvidia_p2p_dma_map_pages e peer pt s = (err, dm, s') \<Longrightarrow>
   \<exists>evs. s' = log_events evs s \<and> (\<forall>ev \<in> set evs. attach_event ev)"
  unfolding nvfs_nvidia_p2p_dma_map_pages_def Let_def
  by (auto simp: log_event_eq log_events_add split: option.splits if_splits sum.splits intro!: attach_events_intros)

lemma get_pages_effect:
  assumes "nvfs_nvidia_p2p_get_pages e va len s = (err, pt, s')"
  shows "s' = log_events (case pt of None \<Rightarrow> [] | Some p \<Rightarrow> [EvDmaBufGet (pt_dmabuf p)]) s"
    "err \<noteq> 0 \<Longrightarrow> pt = None"
  using assms by (auto simp: nvfs_nvidia_p2p_get_pages_def Let_def log_event_eq split: if_splits sum.splits)

definition gpu_region_of :: "kst \<Rightarrow> mid \<Rightarrow> gpu_region option" where
  "gpu_region_of s m = (case map_data (get_map s m) of Some (GpuRegion gd) \<Rightarrow> Some gd | _ \<Rightarrow> None)"

lemma gpu_region_of_simps [simp]:
  "gpu_region_of (log_events evs s) m = gpu_region_of s m"
  "gpu_region_of (copy_dma_addresses m dm s) m = gpu_region_of s m"
  "gpu_region_of (set_gpu_region m f s) m = map_option f (gpu_region_of s m)"
  "gpu_region_of (set_map m (map_n_addrs_update g) s) m = gpu_region_of s m"
  by (auto simp: gpu_region_of_def copy_dma_addresses_def set_gpu_region_def split: option.splits map_data.splits)

lemma gpu_release_simps [simp]:
  "map_release (get_map (copy_dma_addresses m dm s) m) = map_release (get_map s m)"
  "map_release (get_map (set_gpu_region m f s) m) = map_release (get_map s m)"
  "k_log (copy_dma_addresses m dm s) = k_log s" "k_log (set_gpu_region m f s) = k_log s"
  by (auto simp: copy_dma_addresses_def set_gpu_region_def split: option.splits map_data.splits)

definition gpu_held :: "kst \<Rightarrow> mid \<Rightarrow> p2p_page_table option \<Rightarrow> release_fn \<Rightarrow> bool" where
  "gpu_held s m pt r \<longleftrightarrow> (\<exists>gd. gpu_region_of s m = Some gd \<and> gr_pages gd = pt) \<and> map_release (get_map s m) = Some r"

lemma gpu_held_simps [simp]:
  "gpu_held s m pt r \<Longrightarrow> gpu_held (log_events evs s) m pt r"
  "gpu_held s m pt r \<Longrightarrow> gpu_held (copy_dma_addresses m dm s) m pt r"
  "gpu_held s m pt r \<Longrightarrow> gpu_held (set_gpu_region m (gr_mappings_update f) s) m pt r"
  "gpu_held s m pt r \<Longrightarrow> gpu_held (set_map m (map_n_addrs_update g) s) m pt r"
  "gpu_held s m pt r \<Longrightarrow> gpu_held (set_gpu_region m (gr_pages_update (\<lambda>_. pt')) s) m pt' r"
  by (auto simp: gpu_held_def)

lemma gpu_map_loop_effect:
  assumes "gpu_map_loop e m pt cs j s = (err, s')" "gpu_held s m pt' r"
  shows "gpu_held s' m pt' r \<and> (\<exists>evs. k_log s' = k_log s @ evs \<and> (\<forall>ev \<in> set evs. attach_event ev))"
  using assms
proof (induction cs arbitrary: j s)
  case (Cons c cs)
  obtain err1 dm s1 where d: "nvfs_nvidia_p2p_dma_map_pages e (ctrl_pdev (the (k_ctrls s c))) pt s = (err1, dm, s1)"
    by (metis prod_cases3)
  then obtain evs where s1: "s1 = log_events evs s" "\<forall>ev \<in> set evs. attach_event ev"
    using dma_map_pages_effect by blast
  let ?s2 = "set_gpu_region m (gr_mappings_update (\<lambda>ms. ms[j := dm])) s1"
  let ?s3 = "if Suc j = 1 then copy_dma_addresses m (the dm) ?s2 else ?s2"
  have h1: "gpu_held s1 m pt' r" "gpu_held ?s3 m pt' r" using Cons.prems(2) s1 by auto
  show ?case
  proof (cases "err1 = 0")
    case True
    then have "gpu_map_loop e m pt cs (Suc j) ?s3 = (err, s')" using Cons.prems(1) d by (simp add: Let_def)
    from Cons.IH [OF this h1(2)] obtain evs' where
      "gpu_held s' m pt' r" "k_log s' = k_log ?s3 @ evs'" "\<forall>ev \<in> set evs'. attach_event ev" by blast
    then show ?thesis using s1 by (intro conjI exI [of _ "evs @ evs'"]) auto
  next
    case False
    then show ?thesis using Cons.prems(1) d s1 h1(1) by auto
  qed
qed auto

definition gpu_built :: "kst \<Rightarrow> kst \<Rightarrow> mid \<Rightarrow> bool" where
  "gpu_built s s' m \<longleftrightarrow> (\<exists>pt r evs. gpu_held s' m pt r \<and> r \<noteq> Release_user_pages \<and>
     k_log s' = k_log s @ (case pt of None \<Rightarrow> [] | Some p \<Rightarrow> [EvDmaBufGet (pt_dmabuf p)]) @ evs \<and>
     (\<forall>ev \<in> set evs. attach_event ev))"

lemma map_gpu_memory_effect:
  assumes "map_gpu_memory e m s = (err, s')" shows "s' = s \<or> gpu_built s s' m"
proof (cases "kmalloc_ok e A_gpu_region \<and> kmalloc_ok e A_mappings")
  case True
  let ?gd = "\<lparr>gr_pages = None, gr_mappings = replicate max_num_ctrls None\<rparr>"
  let ?s1 = "set_map m (\<lambda>md. md\<lparr>map_page_size := GPU_PAGE_SIZE, map_data := Some (GpuRegion ?gd),
                   map_release := Some Release_gpu_memory\<rparr>) s"
  let ?md = "get_map ?s1 m"
  obtain err2 pt s2 where g: "nvfs_nvidia_p2p_get_pages e (map_vaddr ?md) (GPU_PAGE_SIZE * of_nat (map_n_addrs ?md)) ?s1 = (err2, pt, s2)"
    by (metis prod_cases3)
  let ?s3 = "set_gpu_region m (gr_pages_update (\<lambda>_. pt)) s2"
  obtain err4 s4 where l: "gpu_map_loop e m pt (k_ctrl_list ?s3) 0 ?s3 = (err4, s4)" by fastforce
  have h1: "gpu_held ?s1 m None Release_gpu_memory" by (simp add: gpu_held_def gpu_region_of_def)
  note s2 = get_pages_effect [OF g]
  have h2: "gpu_held s2 m None Release_gpu_memory" using h1 s2(1) by simp
  then have h3: "gpu_held ?s3 m pt Release_gpu_memory" by simp
  from gpu_map_loop_effect [OF l h3] obtain evs where h4: "gpu_held s4 m pt Release_gpu_memory"
    "k_log s4 = k_log ?s3 @ evs" "\<forall>ev \<in> set evs. attach_event ev" by blast
  have b4: "gpu_built s s4 m" unfolding gpu_built_def
    by (rule exI [of _ pt], rule exI [of _ Release_gpu_memory], rule exI [of _ evs]) (use h4 s2 in simp)
  then have b5: "gpu_built s (set_map m (map_n_addrs_update (\<lambda>_. pt_entries (the pt))) s4) m"
    unfolding gpu_built_def by simp (metis gpu_held_simps(4))
  have b2: "gpu_built s s2 m" if "err2 \<noteq> 0" unfolding gpu_built_def
    by (rule exI [of _ None], rule exI [of _ Release_gpu_memory], rule exI [of _ "[]"]) (use h2 s2 that in simp)
  have "err2 \<noteq> 0 \<and> s' = s2 \<or> s' = s4 \<or> s' = set_map m (map_n_addrs_update (\<lambda>_. pt_entries (the pt))) s4"
    using assms True g l unfolding map_gpu_memory_def Let_def by (simp split: if_splits)
  then show ?thesis using b2 b4 b5 by auto
next
  case False
  then show ?thesis using assms by (auto simp: map_gpu_memory_def split: if_splits)
qed

lemma map_gpu_ioqueue_memory_effect:
  assumes "map_gpu_ioqueue_memory e m s = (err, s')" shows "s' = s \<or> gpu_built s s' m"
proof (cases "kmalloc_ok e A_gpu_region \<and> kmalloc_ok e A_mappings")
  case True
  let ?gd = "\<lparr>gr_pages = None, gr_mappings = [uninit_mapping e]\<rparr>"
  let ?s1 = "set_map m (\<lambda>md. md\<lparr>map_page_size := GPU_PAGE_SIZE, map_data := Some (GpuRegion ?gd),
                   map_release := Some Release_gpu_ioqueue_memory\<rparr>) s"
  let ?md = "get_map ?s1 m"
  obtain err2 pt s2 where g: "nvfs_nvidia_p2p_get_pages e (map_vaddr ?md) (GPU_PAGE_SIZE * of_nat (map_n_addrs ?md)) ?s1 = (err2, pt, s2)"
    by (metis prod_cases3)
  let ?s3 = "set_gpu_region m (gr_pages_update (\<lambda>_. pt)) s2"
  obtain err4 dm s4 where l: "nvfs_nvidia_p2p_dma_map_pages e (map_pdev ?md) pt ?s3 = (err4, dm, s4)" by (metis prod_cases3)
  let ?s6 = "copy_dma_addresses m (the dm) (set_gpu_region m (gr_mappings_update (\<lambda>ms. ms[0 := dm])) s4)"
  have h1: "gpu_held ?s1 m None Release_gpu_ioqueue_memory" by (simp add: gpu_held_def gpu_region_of_def)
  note s2 = get_pages_effect [OF g]
  have h2: "gpu_held s2 m None Release_gpu_ioqueue_memory" using h1 s2(1) by simp
  then have h3: "gpu_held ?s3 m pt Release_gpu_ioqueue_memory" by simp
  obtain evs where s4: "s4 = log_events evs ?s3" "\<forall>ev \<in> set evs. attach_event ev"
    using dma_map_pages_effect [OF l] by blast
  have h4: "gpu_held s4 m pt Release_gpu_ioqueue_memory" using h3 s4 by simp
  have b4: "gpu_built s s4 m" unfolding gpu_built_def
    by (rule exI [of _ pt], rule exI [of _ Release_gpu_ioqueue_memory], rule exI [of _ evs]) (use h4 s2 s4 in simp)
  then have b5: "gpu_built s (set_map m (map_n_addrs_update (\<lambda>_. pt_entries (the pt))) ?s6) m"
    unfolding gpu_built_def by simp (metis gpu_held_simps(2,3,4))
  have b2: "gpu_built s s2 m" if "err2 \<noteq> 0" unfolding gpu_built_def
    by (rule exI [of _ None], rule exI [of _ Release_gpu_ioqueue_memory], rule exI [of _ "[]"]) (use h2 s2 that in simp)
  have "err2 \<noteq> 0 \<and> s' = s2 \<or> s' = s4 \<or> s' = set_map m (map_n_addrs_update (\<lambda>_. pt_entries (the pt))) ?s6"
    using assms True g l unfolding map_gpu_ioqueue_memory_def Let_def by (simp split: if_splits)
  then show ?thesis using b2 b4 b5 by auto
next
  case False
  then show ?thesis using assms by (auto simp: map_gpu_ioqueue_memory_def split: if_splits)
qed

subsection \<open>Pinned pages, dma-buf references, IOMMU mappings\<close>

definition host_pages :: "kmap \<Rightarrow> page list" where
  "host_pages md = (case map_data md of Some (HostPages ps) \<Rightarrow> ps | _ \<Rightarrow> [])"

definition data_ok :: "kmap \<Rightarrow> bool" where
  "data_ok md \<longleftrightarrow> (case map_data md of None \<Rightarrow> True
     | Some (HostPages ps) \<Rightarrow> map_release md = Some Release_user_pages \<and> length ps = map_n_addrs md
     | Some (GpuRegion gd) \<Rightarrow> map_release md = Some Release_gpu_memory \<or> map_release md = Some Release_gpu_ioqueue_memory)"

fun pin_delta :: "page \<Rightarrow> kevent \<Rightarrow> int" where
  "pin_delta p (EvPinPage q) = (if q = p then 1 else 0)"
| "pin_delta p (EvPutPage q) = (if q = p then -1 else 0)"
| "pin_delta p _ = 0"

fun buf_delta :: "nat \<Rightarrow> kevent \<Rightarrow> int" where
  "buf_delta b (EvDmaBufGet c) = (if c = b then 1 else 0)"
| "buf_delta b (EvDmaBufPut c) = (if c = b then -1 else 0)"
| "buf_delta b _ = 0"

fun iommu_delta :: "pdev \<Rightarrow> u64 \<Rightarrow> kevent \<Rightarrow> int" where
  "iommu_delta pd a (EvDmaMap pd' pg a') = (if pd' = pd \<and> a' = a then 1 else 0)"
| "iommu_delta pd a (EvDmaUnmap pd' a') = (if pd' = pd \<and> a' = a then -1 else 0)"
| "iommu_delta pd a _ = 0"

definition pins_held :: "page \<Rightarrow> kmap \<Rightarrow> int" where
  "pins_held p md = int (count_list (host_pages md) p)"

definition buf_of :: "kmap \<Rightarrow> nat option" where
  "buf_of md = (case map_data md of Some (GpuRegion gd) \<Rightarrow> map_option pt_dmabuf (gr_pages gd) | _ \<Rightarrow> None)"

definition bufs_held :: "nat \<Rightarrow> kmap \<Rightarrow> int" where
  "bufs_held b md = (if buf_of md = Some b then 1 else 0)"

definition iommu_held :: "pdev \<Rightarrow> u64 \<Rightarrow> kmap \<Rightarrow> int" where
  "iommu_held pd a md = (if map_pdev md = pd \<and> (\<exists>ps. map_data md = Some (HostPages ps))
     then int (count_list (take (map_n_addrs md) (map_addrs md)) a) else 0)"

text \<open>What the kernel documents: \<open>get_user_pages\<close> returns the number of pages it has pinned and at
  most as many as asked for; and, for the IOMMU balance, that no DMA mapping fails.\<close>

definition gup_ok :: "kenv \<Rightarrow> bool" where
  "gup_ok e \<longleftrightarrow> (\<forall>lg va n r ps. get_user_pages e lg va n = (r, ps) \<longrightarrow> 0 < r \<longrightarrow> r \<le> int n \<and> length ps = nat r)"

definition iommu_ok :: "kenv \<Rightarrow> bool" where
  "iommu_ok e \<longleftrightarrow> gup_ok e \<and> (\<forall>pd a. dma_mapping_error e pd a = 0)"

lemma attach_event_deltas [simp]:
  "attach_event ev \<Longrightarrow> pin_delta p ev = 0" "attach_event ev \<Longrightarrow> buf_delta b ev = 0"
  "attach_event ev \<Longrightarrow> iommu_delta pd a ev = 0"
  by (cases ev; simp)+

lemma log_sum_put: "log_sum (pin_delta p) (map EvPutPage ps) = - int (count_list ps p)"
  by (induction ps) auto

lemma log_sum_pin: "log_sum (pin_delta p) (map EvPinPage ps) = int (count_list ps p)"
  by (induction ps) auto

lemma log_sum_unmap: "log_sum (iommu_delta pd a) (map (EvDmaUnmap pd') as) = (if pd' = pd then - int (count_list as a) else 0)"
  by (induction as) auto

lemma log_sum_map2:
  "length ps = length as \<Longrightarrow> log_sum (iommu_delta pd a) (map2 (EvDmaMap pd') ps as) = (if pd' = pd then int (count_list as a) else 0)"
  by (induction ps as rule: list_induct2) auto

lemma log_sum_zero_maps [simp]:
  "log_sum (pin_delta p) (map (EvDmaUnmap pd) as) = 0" "log_sum (buf_delta b) (map (EvDmaUnmap pd) as) = 0"
  "log_sum (buf_delta b) (map EvPutPage ps) = 0" "log_sum (buf_delta b) (map EvPinPage ps) = 0"
  "log_sum (iommu_delta pd a) (map EvPutPage ps) = 0" "log_sum (iommu_delta pd a) (map EvPinPage ps) = 0"
  by (rule log_sum_0; auto)+

lemma attach_log_sum:
  "\<forall>ev \<in> set evs. attach_event ev \<Longrightarrow> log_sum (pin_delta p) evs = 0"
  "\<forall>ev \<in> set evs. attach_event ev \<Longrightarrow> log_sum (buf_delta b) evs = 0"
  "\<forall>ev \<in> set evs. attach_event ev \<Longrightarrow> log_sum (iommu_delta pd a) evs = 0"
  by (rule log_sum_0; auto)+

lemma dmamap_log_sum:
  "\<forall>ev \<in> set evs. \<exists>pd pg a. ev = EvDmaMap pd pg a \<Longrightarrow> log_sum (pin_delta p) evs = 0"
  "\<forall>ev \<in> set evs. \<exists>pd pg a. ev = EvDmaMap pd pg a \<Longrightarrow> log_sum (buf_delta b) evs = 0"
  by (rule log_sum_0; auto)+

lemma unmap_events_attach: "ev \<in> set (unmap_events pt dm) \<Longrightarrow> attach_event ev"
  by (auto simp: unmap_events_def split: option.splits if_splits)

lemma gpu_unmap_events_attach: "ev \<in> set (gpu_unmap_events gd n j) \<Longrightarrow> attach_event ev"
  by (induction gd n j rule: gpu_unmap_events.induct) (auto split: if_splits dest: unmap_events_attach)

lemma release_sums:
  assumes "data_ok md"
  shows "log_sum (pin_delta p) (release_events n md) = - pins_held p md"
    "log_sum (buf_delta b) (release_events n md) = - bufs_held b md"
    "log_sum (iommu_delta pd a) (release_events n md) = - iommu_held pd a md"
proof -
  have z: "log_sum d (gpu_unmap_events gd n j) = 0" "log_sum d (unmap_events pt dm) = 0"
    if "\<And>ev. attach_event ev \<Longrightarrow> d ev = 0" for d gd j pt dm
    using that gpu_unmap_events_attach unmap_events_attach by (auto intro!: log_sum_0)
  note defs = data_ok_def release_events_def put_events_def pins_held_def bufs_held_def buf_of_def host_pages_def iommu_held_def
  show "log_sum (pin_delta p) (release_events n md) = - pins_held p md"
    using assms by (auto simp: defs z log_sum_put split: option.splits map_data.splits release_fn.splits)
  show "log_sum (buf_delta b) (release_events n md) = - bufs_held b md"
    using assms by (auto simp: defs z split: option.splits map_data.splits release_fn.splits)
  show "log_sum (iommu_delta pd a) (release_events n md) = - iommu_held pd a md"
    using assms by (auto simp: defs z log_sum_unmap split: option.splits map_data.splits release_fn.splits)
qed

lemma gpu_built_sums:
  assumes "gpu_built s s' m"
  shows "data_ok (get_map s' m)" "log_sum (pin_delta p) (k_log s') = log_sum (pin_delta p) (k_log s) + pins_held p (get_map s' m)"
    "log_sum (buf_delta b) (k_log s') = log_sum (buf_delta b) (k_log s) + bufs_held b (get_map s' m)"
    "log_sum (iommu_delta pd a) (k_log s') = log_sum (iommu_delta pd a) (k_log s) + iommu_held pd a (get_map s' m)"
proof -
  obtain pt r evs where g: "gpu_held s' m pt r" "r \<noteq> Release_user_pages"
    "k_log s' = k_log s @ (case pt of None \<Rightarrow> [] | Some p \<Rightarrow> [EvDmaBufGet (pt_dmabuf p)]) @ evs"
    "\<forall>ev \<in> set evs. attach_event ev" using assms unfolding gpu_built_def by blast
  obtain gd where gd: "map_data (get_map s' m) = Some (GpuRegion gd)" "gr_pages gd = pt" "map_release (get_map s' m) = Some r"
    using g(1) by (auto simp: gpu_held_def gpu_region_of_def split: option.splits map_data.splits)
  note l = attach_log_sum [OF g(4)]
  show "data_ok (get_map s' m)" using gd g(2) by (cases r) (auto simp: data_ok_def)
  show "log_sum (pin_delta p) (k_log s') = log_sum (pin_delta p) (k_log s) + pins_held p (get_map s' m)"
    "log_sum (buf_delta b) (k_log s') = log_sum (buf_delta b) (k_log s) + bufs_held b (get_map s' m)"
    "log_sum (iommu_delta pd a) (k_log s') = log_sum (iommu_delta pd a) (k_log s) + iommu_held pd a (get_map s' m)"
    using gd by (auto simp: g(3) l pins_held_def bufs_held_def buf_of_def iommu_held_def host_pages_def split: option.splits)
qed

lemma blank_sums:
  "blank md \<Longrightarrow> data_ok md \<and> pins_held p md = 0 \<and> bufs_held b md = 0 \<and> iommu_held pd a md = 0"
  by (simp add: blank_def data_ok_def pins_held_def bufs_held_def buf_of_def iommu_held_def host_pages_def)

lemma map_user_pages_sums:
  assumes "map_user_pages e m s = (err, s')" "gup_ok e" "blank (get_map s m)"
  shows "data_ok (get_map s' m)" "log_sum (pin_delta p) (k_log s') = log_sum (pin_delta p) (k_log s) + pins_held p (get_map s' m)"
    "log_sum (buf_delta b) (k_log s') = log_sum (buf_delta b) (k_log s) + bufs_held b (get_map s' m)"
    "iommu_ok e \<Longrightarrow> log_sum (iommu_delta pd a) (k_log s') = log_sum (iommu_delta pd a) (k_log s) + iommu_held pd a (get_map s' m)"
proof -
  have "data_ok (get_map s' m) \<and> log_sum (pin_delta p) (k_log s') = log_sum (pin_delta p) (k_log s) + pins_held p (get_map s' m) \<and>
    log_sum (buf_delta b) (k_log s') = log_sum (buf_delta b) (k_log s) + bufs_held b (get_map s' m) \<and>
    (iommu_ok e \<longrightarrow> log_sum (iommu_delta pd a) (k_log s') = log_sum (iommu_delta pd a) (k_log s) + iommu_held pd a (get_map s' m))"
    using assms(1)
  proof (cases rule: map_user_pages_cases)
    case 1
    then show ?thesis using blank_sums [OF assms(3)] by simp
  next
    case (2 retval pages)
    let ?md = "(get_map s m)\<lparr>map_n_addrs := nat retval, map_page_size := PAGE_SIZE,
         map_data := Some (HostPages pages), map_release := Some Release_user_pages\<rparr>"
    let ?t = "set_map m (\<lambda>md. md\<lparr>map_n_addrs := nat retval, map_page_size := PAGE_SIZE,
         map_data := Some (HostPages pages), map_release := Some Release_user_pages\<rparr>)
         (log_events (map EvPinPage pages) s)"
    have r: "retval \<le> int (map_n_addrs (get_map s m))" "length pages = nat retval"
      using assms(2) 2(1,2) unfolding gup_ok_def by blast+
    have tm: "get_map ?t m = ?md" by simp
    obtain as evs where a: "get_map s' m = ?md\<lparr>map_addrs := as\<rparr>" "k_log s' = k_log s @ map EvPinPage pages @ evs"
      "\<forall>ev \<in> set evs. \<exists>pd pg a. ev = EvDmaMap pd pg a"
      using dma_map_loop_effect [OF 2(3)] tm by auto
    have 3: "log_sum (iommu_delta pd a) (k_log s') = log_sum (iommu_delta pd a) (k_log s) + iommu_held pd a (get_map s' m)"
      if "iommu_ok e"
    proof -
      have le: "0 + length pages \<le> length (map_addrs (get_map ?t m))" using r assms(3) by (simp add: blank_def)
      obtain as where as: "length as = length pages" "get_map s' m = ?md\<lparr>map_addrs := as @ drop (length pages) (map_addrs ?md)\<rparr>"
        "k_log s' = k_log s @ map EvPinPage pages @ map2 (EvDmaMap (map_pdev ?md)) pages as"
        using dma_map_loop_total [OF 2(3) _ le] \<open>iommu_ok e\<close> tm by (auto simp: iommu_ok_def)
      then show ?thesis using r(2) by (simp add: iommu_held_def log_sum_map2)
    qed
    show ?thesis using a r 3
      by (auto simp: data_ok_def pins_held_def host_pages_def bufs_held_def buf_of_def log_sum_pin dmamap_log_sum)
  qed
  then show "data_ok (get_map s' m)" "log_sum (pin_delta p) (k_log s') = log_sum (pin_delta p) (k_log s) + pins_held p (get_map s' m)"
    "log_sum (buf_delta b) (k_log s') = log_sum (buf_delta b) (k_log s) + bufs_held b (get_map s' m)"
    "iommu_ok e \<Longrightarrow> log_sum (iommu_delta pd a) (k_log s') = log_sum (iommu_delta pd a) (k_log s) + iommu_held pd a (get_map s' m)"
    by blast+
qed

lemma build_sums:
  assumes "c \<in> builders" "k_maps s m = Some md" "blank md" "c e m s = (err, s')" "gup_ok e"
  shows "data_ok (get_map s' m)" "log_sum (pin_delta p) (k_log s') = log_sum (pin_delta p) (k_log s) + pins_held p (get_map s' m)"
    "log_sum (buf_delta b) (k_log s') = log_sum (buf_delta b) (k_log s) + bufs_held b (get_map s' m)"
    "iommu_ok e \<Longrightarrow> log_sum (iommu_delta pd a) (k_log s') = log_sum (iommu_delta pd a) (k_log s) + iommu_held pd a (get_map s' m)"
proof -
  have bl: "blank (get_map s m)" using assms(2,3) by (simp add: get_map_def)
  consider "map_user_pages e m s = (err, s')" | "s' = s \<or> gpu_built s s' m"
    using assms(1,4) map_gpu_memory_effect map_gpu_ioqueue_memory_effect by (auto simp: builders_def)
  then show "data_ok (get_map s' m)" "log_sum (pin_delta p) (k_log s') = log_sum (pin_delta p) (k_log s) + pins_held p (get_map s' m)"
    "log_sum (buf_delta b) (k_log s') = log_sum (buf_delta b) (k_log s) + bufs_held b (get_map s' m)"
    "iommu_ok e \<Longrightarrow> log_sum (iommu_delta pd a) (k_log s') = log_sum (iommu_delta pd a) (k_log s) + iommu_held pd a (get_map s' m)"
    using map_user_pages_sums [OF _ assms(5) bl] gpu_built_sums blank_sums [OF bl] by (cases; auto)+
qed

lemma same_resources_sums:
  "same_resources md md' \<Longrightarrow> data_ok md' = data_ok md \<and> pins_held p md' = pins_held p md \<and>
     bufs_held b md' = bufs_held b md \<and> iommu_held pd a md' = iommu_held pd a md"
  unfolding same_resources_def
  by (auto simp: data_ok_def pins_held_def bufs_held_def buf_of_def iommu_held_def host_pages_def
      split: option.splits map_data.splits)

interpretation pins: resource_accounting "pin_delta p" "pins_held p" data_ok gup_ok for p
  by unfold_locales (simp_all add: release_sums build_sums same_resources_sums)

interpretation bufs: resource_accounting "buf_delta b" "bufs_held b" data_ok gup_ok for b
  by unfold_locales (simp_all add: release_sums build_sums same_resources_sums)

interpretation iommu: resource_accounting "iommu_delta pd a" "iommu_held pd a" data_ok iommu_ok for pd a
proof unfold_locales
  fix e c s m md err s'
  assume "iommu_ok e" "c \<in> builders" "k_maps s m = Some md" "blank md" "c e m s = (err, s')"
  then show "data_ok (get_map s' m) \<and>
    log_sum (iommu_delta pd a) (k_log s') = log_sum (iommu_delta pd a) (k_log s) + iommu_held pd a (get_map s' m)"
    using build_sums [of c s m md e err s'] by (auto simp: iommu_ok_def)
qed (simp_all add: release_sums same_resources_sums)

text \<open>The accounting of all three resources together.\<close>

definition resources_ok :: "kst \<Rightarrow> bool" where
  "resources_ok s \<longleftrightarrow> (\<forall>p. accounted (pin_delta p) (pins_held p) data_ok s) \<and>
     (\<forall>b. accounted (buf_delta b) (bufs_held b) data_ok s)"

lemma resources_map_pattern:
  "resources_ok s \<Longrightarrow> maps_wf s \<Longrightarrow> gup_ok e \<Longrightarrow> b \<in> builders \<Longrightarrow> map_pattern b l psz e c va n s = (r, s') \<Longrightarrow> resources_ok s'"
  unfolding resources_ok_def by (meson pins.accounted_map_pattern bufs.accounted_map_pattern)

lemma resources_unmap:
  "resources_ok s \<Longrightarrow> maps_wf s \<Longrightarrow> k_maps s m \<noteq> None \<Longrightarrow> resources_ok (unmap_and_release m s)"
  unfolding resources_ok_def by (meson pins.accounted_unmap bufs.accounted_unmap maps_wf_finite)

lemma resources_fold_unmap:
  "resources_ok s \<Longrightarrow> maps_wf s \<Longrightarrow> distinct ms \<Longrightarrow> set ms \<subseteq> dom (k_maps s) \<Longrightarrow> resources_ok (fold unmap_and_release ms s)"
  unfolding resources_ok_def by (meson pins.accounted_fold_unmap bufs.accounted_fold_unmap)

lemma resources_retag:
  "resources_ok s \<Longrightarrow> k_maps s m \<noteq> None \<Longrightarrow> same_resources (get_map s m) (f (get_map s m)) \<Longrightarrow> resources_ok (set_map m f s)"
  unfolding resources_ok_def by (meson pins.accounted_retag bufs.accounted_retag)

lemma resources_cong:
  "k_maps s' = k_maps s \<Longrightarrow> k_log s' = k_log s @ evs \<Longrightarrow>
   \<forall>ev \<in> set evs. (\<exists>pd c r. ev = EvAdmin pd c r) \<Longrightarrow> resources_ok s' = resources_ok s"
  unfolding resources_ok_def
  using pins.accounted_cong [of s' s evs] bufs.accounted_cong [of s' s evs] by force

lemma map_failure_pattern:
  assumes "maps_wf s" "gup_ok e" "resources_ok s" "b \<in> builders"
    "map_pattern b l psz e c va n s = (Inl err, s')"
  shows "s' = s\<lparr>k_next_mid := k_next_mid s', k_log := k_log s'\<rparr> \<and>
    (\<forall>p. log_sum (pin_delta p) (k_log s') = log_sum (pin_delta p) (k_log s)) \<and>
    (\<forall>b. log_sum (buf_delta b) (k_log s') = log_sum (buf_delta b) (k_log s))"
proof -
  have f: "s' = s\<lparr>k_next_mid := k_next_mid s', k_log := k_log s'\<rparr>"
    using map_pattern_fail [of b e, OF builders_touching [OF assms(4)] assms(1,5)] by blast
  then have "k_maps s' = k_maps s" by (metis kst.ext_inject kst.surjective kst.update_convs(2,14))
  moreover have "resources_ok s'" using resources_map_pattern [OF assms(3,1,2,4,5)] .
  ultimately show ?thesis using f assms(3) by (simp add: accounted_def resources_ok_def get_map_def)
qed

lemma gup_ok_ex: "gup_ok env_ex"
  by (auto simp: gup_ok_def env_ex_def)

lemma maps_wf_no_maps:
  "k_maps s = Map.empty \<Longrightarrow> all_lists s = [] \<Longrightarrow> k_files s = Map.empty \<Longrightarrow> maps_wf s"
  by (simp add: maps_wf_def)

lemma kst_ex_maps_wf: "maps_wf kst_ex"
  by (rule maps_wf_no_maps) (simp_all add: kst_ex_def kst_init_def all_lists_def)

lemma kst_ex_resources: "resources_ok kst_ex"
  by (simp add: resources_ok_def accounted_def kst_ex_def kst_init_def)

subsection \<open>Properties\<close>

text \<open>C19. A mapping call that fails, at whatever point, leaks nothing: all three of
  \<open>map_userspace\<close>, \<open>map_device_memory\<close> and \<open>map_device_ioqueue_memory\<close> restore the descriptor
  heap, the global lists, the groups and the files to what they were, and every page pin and
  every dma-buf reference taken on the way has been returned.\<close>

theorem map_failure_leaks_nothing:
  assumes "maps_wf s" "resources_ok s" "gup_ok e"
    "f \<in> {map_userspace, map_device_memory, map_device_ioqueue_memory}" "f e c vaddr n_pages s = (Inl err, s')"
  shows "s' = s\<lparr>k_next_mid := k_next_mid s', k_log := k_log s'\<rparr> \<and>
    (\<forall>p. log_sum (pin_delta p) (k_log s') = log_sum (pin_delta p) (k_log s)) \<and>
    (\<forall>b. log_sum (buf_delta b) (k_log s') = log_sum (buf_delta b) (k_log s))"
proof -
  have "\<exists>b l psz. b \<in> builders \<and> map_pattern b l psz e c vaddr n_pages s = (Inl err, s')"
    using assms(4,5) unfolding map_patterns builders_def by blast
  then show ?thesis using map_failure_pattern [OF assms(1,3,2)] by blast
qed

theorem map_failure_leaks_nothing_witness:
  "\<exists>s'. map_userspace (env_ex\<lparr>kmalloc_ok := (\<lambda>a. a \<noteq> A_pages)\<rparr>) ctrl_ex 0x1234 1 kst_ex = (Inl (- ENOMEM), s') \<and>
     s' = kst_ex\<lparr>k_next_mid := k_next_mid s', k_log := k_log s'\<rparr>"
proof -
  let ?e = "env_ex\<lparr>kmalloc_ok := (\<lambda>a. a \<noteq> A_pages)\<rparr>"
  have g: "gup_ok ?e" using gup_ok_ex by (simp add: gup_ok_def)
  obtain s' where s': "map_userspace ?e ctrl_ex 0x1234 1 kst_ex = (Inl (- ENOMEM), s')"
    by (simp add: map_patterns map_pattern_unfold Let_def map_user_pages_def)
  show ?thesis
    using map_failure_leaks_nothing [of kst_ex ?e map_userspace, OF kst_ex_maps_wf kst_ex_resources g _ s'] s' by blast
qed

text \<open>C20. \<open>map_purge_by_owner\<close> ends although it restarts its walk after every release, and on return
  exactly the ungrouped descriptors of that task have been released: the count is their
  number, they are gone from the list, and every other descriptor is untouched and still in
  its place.\<close>

theorem map_purge_by_owner_reclaims:
  assumes "maps_wf s"
  shows "\<exists>s'. map_purge_loop l owner (get_list l s) s 0 =
      Some (length (filter (\<lambda>m. purge_match owner (get_map s m)) (get_list l s)), s') \<and>
    get_list l s' = filter (\<lambda>m. \<not> purge_match owner (get_map s m)) (get_list l s) \<and>
    (\<forall>m. k_maps s' m = (if m \<in> set (get_list l s) \<and> purge_match owner (get_map s m) then None else k_maps s m)) \<and>
    maps_wf s'"
proof -
  let ?P = "\<lambda>m. purge_match owner (get_map s m)"
  let ?ms = "filter ?P (get_list l s)"
  have d: "distinct (get_list l s)" using maps_wf_distinct [OF assms] .
  have maps: "k_maps (fold unmap_and_release ms t) m = (if m \<in> set ms then None else k_maps t m)" for ms t m
    by (induction ms arbitrary: t) auto
  have lst: "get_list l (fold unmap_and_release ms t) = fold remove1 ms (get_list l t)" for ms t
    by (induction ms arbitrary: t) auto
  have rem: "fold remove1 ms xs = filter (\<lambda>x. x \<notin> set ms) xs" if "distinct xs" for ms xs :: "mid list"
    using that
  proof (induction ms arbitrary: xs)
    case (Cons m ms)
    then show ?case by (auto simp: distinct_remove1_removeAll removeAll_filter_not_eq intro: filter_cong)
  qed simp
  have "get_list l (fold unmap_and_release ?ms s) = filter (\<lambda>m. \<not> ?P m) (get_list l s)"
    unfolding lst rem [OF d] by (auto intro: filter_cong)
  then show ?thesis
    using map_purge_loop_returns [of l s "[]" "get_list l s" owner 0] d fold_unmap_wf [OF assms, of ?ms]
    by (auto simp: maps)
qed

definition map_ex :: "task \<Rightarrow> u64 \<Rightarrow> u32 \<Rightarrow> kmap" where
  "map_ex t va g = \<lparr>map_owner = t, map_vaddr = va, map_is_cq = -1, map_ioq_idx = -1, map_pdev = 1,
     map_page_size = PAGE_SIZE, map_data = None, map_release = None, map_group_id = g, map_kind = 0,
     map_n_addrs = 1, map_addrs = [0]\<rparr>"

definition kst_ex_maps :: kst where
  "kst_ex_maps = kst_ex\<lparr>k_maps := [0 \<mapsto> map_ex 7 0x1000 0, 1 \<mapsto> map_ex 8 0x1000 0, 2 \<mapsto> map_ex 7 0x2000 5, 3 \<mapsto> map_ex 7 0x3000 0],
     k_next_mid := 4, k_host_list := [0, 1, 2, 3]\<rparr>"

lemma kst_ex_maps_wf4: "maps_wf kst_ex_maps"
  by (auto simp: maps_wf_def kst_ex_maps_def kst_ex_def kst_init_def all_lists_def)

theorem map_purge_by_owner_reclaims_witness:
  "\<exists>s'. map_purge_loop HostList 7 [0, 1, 2, 3] kst_ex_maps 0 = Some (2, s') \<and> k_host_list s' = [1, 2]"
  using map_purge_by_owner_reclaims [OF kst_ex_maps_wf4, of HostList 7]
  by (force simp: kst_ex_maps_def get_map_def purge_match_def map_ex_def)

text \<open>The balance of mapped and unmapped scatter lists of one dma-buf attachment.\<close>

fun sg_delta :: "nat \<Rightarrow> kevent \<Rightarrow> int" where
  "sg_delta a (EvMapSg b) = (if b = a then 1 else 0)"
| "sg_delta a (EvUnmapSg b) = (if b = a then -1 else 0)"
| "sg_delta a _ = 0"

lemma dma_map_pages_failure:
  assumes "nvfs_nvidia_p2p_dma_map_pages e peer pt s = (err, dm, s')" "err \<noteq> 0"
  shows "\<exists>evs. s' = log_events evs s \<and> log_sum (sg_delta a) evs = 0"
proof -
  have "s' = log_events [] s \<or> (\<exists>b x. s' = log_events [EvAttach peer b x, EvDetach x] s)"
    using assms unfolding nvfs_nvidia_p2p_dma_map_pages_def Let_def
    by (auto simp: log_event_eq log_events_add split: option.splits if_splits sum.splits)
  then show ?thesis by (elim disjE exE) (rule exI, (rule conjI, assumption, simp))+
qed

text \<open>A failing \<open>map_gpu_ioqueue_memory\<close> leaves the slot as it was allocated, whichever call failed.\<close>

lemma map_gpu_ioqueue_memory_failure:
  assumes "map_gpu_ioqueue_memory e m s = (err, s')" "err \<noteq> 0" "kmalloc_ok e A_gpu_region" "kmalloc_ok e A_mappings"
  shows "map_release (get_map s' m) = Some Release_gpu_ioqueue_memory \<and>
    (\<exists>pt. gpu_region_of s' m = Some \<lparr>gr_pages = pt, gr_mappings = [uninit_mapping e]\<rparr>) \<and>
    log_sum (sg_delta a) (k_log s') = log_sum (sg_delta a) (k_log s)"
proof -
  let ?gd = "\<lparr>gr_pages = None, gr_mappings = [uninit_mapping e]\<rparr>"
  let ?s1 = "set_map m (\<lambda>md. md\<lparr>map_page_size := GPU_PAGE_SIZE, map_data := Some (GpuRegion ?gd),
                   map_release := Some Release_gpu_ioqueue_memory\<rparr>) s"
  let ?md = "get_map ?s1 m"
  obtain err2 pt s2 where g: "nvfs_nvidia_p2p_get_pages e (map_vaddr ?md) (GPU_PAGE_SIZE * of_nat (map_n_addrs ?md)) ?s1 = (err2, pt, s2)"
    by (metis prod_cases3)
  let ?s3 = "set_gpu_region m (gr_pages_update (\<lambda>_. pt)) s2"
  obtain err4 dm s4 where l: "nvfs_nvidia_p2p_dma_map_pages e (map_pdev ?md) pt ?s3 = (err4, dm, s4)" by (metis prod_cases3)
  have r1: "gpu_region_of ?s1 m = Some ?gd" "map_release (get_map ?s1 m) = Some Release_gpu_ioqueue_memory"
    by (simp_all add: gpu_region_of_def)
  note s2 = get_pages_effect [OF g]
  have r2: "gpu_region_of s2 m = Some ?gd" "map_release (get_map s2 m) = Some Release_gpu_ioqueue_memory"
    "log_sum (sg_delta a) (k_log s2) = log_sum (sg_delta a) (k_log s)"
    using r1 unfolding s2(1) by (auto split: option.splits)
  consider "err2 \<noteq> 0" "s' = s2" | "err4 \<noteq> 0" "s' = s4"
    using assms g l unfolding map_gpu_ioqueue_memory_def Let_def by (auto split: if_splits)
  then show ?thesis
  proof cases
    case 1 then show ?thesis using r2 by simp
  next
    case 2
    obtain evs where "s4 = log_events evs ?s3" "log_sum (sg_delta a) evs = 0" using dma_map_pages_failure [OF l 2(1)] by blast
    then show ?thesis using r2 2(2) by simp
  qed
qed

text \<open>C27. The clean-up of a queue ring that could not be mapped reads a pointer slot that nothing has written. In every
  state and for every cause of the failure, a failing \<open>map_device_ioqueue_memory\<close> maps no scatter list that stays mapped;
  and once its region has been allocated it unmaps one it never mapped, that of the attachment the slot happens to
  refer to. The balance of every attachment is kept only if the slot happens to be null or the call failed earlier.
  The content of the slot is modelled as null or a reference to some mapping.\<close>

theorem map_device_ioqueue_memory_unmaps_garbage:
  assumes "map_device_ioqueue_memory e c vaddr n_pages s = (Inl err, s')"
  shows "log_sum (sg_delta a) (k_log s') = log_sum (sg_delta a) (k_log s) -
    (if 1 \<le> n_pages \<and> kmalloc_ok e A_map \<and> kmalloc_ok e A_gpu_region \<and> kmalloc_ok e A_mappings \<and>
        map_option dm_attach (uninit_mapping e) = Some a then 1 else 0)"
proof (cases "1 \<le> n_pages \<and> kmalloc_ok e A_map \<and> kmalloc_ok e A_gpu_region \<and> kmalloc_ok e A_mappings")
  case True
  let ?m = "k_next_mid s" and ?s2 = "with_map (k_next_mid s) (fresh_map e c vaddr GPU_PAGE_SIZE n_pages) s"
  obtain err3 s3 where b: "map_gpu_ioqueue_memory e ?m ?s2 = (err3, s3)" by fastforce
  have f: "err3 \<noteq> 0" "s' = unmap_and_release ?m s3"
    using assms True b by (auto simp: map_patterns map_pattern_unfold Let_def not_less split: if_splits)
  obtain pt where p: "map_release (get_map s3 ?m) = Some Release_gpu_ioqueue_memory"
    "gpu_region_of s3 ?m = Some \<lparr>gr_pages = pt, gr_mappings = [uninit_mapping e]\<rparr>"
    "log_sum (sg_delta a) (k_log s3) = log_sum (sg_delta a) (k_log s)"
    using map_gpu_ioqueue_memory_failure [OF b f(1)] True by (auto simp: with_map_def)
  have "map_data (get_map s3 ?m) = Some (GpuRegion \<lparr>gr_pages = pt, gr_mappings = [uninit_mapping e]\<rparr>)"
    using p(2) by (auto simp: gpu_region_of_def split: option.splits map_data.splits)
  then have "log_sum (sg_delta a) (release_events (length (k_ctrl_list s3)) (get_map s3 ?m)) =
    (if map_option dm_attach (uninit_mapping e) = Some a then -1 else 0)"
    using p(1) by (auto simp: release_events_def unmap_events_def put_events_def split: option.splits)
  then show ?thesis using True p(3) by (simp add: f(2))
next
  case False
  then have "k_log s' = k_log s"
    using assms by (auto simp: map_patterns map_pattern_unfold Let_def map_gpu_ioqueue_memory_def with_map_def
        release_events_none get_map_def fresh_map_def not_le split: if_splits)
  then show ?thesis using False by auto
qed

theorem map_device_ioqueue_memory_unmaps_garbage_witness:
  "\<exists>s'. map_device_ioqueue_memory (env_ex\<lparr>dma_buf_get := (\<lambda>_. Inl (- EBADF)),
       uninit_mapping := Some \<lparr>dm_attach = 99, dm_peer = 0, dm_n_addrs = 0, dm_dma_addresses = []\<rparr>\<rparr>)
      ctrl_ex 0x50000 1 (kst_ex\<lparr>k_log := [EvAttach 2 5 99, EvMapSg 99]\<rparr>) = (Inl (- EBADF), s') \<and>
     log_sum (sg_delta 99) (k_log s') = 0"
proof -
  let ?e = "env_ex\<lparr>dma_buf_get := (\<lambda>_. Inl (- EBADF)),
       uninit_mapping := Some \<lparr>dm_attach = 99, dm_peer = 0, dm_n_addrs = 0, dm_dma_addresses = []\<rparr>\<rparr>"
  let ?s = "kst_ex\<lparr>k_log := [EvAttach 2 5 99, EvMapSg 99]\<rparr>"
  obtain s' where s': "map_device_ioqueue_memory ?e ctrl_ex 0x50000 1 ?s = (Inl (- EBADF), s')"
    by (simp add: map_patterns map_pattern_unfold Let_def map_gpu_ioqueue_memory_def nvfs_nvidia_p2p_get_pages_def env_ex_def)
  from map_device_ioqueue_memory_unmaps_garbage [OF this, of 99] have "log_sum (sg_delta 99) (k_log s') = 0"
    by (simp add: env_ex_def)
  then show ?thesis using s' by blast
qed

end
