(* ===== verification/Ctrl_Obj.thy ===== *)
theory Ctrl_Obj
  imports Qid_Pool Klist
begin

text \<open>
  Controller objects (\<open>ctrl.c\<close>): creation, destruction, look-up by PCI device and by inode, and the
  character device of a controller. A live object is an entry of \<open>k_ctrls\<close>; \<open>k_ctrl_list\<close> is the
  global list. The character device embedded in the object identifies it, so an inode is
  represented by the identity of the controller whose device it is.
\<close>

definition get_ctrl :: "kst \<Rightarrow> cid \<Rightarrow> ctrl" where
  "get_ctrl s c = the (k_ctrls s c)"

definition set_ctrl :: "cid \<Rightarrow> (ctrl \<Rightarrow> ctrl) \<Rightarrow> kst \<Rightarrow> kst" where
  "set_ctrl c f s = s\<lparr>k_ctrls := (k_ctrls s)(c \<mapsto> f (get_ctrl s c))\<rparr>"

text \<open>\<open>snprintf ("%s%d", "ssnvme", number)\<close>: the decimal digits of a minor number.\<close>

fun dec_digits :: "nat \<Rightarrow> string" where
  "dec_digits n = (if n < 10 then [char_of (48 + n)] else dec_digits (n div 10) @ [char_of (48 + n mod 10)])"

declare dec_digits.simps [simp del]

definition dec_string :: "int \<Rightarrow> string" where
  "dec_string i = (if i < 0 then CHR ''-'' # dec_digits (nat (- i)) else dec_digits (nat i))"

definition ctrl_get :: "kenv \<Rightarrow> pdev \<Rightarrow> int \<Rightarrow> kst \<Rightarrow> (int + cid) \<times> kst" where
  "ctrl_get e pd number s =
     (if \<not> kmalloc_ok e A_ctrl then (Inl (- ENOMEM), s)
      else
        let c = k_next_cid s in
        (Inr c, s\<lparr>k_next_cid := Suc c,
           k_ctrls := (k_ctrls s)(c \<mapsto>
             \<lparr>ctrl_pdev = pd, ctrl_number = number, ctrl_name = ''ssnvme'' @ dec_string number,
              ctrl_chrdev = False, ctrl_on_host = uninit_u32 e, ctrl_ioq_num = 0, ctrl_cq_num = 0,
              ctrl_ioq_map_num = 0, ctrl_use_sreg = 0, ctrl_setup = empty_setup, ctrl_pool = empty_pool\<rparr>),
           k_ctrl_list := k_ctrl_list s @ [c]\<rparr>))"

definition ctrl_chrdev_remove :: "cid \<Rightarrow> kst \<Rightarrow> kst" where
  "ctrl_chrdev_remove c s =
     (if ctrl_chrdev (get_ctrl s c) then set_ctrl c (ctrl_chrdev_update (\<lambda>_. False)) s else s)"

definition ctrl_put :: "cid option \<Rightarrow> kst \<Rightarrow> kst" where
  "ctrl_put co s =
     (case co of None \<Rightarrow> s
      | Some c \<Rightarrow>
          let s1 = s\<lparr>k_ctrl_list := remove1 c (k_ctrl_list s)\<rparr>;
              s2 = ctrl_chrdev_remove c s1;
              s3 = set_ctrl c (\<lambda>ct. ct\<lparr>ctrl_pool := (ctrl_pool ct)\<lparr>user_qid_bitmap := None\<rparr>\<rparr>) s2
          in s3\<lparr>k_ctrls := (k_ctrls s3)(c := None)\<rparr>)"

text \<open>The walks over the controller list (theory \<open>Klist\<close>).\<close>

definition ctrl_find_by_pci_dev :: "pdev \<Rightarrow> kst \<Rightarrow> cid option" where
  "ctrl_find_by_pci_dev pd s = List.find (\<lambda>c. ctrl_pdev (get_ctrl s c) = pd) (k_ctrl_list s)"

definition ctrl_find_by_inode :: "cid \<Rightarrow> kst \<Rightarrow> cid option" where
  "ctrl_find_by_inode i_cdev s = List.find (\<lambda>c. c = i_cdev) (k_ctrl_list s)"

definition ctrl_chrdev_create :: "kenv \<Rightarrow> cid \<Rightarrow> kst \<Rightarrow> int \<times> kst" where
  "ctrl_chrdev_create e c s =
     (if ctrl_chrdev (get_ctrl s c) then (0, s)
      else if cdev_add_rc e \<noteq> 0 then (cdev_add_rc e, s)
      else if device_create_rc e \<noteq> 0 then (device_create_rc e, s)
      else (0, set_ctrl c (ctrl_chrdev_update (\<lambda>_. True)) s))"

subsection \<open>Facts\<close>

lemma get_set_ctrl [simp]:
  "get_ctrl (set_ctrl c f s) c' = (if c' = c then f (get_ctrl s c) else get_ctrl s c')"
  by (simp add: set_ctrl_def get_ctrl_def)

lemma set_ctrl_frame [simp]:
  "k_maps (set_ctrl c f s) = k_maps s" "k_next_mid (set_ctrl c f s) = k_next_mid s"
  "k_host_list (set_ctrl c f s) = k_host_list s" "k_device_list (set_ctrl c f s) = k_device_list s"
  "k_device_queue_list (set_ctrl c f s) = k_device_queue_list s"
  "k_next_cid (set_ctrl c f s) = k_next_cid s" "k_ctrl_list (set_ctrl c f s) = k_ctrl_list s"
  "k_chrdev_minor_ida (set_ctrl c f s) = k_chrdev_minor_ida s"
  "k_queue_group_ida (set_ctrl c f s) = k_queue_group_ida s" "k_pci (set_ctrl c f s) = k_pci s"
  "k_registered (set_ctrl c f s) = k_registered s"
  "k_files (set_ctrl c f s) = k_files s" "k_log (set_ctrl c f s) = k_log s"
  "k_ctrls (set_ctrl c f s) c' = (if c' = c then Some (f (get_ctrl s c)) else k_ctrls s c')"
  "dom (k_ctrls (set_ctrl c f s)) = insert c (dom (k_ctrls s))"
  by (auto simp: set_ctrl_def)

text \<open>Distinct minors have distinct device names.\<close>

lemma dec_digits_ne [simp]: "dec_digits n \<noteq> []"
  by (subst dec_digits.simps) simp

lemma digit_inj: "a < 10 \<Longrightarrow> b < 10 \<Longrightarrow> (char_of (48 + a) :: char) = char_of (48 + b) \<longleftrightarrow> a = (b :: nat)"
proof
  assume "a < 10" "b < 10" and e: "(char_of (48 + a) :: char) = char_of (48 + b)"
  then have "(of_char (char_of (48 + a) :: char) :: nat) = of_char (char_of (48 + b) :: char)" by simp
  then show "a = b" using \<open>a < 10\<close> \<open>b < 10\<close> by simp
qed simp

lemma dec_digits_inj: "dec_digits m = dec_digits n \<Longrightarrow> m = n"
proof (induction m arbitrary: n rule: less_induct)
  case (less m)
  show ?case
  proof (cases "m < 10")
    case m: True
    show ?thesis
    proof (cases "n < 10")
      case True then show ?thesis using less.prems m by (simp add: dec_digits.simps [of m] dec_digits.simps [of n] digit_inj)
    next
      case False then show ?thesis using less.prems m
        by (simp add: dec_digits.simps [of m] dec_digits.simps [of n] Cons_eq_append_conv)
    qed
  next
    case m: False
    show ?thesis
    proof (cases "n < 10")
      case True then show ?thesis using less.prems m
        by (simp add: dec_digits.simps [of m] dec_digits.simps [of n] append_eq_Cons_conv)
    next
      case False
      then have "dec_digits (m div 10) = dec_digits (n div 10)" "m mod 10 = n mod 10"
        using less.prems m by (simp_all add: dec_digits.simps [of m] dec_digits.simps [of n] digit_inj)
      moreover have "m div 10 < m" using m by simp
      ultimately show ?thesis using less.IH by (metis div_mult_mod_eq)
    qed
  qed
qed

end
