(* ===== verification/Queue_Group.thy ===== *)
theory Queue_Group
  imports Map_Accounting Ctrl_Obj
begin

text \<open>
  Admin commands for user queues and the life cycle of a queue group (\<open>pci.c\<close>):
  \<open>adapter_alloc_cq_user\<close>, \<open>adapter_alloc_sq_user\<close>, \<open>adapter_delete_sq\<close>, \<open>adapter_delete_cq\<close>,
  \<open>snvm_ctrl_get_live_ndev\<close>, \<open>find_qgroup_locked\<close> and \<open>destroy_qgroup_locked\<close>. The queues a
  controller holds are read off the log of admin commands (\<open>dev_queues\<close>).
\<close>

subsection \<open>Admin commands\<close>

definition PCI_DRIVER_NAME :: string where "PCI_DRIVER_NAME = ''snvme''"

abbreviation (input) NVME_QUEUE_PHYS_CONTIG :: u16 where "NVME_QUEUE_PHYS_CONTIG \<equiv> 1"

definition snvme_submit_sync_cmd :: "kenv \<Rightarrow> pdev \<Rightarrow> admin_cmd \<Rightarrow> kst \<Rightarrow> int \<times> kst" where
  "snvme_submit_sync_cmd e pd cmd s =
     (let rc = admin_reply e (k_log s) cmd in (rc, log_event (EvAdmin pd cmd rc) s))"

definition adapter_alloc_cq_user :: "kenv \<Rightarrow> pdev \<Rightarrow> nvme_dev \<Rightarrow> mid \<Rightarrow> u16 \<Rightarrow> kst \<Rightarrow> int \<times> kst" where
  "adapter_alloc_cq_user e pd dev q_map qid s =
     snvme_submit_sync_cmd e pd
       (CreateCQ (map_addrs (get_map s q_map) ! 0) qid (ucast (nd_q_depth dev - 1)) NVME_QUEUE_PHYS_CONTIG 0) s"

definition adapter_alloc_sq_user :: "kenv \<Rightarrow> pdev \<Rightarrow> nvme_dev \<Rightarrow> mid \<Rightarrow> u16 \<Rightarrow> kst \<Rightarrow> int \<times> kst" where
  "adapter_alloc_sq_user e pd dev q_map qid s =
     snvme_submit_sync_cmd e pd
       (CreateSQ (map_addrs (get_map s q_map) ! 0) qid (ucast (nd_q_depth dev - 1)) NVME_QUEUE_PHYS_CONTIG qid) s"

definition adapter_delete_cq :: "kenv \<Rightarrow> pdev \<Rightarrow> u16 \<Rightarrow> kst \<Rightarrow> int \<times> kst" where
  "adapter_delete_cq e pd cqid s = snvme_submit_sync_cmd e pd (DeleteCQ cqid) s"

definition adapter_delete_sq :: "kenv \<Rightarrow> pdev \<Rightarrow> u16 \<Rightarrow> kst \<Rightarrow> int \<times> kst" where
  "adapter_delete_sq e pd sqid s = snvme_submit_sync_cmd e pd (DeleteSQ sqid) s"

subsection \<open>Queue groups\<close>

definition snvm_ctrl_get_live_ndev :: "cid option \<Rightarrow> kst \<Rightarrow> nvme_dev option" where
  "snvm_ctrl_get_live_ndev co s =
     (case co of None \<Rightarrow> None
      | Some c \<Rightarrow>
          (case k_pci s (ctrl_pdev (get_ctrl s c)) of None \<Rightarrow> None
           | Some pd \<Rightarrow>
               if pci_driver pd \<noteq> Some PCI_DRIVER_NAME then None
               else case pci_drvdata pd of None \<Rightarrow> None
                    | Some nd \<Rightarrow> if nd_admin_q nd then Some nd else None))"

definition find_qgroup_locked :: "snvm_dev_owner option \<Rightarrow> u32 \<Rightarrow> snvm_qgroup option" where
  "find_qgroup_locked own group_id =
     (case own of None \<Rightarrow> None
      | Some o' \<Rightarrow> if group_id = 0 then None
                  else List.find (\<lambda>g. g_group_id g = group_id) (own_groups o'))"

definition ctrl_qid_free :: "cid option \<Rightarrow> u16 \<Rightarrow> kst \<Rightarrow> kst" where
  "ctrl_qid_free co qid s =
     (case co of None \<Rightarrow> s
      | Some c \<Rightarrow> set_ctrl c (\<lambda>ct. ct\<lparr>ctrl_pool := snvm_user_qid_free_locked (ctrl_pool ct) qid\<rparr>) s)"

text \<open>Step 1 of \<open>destroy_qgroup_locked\<close>: the slots from the last to the first; \<open>live\<close> is the PCI
  device when the controller is still driven by this module.\<close>

fun drain_queues :: "kenv \<Rightarrow> cid option \<Rightarrow> pdev option \<Rightarrow> snvm_user_queue list \<Rightarrow> kst \<Rightarrow> kst" where
  "drain_queues e co live [] s = s"
| "drain_queues e co live (uq # uqs) s =
     (if \<not> uq_alive uq then drain_queues e co live uqs s
      else
        let s1 = (case live of None \<Rightarrow> s
                  | Some pd \<Rightarrow> snd (adapter_delete_cq e pd (uq_qid uq) (snd (adapter_delete_sq e pd (uq_qid uq) s))))
        in drain_queues e co live uqs (ctrl_qid_free co (uq_qid uq) s1))"

definition live_pdev :: "cid option \<Rightarrow> kst \<Rightarrow> pdev option" where
  "live_pdev co s = (if snvm_ctrl_get_live_ndev co s = None then None else Some (ctrl_pdev (get_ctrl s (the co))))"

definition destroy_qgroup_locked :: "kenv \<Rightarrow> snvm_qgroup option \<Rightarrow> cid option \<Rightarrow> kst \<Rightarrow> kst" where
  "destroy_qgroup_locked e go co s =
     (case go of None \<Rightarrow> s
      | Some g \<Rightarrow>
          let s1 = drain_queues e co (live_pdev co s) (rev (g_queues g)) s;
              s2 = fold unmap_and_release (g_maps g) s1
          in s2\<lparr>k_queue_group_ida := k_queue_group_ida s2 - {unat (g_group_id g)}\<rparr>)"

subsection \<open>The queues a controller holds\<close>

fun dev_event :: "pdev \<Rightarrow> kevent \<Rightarrow> u16 set \<times> u16 set \<Rightarrow> u16 set \<times> u16 set" where
  "dev_event pd (EvAdmin pd' cmd rc) (cqs, sqs) =
     (if pd' = pd \<and> rc = 0 then
        (case cmd of CreateCQ _ q _ _ _ \<Rightarrow> (insert q cqs, sqs)
         | CreateSQ _ q _ _ _ \<Rightarrow> (cqs, insert q sqs)
         | DeleteCQ q \<Rightarrow> (cqs - {q}, sqs)
         | DeleteSQ q \<Rightarrow> (cqs, sqs - {q}))
      else (cqs, sqs))"
| "dev_event pd (EvReset pd') (cqs, sqs) = (if pd' = pd then ({}, {}) else (cqs, sqs))"
| "dev_event pd _ (cqs, sqs) = (cqs, sqs)"

definition dev_queues :: "pdev \<Rightarrow> kevent list \<Rightarrow> u16 set \<times> u16 set" where
  "dev_queues pd evs = fold (dev_event pd) evs ({}, {})"

fun is_admin :: "kevent \<Rightarrow> bool" where
  "is_admin (EvAdmin _ _ _) = True"
| "is_admin _ = False"

fun ev_cmd :: "kevent \<Rightarrow> admin_cmd option" where
  "ev_cmd (EvAdmin pd cmd rc) = Some cmd"
| "ev_cmd _ = None"

lemma dev_event_other: "\<not> is_admin ev \<Longrightarrow> (\<forall>pd. ev \<noteq> EvReset pd) \<Longrightarrow> dev_event pd ev q = q"
  by (cases ev; cases q; simp)

lemma dev_queues_append: "dev_queues pd (xs @ ys) = fold (dev_event pd) ys (dev_queues pd xs)"
  by (simp add: dev_queues_def)

lemma release_events_no_admin: "ev \<in> set (release_events n md) \<Longrightarrow> \<not> is_admin ev \<and> (\<forall>pd. ev \<noteq> EvReset pd)"
proof -
  have at: "attach_event ev \<Longrightarrow> \<not> is_admin ev \<and> (\<forall>pd. ev \<noteq> EvReset pd)" for ev by (cases ev) auto
  assume ev: "ev \<in> set (release_events n md)"
  show ?thesis
  proof (cases "map_release md")
    case (Some r)
    show ?thesis
    proof (cases "map_data md")
      case 2: (Some d)
      show ?thesis using ev Some 2
        by (cases r; cases d) (auto simp: release_events_def put_events_def split: option.splits
          dest!: gpu_unmap_events_attach unmap_events_attach at)
    qed (use ev in \<open>simp add: release_events_none\<close>)
  qed (use ev in \<open>simp add: release_events_none\<close>)
qed

lemma fold_dev_event_other:
  "\<forall>ev \<in> set evs. \<not> is_admin ev \<and> (\<forall>pd. ev \<noteq> EvReset pd) \<Longrightarrow> fold (dev_event pd) evs q = q"
  by (induction evs arbitrary: q) (auto simp: dev_event_other)

subsection \<open>Frames\<close>

lemma submit_frame [simp]:
  "snd (snvme_submit_sync_cmd e pd cmd s) = log_event (EvAdmin pd cmd (admin_reply e (k_log s) cmd)) s"
  by (simp add: snvme_submit_sync_cmd_def Let_def)

subsection \<open>Destroying a group\<close>

definition alive_qids :: "snvm_user_queue list \<Rightarrow> u16 list" where
  "alive_qids qs = map uq_qid (filter uq_alive qs)"

lemma alive_qids_simps [simp]:
  "alive_qids [] = []"
  "alive_qids (uq # qs) = (if uq_alive uq then uq_qid uq # alive_qids qs else alive_qids qs)"
  by (simp_all add: alive_qids_def)

definition free_qids :: "u16 list \<Rightarrow> qid_pool \<Rightarrow> qid_pool" where
  "free_qids qids p = fold (\<lambda>q p. snvm_user_qid_free_locked p q) qids p"

lemma free_qids_simps [simp]:
  "free_qids [] p = p" "free_qids (q # qs) p = free_qids qs (snvm_user_qid_free_locked p q)"
  by (simp_all add: free_qids_def)

fun delete_cmds :: "u16 list \<Rightarrow> admin_cmd list" where
  "delete_cmds [] = []"
| "delete_cmds (q # qs) = DeleteSQ q # DeleteCQ q # delete_cmds qs"

text \<open>Every event is an admin command to \<open>pd\<close>, with the reply the device gave.\<close>

definition admin_events :: "kenv \<Rightarrow> pdev \<Rightarrow> kevent list \<Rightarrow> bool" where
  "admin_events e pd evs \<longleftrightarrow> (\<forall>ev \<in> set evs. \<exists>cmd lg. ev = EvAdmin pd cmd (admin_reply e lg cmd))"

lemma admin_events_simps [simp]:
  "admin_events e pd []"
  "admin_events e pd (ev # evs) \<longleftrightarrow> (\<exists>cmd lg. ev = EvAdmin pd cmd (admin_reply e lg cmd)) \<and> admin_events e pd evs"
  "admin_events e pd (evs @ evs') \<longleftrightarrow> admin_events e pd evs \<and> admin_events e pd evs'"
  by (auto simp: admin_events_def)

lemma reply_ex [simp]: "\<exists>lg'. admin_reply e lg c = admin_reply e lg' c"
  by blast

lemma delete_pair_events:
  "\<exists>lg lg'. snd (adapter_delete_cq e pd q (snd (adapter_delete_sq e pd q s))) =
     log_events [EvAdmin pd (DeleteSQ q) (admin_reply e lg (DeleteSQ q)),
                 EvAdmin pd (DeleteCQ q) (admin_reply e lg' (DeleteCQ q))] s"
  by (auto simp: adapter_delete_cq_def adapter_delete_sq_def log_event_eq log_events_add)

lemma drain_queues_effect:
  assumes "k_ctrls s c = Some ct"
  shows "\<exists>evs. drain_queues e (Some c) live qs s =
      s\<lparr>k_ctrls := (k_ctrls s)(c \<mapsto> ct\<lparr>ctrl_pool := free_qids (alive_qids qs) (ctrl_pool ct)\<rparr>), k_log := k_log s @ evs\<rparr> \<and>
    (case live of None \<Rightarrow> evs = []
     | Some pd \<Rightarrow> admin_events e pd evs \<and> map ev_cmd evs = map Some (delete_cmds (alive_qids qs)))"
  using assms
proof (induction qs arbitrary: s ct)
  case Nil
  then show ?case
    by (intro exI [of _ "[]"]) (simp add: fun_upd_idem split: option.splits)
next
  case (Cons uq qs)
  show ?case
  proof (cases "uq_alive uq")
    case False
    then have a: "alive_qids (uq # qs) = alive_qids qs"
      "drain_queues e (Some c) live (uq # qs) s = drain_queues e (Some c) live qs s" by simp_all
    show ?thesis unfolding a by (rule Cons.IH [OF Cons.prems])
  next
    case True
    let ?s1 = "case live of None \<Rightarrow> s
      | Some pd \<Rightarrow> snd (adapter_delete_cq e pd (uq_qid uq) (snd (adapter_delete_sq e pd (uq_qid uq) s)))"
    obtain evs1 where s1: "?s1 = log_events evs1 s"
      and e1: "case live of None \<Rightarrow> evs1 = []
        | Some pd \<Rightarrow> admin_events e pd evs1 \<and> map ev_cmd evs1 = [Some (DeleteSQ (uq_qid uq)), Some (DeleteCQ (uq_qid uq))]"
    proof (cases live)
      case None then show thesis using that [of "[]"] by simp
    next
      case (Some pd)
      obtain lg lg' where "snd (adapter_delete_cq e pd (uq_qid uq) (snd (adapter_delete_sq e pd (uq_qid uq) s))) =
        log_events [EvAdmin pd (DeleteSQ (uq_qid uq)) (admin_reply e lg (DeleteSQ (uq_qid uq))),
          EvAdmin pd (DeleteCQ (uq_qid uq)) (admin_reply e lg' (DeleteCQ (uq_qid uq)))] s"
        using delete_pair_events by blast
      then show thesis using Some
        by (intro that [of "[EvAdmin pd (DeleteSQ (uq_qid uq)) (admin_reply e lg (DeleteSQ (uq_qid uq))),
          EvAdmin pd (DeleteCQ (uq_qid uq)) (admin_reply e lg' (DeleteCQ (uq_qid uq)))]"]) auto
    qed
    let ?ct = "ct\<lparr>ctrl_pool := snvm_user_qid_free_locked (ctrl_pool ct) (uq_qid uq)\<rparr>"
    let ?s2 = "ctrl_qid_free (Some c) (uq_qid uq) (log_events evs1 s)"
    have s2: "?s2 = s\<lparr>k_ctrls := (k_ctrls s)(c \<mapsto> ?ct), k_log := k_log s @ evs1\<rparr>"
      using Cons.prems by (simp add: ctrl_qid_free_def set_ctrl_def get_ctrl_def log_events_def)
    have "k_ctrls ?s2 c = Some ?ct" by (simp add: s2)
    from Cons.IH [OF this] obtain evs where
      ih: "drain_queues e (Some c) live qs ?s2 =
        ?s2\<lparr>k_ctrls := (k_ctrls ?s2)(c \<mapsto> ?ct\<lparr>ctrl_pool := free_qids (alive_qids qs) (ctrl_pool ?ct)\<rparr>), k_log := k_log ?s2 @ evs\<rparr>"
      and ev: "case live of None \<Rightarrow> evs = []
        | Some pd \<Rightarrow> admin_events e pd evs \<and> map ev_cmd evs = map Some (delete_cmds (alive_qids qs))" by blast
    have "drain_queues e (Some c) live (uq # qs) s = drain_queues e (Some c) live qs ?s2"
      using True s1 by (simp add: Let_def)
    also have "\<dots> = s\<lparr>k_ctrls := (k_ctrls s)(c \<mapsto> ct\<lparr>ctrl_pool := free_qids (alive_qids (uq # qs)) (ctrl_pool ct)\<rparr>),
      k_log := k_log s @ (evs1 @ evs)\<rparr>"
      unfolding ih unfolding s2 using True by simp
    finally have st: "drain_queues e (Some c) live (uq # qs) s = s\<lparr>k_ctrls := (k_ctrls s)(c \<mapsto>
      ct\<lparr>ctrl_pool := free_qids (alive_qids (uq # qs)) (ctrl_pool ct)\<rparr>), k_log := k_log s @ (evs1 @ evs)\<rparr>" .
    have "case live of None \<Rightarrow> evs1 @ evs = []
      | Some pd \<Rightarrow> admin_events e pd (evs1 @ evs) \<and> map ev_cmd (evs1 @ evs) = map Some (delete_cmds (alive_qids (uq # qs)))"
      using True e1 ev by (auto split: option.splits)
    with st show ?thesis by blast
  qed
qed

lemma alive_qids_rev [simp]: "alive_qids (rev qs) = rev (alive_qids qs)"
  by (simp add: alive_qids_def rev_filter rev_map)

lemma fold_unmap_log:
  "\<exists>evs. k_log (fold unmap_and_release ms s) = k_log s @ evs \<and> (\<forall>ev \<in> set evs. \<not> is_admin ev \<and> (\<forall>pd. ev \<noteq> EvReset pd))"
proof (induction ms arbitrary: s)
  case (Cons m ms)
  obtain evs where "k_log (fold unmap_and_release ms (unmap_and_release m s)) = k_log (unmap_and_release m s) @ evs"
    "\<forall>ev \<in> set evs. \<not> is_admin ev \<and> (\<forall>pd. ev \<noteq> EvReset pd)" using Cons.IH by blast
  then show ?case
    by (intro exI [of _ "release_events (length (k_ctrl_list s)) (get_map s m) @ evs"])
      (auto dest: release_events_no_admin)
qed simp

lemma fold_unmap_frame [simp]:
  "k_ctrls (fold unmap_and_release ms s) = k_ctrls s" "k_ctrl_list (fold unmap_and_release ms s) = k_ctrl_list s"
  "k_next_cid (fold unmap_and_release ms s) = k_next_cid s" "k_pci (fold unmap_and_release ms s) = k_pci s"
  "k_chrdev_minor_ida (fold unmap_and_release ms s) = k_chrdev_minor_ida s"
  "k_queue_group_ida (fold unmap_and_release ms s) = k_queue_group_ida s"
  "k_registered (fold unmap_and_release ms s) = k_registered s"
  "k_maps (fold unmap_and_release ms s) m = (if m \<in> set ms then None else k_maps s m)"
  "dom (k_maps (fold unmap_and_release ms s)) = dom (k_maps s) - set ms"
  by (induction ms arbitrary: s) auto

lemma destroy_qgroup_effect:
  assumes "k_ctrls s c = Some ct"
  obtains dels where
    "destroy_qgroup_locked e (Some g) (Some c) s =
       (fold unmap_and_release (g_maps g)
          (s\<lparr>k_ctrls := (k_ctrls s)(c \<mapsto> ct\<lparr>ctrl_pool := free_qids (rev (alive_qids (g_queues g))) (ctrl_pool ct)\<rparr>),
             k_log := k_log s @ dels\<rparr>))
       \<lparr>k_queue_group_ida := k_queue_group_ida s - {unat (g_group_id g)}\<rparr>"
    "case live_pdev (Some c) s of None \<Rightarrow> dels = []
     | Some pd \<Rightarrow> admin_events e pd dels \<and> map ev_cmd dels = map Some (delete_cmds (rev (alive_qids (g_queues g))))"
proof -
  obtain dels where d: "drain_queues e (Some c) (live_pdev (Some c) s) (rev (g_queues g)) s =
      s\<lparr>k_ctrls := (k_ctrls s)(c \<mapsto> ct\<lparr>ctrl_pool := free_qids (rev (alive_qids (g_queues g))) (ctrl_pool ct)\<rparr>), k_log := k_log s @ dels\<rparr>"
    and e: "case live_pdev (Some c) s of None \<Rightarrow> dels = []
     | Some pd \<Rightarrow> admin_events e pd dels \<and> map ev_cmd dels = map Some (delete_cmds (rev (alive_qids (g_queues g))))"
    using drain_queues_effect [OF assms, of e _ "rev (g_queues g)", unfolded alive_qids_rev] by blast
  show ?thesis
    by (rule that [of dels]) (use d e in \<open>simp_all add: destroy_qgroup_locked_def Let_def\<close>)
qed

lemma fold_dev_delete:
  assumes "map ev_cmd dels = map Some (delete_cmds qs)" "\<forall>ev \<in> set dels. \<exists>cmd. ev = EvAdmin pd cmd 0"
  shows "fold (dev_event pd) dels (cqs, sqs) = (cqs - set qs, sqs - set qs)"
  using assms
proof (induction qs arbitrary: dels cqs sqs)
  case (Cons q qs)
  then obtain d1 d2 ds where dels: "dels = d1 # d2 # ds" "ev_cmd d1 = Some (DeleteSQ q)" "ev_cmd d2 = Some (DeleteCQ q)"
    "map ev_cmd ds = map Some (delete_cmds qs)" by (auto simp: map_eq_Cons_conv)
  then have "d1 = EvAdmin pd (DeleteSQ q) 0" "d2 = EvAdmin pd (DeleteCQ q) 0" using Cons.prems(2) by auto
  then show ?case using Cons dels by (auto simp: Diff_insert2 [symmetric])
qed simp

subsection \<open>Properties\<close>

text \<open>C8. Tearing down a queue group is ordered so that the controller can never use a ring whose
  memory is gone. The log grows by two parts: first the admin commands, for every live queue
  and in reverse creation order \<open>Delete I/O SQ\<close> immediately followed by \<open>Delete I/O CQ\<close> of the same
  QID (none at all when the controller is no longer driven by this module); only then the
  releases of the ring memory, among which there is no admin command.\<close>

theorem destroy_qgroup_deletes_before_unmapping:
  assumes "k_ctrls s c = Some ct"
  shows "\<exists>dels rels. k_log (destroy_qgroup_locked e (Some g) (Some c) s) = k_log s @ dels @ rels \<and>
    map ev_cmd dels = (if snvm_ctrl_get_live_ndev (Some c) s = None then []
                       else map Some (delete_cmds (rev (alive_qids (g_queues g))))) \<and>
    (\<forall>ev \<in> set rels. \<not> is_admin ev) \<and>
    (\<forall>m \<in> set (g_maps g). k_maps (destroy_qgroup_locked e (Some g) (Some c) s) m = None)"
proof -
  obtain dels where d: "destroy_qgroup_locked e (Some g) (Some c) s =
       (fold unmap_and_release (g_maps g)
          (s\<lparr>k_ctrls := (k_ctrls s)(c \<mapsto> ct\<lparr>ctrl_pool := free_qids (rev (alive_qids (g_queues g))) (ctrl_pool ct)\<rparr>),
             k_log := k_log s @ dels\<rparr>))
       \<lparr>k_queue_group_ida := k_queue_group_ida s - {unat (g_group_id g)}\<rparr>"
    "case live_pdev (Some c) s of None \<Rightarrow> dels = []
     | Some pd \<Rightarrow> admin_events e pd dels \<and> map ev_cmd dels = map Some (delete_cmds (rev (alive_qids (g_queues g))))"
    using destroy_qgroup_effect [OF assms] .
  let ?t = "s\<lparr>k_ctrls := (k_ctrls s)(c \<mapsto> ct\<lparr>ctrl_pool := free_qids (rev (alive_qids (g_queues g))) (ctrl_pool ct)\<rparr>), k_log := k_log s @ dels\<rparr>"
  obtain rels where r: "k_log (fold unmap_and_release (g_maps g) ?t) = k_log ?t @ rels" "\<forall>ev \<in> set rels. \<not> is_admin ev"
    using fold_unmap_log by blast
  have "map ev_cmd dels = (if snvm_ctrl_get_live_ndev (Some c) s = None then []
      else map Some (delete_cmds (rev (alive_qids (g_queues g)))))"
    using d(2) by (auto simp: live_pdev_def split: if_splits)
  then show ?thesis using r unfolding d(1) by (intro exI [of _ dels] exI [of _ rels]) simp
qed

definition user_queue_ex :: "u16 \<Rightarrow> bool \<Rightarrow> snvm_user_queue" where
  "user_queue_ex q a = \<lparr>uq_qid = q, uq_alive = a, uq_sq_vaddr = 0x1000, uq_cq_vaddr = 0x2000\<rparr>"

definition group_ex :: snvm_qgroup where
  "group_ex = \<lparr>g_group_id = 5, g_max_queues = 16, g_maps = [2], g_nr_maps = 1,
     g_queues = user_queue_ex 3 True # user_queue_ex 4 True # replicate 14 (user_queue_ex 0 False), g_cur_queues = 2\<rparr>"

lemma live_ndev_ex:
  "k_ctrls s 0 = Some ctrl_ex \<Longrightarrow> k_pci s 1 = Some pci_ex \<Longrightarrow> snvm_ctrl_get_live_ndev (Some 0) s = Some nd_ex"
  by (simp add: snvm_ctrl_get_live_ndev_def get_ctrl_def ctrl_ex_def pci_ex_def PCI_DRIVER_NAME_def nd_ex_def)

theorem destroy_qgroup_deletes_before_unmapping_witness:
  "\<exists>dels rels. k_log (destroy_qgroup_locked env_ex (Some group_ex) (Some 0) kst_ex_maps) = dels @ rels \<and>
     map ev_cmd dels = map Some [DeleteSQ 4, DeleteCQ 4, DeleteSQ 3, DeleteCQ 3] \<and> (\<forall>ev \<in> set rels. \<not> is_admin ev)"
proof -
  have c: "k_ctrls kst_ex_maps 0 = Some ctrl_ex" by (simp add: kst_ex_maps_def kst_ex_def)
  have l: "snvm_ctrl_get_live_ndev (Some 0) kst_ex_maps \<noteq> None"
    by (subst live_ndev_ex) (simp_all add: kst_ex_maps_def kst_ex_def)
  have "alive_qids (g_queues group_ex) = [3, 4]"
    by (simp add: group_ex_def user_queue_ex_def alive_qids_def)
  moreover have lg: "k_log kst_ex_maps = []" by (simp add: kst_ex_maps_def kst_ex_def kst_init_def)
  obtain dels rels where "k_log (destroy_qgroup_locked env_ex (Some group_ex) (Some 0) kst_ex_maps) = dels @ rels"
    "map ev_cmd dels = map Some (delete_cmds (rev (alive_qids (g_queues group_ex))))" "\<forall>ev \<in> set rels. \<not> is_admin ev"
    using destroy_qgroup_deletes_before_unmapping [OF c, of env_ex group_ex] l lg by (metis append_Nil)
  ultimately show ?thesis by (intro exI [of _ dels] exI [of _ rels]) simp
qed

text \<open>C21. While the device of the controller is live and the controller accepts the delete commands, destroying a group
  removes exactly the group's queues from the controller, on the completion and on the submission side, and returns
  their QIDs to the pool and the group id to the id allocator; the controller keeps its other queues.\<close>

theorem destroy_qgroup_removes_queues:
  assumes "k_ctrls s c = Some ct" "live_pdev (Some c) s = Some pd" "pool_wf (ctrl_pool ct)"
    "\<forall>lg q. admin_reply e lg (DeleteSQ q) = 0 \<and> admin_reply e lg (DeleteCQ q) = 0"
    "dev_queues pd (k_log s) = (cqs, sqs)"
  shows "let s' = destroy_qgroup_locked e (Some g) (Some c) s; qs = set (alive_qids (g_queues g)) in
    dev_queues pd (k_log s') = (cqs - qs, sqs - qs) \<and>
    pool_used (ctrl_pool (get_ctrl s' c)) = pool_used (ctrl_pool ct) - qs \<and>
    k_queue_group_ida s' = k_queue_group_ida s - {unat (g_group_id g)}"
proof -
  obtain dels where d: "destroy_qgroup_locked e (Some g) (Some c) s =
       (fold unmap_and_release (g_maps g)
          (s\<lparr>k_ctrls := (k_ctrls s)(c \<mapsto> ct\<lparr>ctrl_pool := free_qids (rev (alive_qids (g_queues g))) (ctrl_pool ct)\<rparr>),
             k_log := k_log s @ dels\<rparr>))
       \<lparr>k_queue_group_ida := k_queue_group_ida s - {unat (g_group_id g)}\<rparr>"
    "case live_pdev (Some c) s of None \<Rightarrow> dels = []
     | Some pd \<Rightarrow> admin_events e pd dels \<and> map ev_cmd dels = map Some (delete_cmds (rev (alive_qids (g_queues g))))"
    using destroy_qgroup_effect [OF assms(1)] .
  let ?t = "s\<lparr>k_ctrls := (k_ctrls s)(c \<mapsto> ct\<lparr>ctrl_pool := free_qids (rev (alive_qids (g_queues g))) (ctrl_pool ct)\<rparr>), k_log := k_log s @ dels\<rparr>"
  have a: "admin_events e pd dels" "map ev_cmd dels = map Some (delete_cmds (rev (alive_qids (g_queues g))))"
    using d(2) assms(2) by auto
  obtain rels where r: "k_log (fold unmap_and_release (g_maps g) ?t) = k_log ?t @ rels"
    "\<forall>ev \<in> set rels. \<not> is_admin ev \<and> (\<forall>pd. ev \<noteq> EvReset pd)"
    using fold_unmap_log by blast
  have dc: "\<exists>q. cmd = DeleteSQ q \<or> cmd = DeleteCQ q" if "cmd \<in> set (delete_cmds qs)" for cmd qs
    using that by (induction qs) auto
  have z: "\<forall>ev \<in> set dels. \<exists>cmd. ev = EvAdmin pd cmd 0"
  proof
    fix ev assume ev: "ev \<in> set dels"
    obtain cmd lg where cmd: "ev = EvAdmin pd cmd (admin_reply e lg cmd)"
      using a(1) ev unfolding admin_events_def by blast
    have "ev_cmd ev \<in> set (map Some (delete_cmds (rev (alive_qids (g_queues g)))))"
      using ev unfolding a(2) [symmetric] by simp
    then have "cmd \<in> set (delete_cmds (rev (alive_qids (g_queues g))))" using cmd by auto
    then have "admin_reply e lg cmd = 0" using dc assms(4) by blast
    then show "\<exists>cmd. ev = EvAdmin pd cmd 0" using cmd by auto
  qed
  have "dev_queues pd (k_log (fold unmap_and_release (g_maps g) ?t)) =
      (cqs - set (alive_qids (g_queues g)), sqs - set (alive_qids (g_queues g)))"
    unfolding r(1) by (simp add: dev_queues_append assms(5) fold_dev_event_other [OF r(2)] fold_dev_delete [OF a(2) z])
  moreover have "pool_used (free_qids (rev (alive_qids (g_queues g))) (ctrl_pool ct)) =
    pool_used (ctrl_pool ct) - set (alive_qids (g_queues g))"
    using qp.free_all [OF assms(3)] by (simp add: free_qids_def)
  ultimately show ?thesis by (simp add: d(1) get_ctrl_def)
qed

definition kst_ex_queues :: kst where
  "kst_ex_queues = kst_ex_maps\<lparr>k_ctrls := [0 \<mapsto> ctrl_ex\<lparr>ctrl_pool := pool_ex\<rparr>],
     k_log := concat (map (\<lambda>q. [EvAdmin 1 (CreateCQ 0x10000 q 1023 1 0) 0, EvAdmin 1 (CreateSQ 0x20000 q 1023 1 q) 0]) [3, 4, 5])\<rparr>"

theorem destroy_qgroup_removes_queues_witness:
  "dev_queues 1 (k_log kst_ex_queues) = ({3, 4, 5}, {3, 4, 5}) \<and>
   dev_queues 1 (k_log (destroy_qgroup_locked env_ex (Some group_ex) (Some 0) kst_ex_queues)) = ({5}, {5})"
proof -
  have "live_pdev (Some 0) kst_ex_queues = Some 1"
    by (simp add: live_pdev_def snvm_ctrl_get_live_ndev_def get_ctrl_def ctrl_ex_def kst_ex_queues_def kst_ex_maps_def kst_ex_def
        pci_ex_def PCI_DRIVER_NAME_def nd_ex_def)
  moreover have "alive_qids (g_queues group_ex) = [3, 4]"
    by (simp add: group_ex_def user_queue_ex_def alive_qids_def)
  moreover have d: "dev_queues 1 (k_log kst_ex_queues) = ({3, 4, 5}, {3, 4, 5})"
    by (auto simp: dev_queues_def kst_ex_queues_def)
  moreover have "k_ctrls kst_ex_queues 0 = Some (ctrl_ex\<lparr>ctrl_pool := pool_ex\<rparr>)" by (simp add: kst_ex_queues_def)
  moreover have "{3, 4, 5} - {3, 4} = {5 :: u16}" by auto
  ultimately show ?thesis
    using destroy_qgroup_removes_queues [of kst_ex_queues 0 "ctrl_ex\<lparr>ctrl_pool := pool_ex\<rparr>" 1 env_ex "{3, 4, 5}" "{3, 4, 5}" group_ex] pool_ex_wf
    by (simp add: env_ex_def Let_def)
qed

end
