(* ===== verification/Queue_Ioctl.thy ===== *)
theory Queue_Ioctl
  imports Queue_Group
begin

text \<open>
  The data-plane requests for queue groups and user queues of \<open>snvm_dev_map_ioctl\<close> (\<open>pci.c\<close>):
  \<open>NVM_CREATE_QUEUE_GROUP\<close>, \<open>NVM_DESTROY_QUEUE_GROUP\<close> and \<open>NVM_ADD_USER_QUEUE\<close>. A handler takes the
  controller the file belongs to, the file and the request, and returns the result of the
  system call, the record copied back to user space (when one is) and the new state.
\<close>

unbundle bit_operations_syntax

definition get_own :: "kst \<Rightarrow> fid \<Rightarrow> snvm_dev_owner" where
  "get_own s f = the (k_files s f)"

definition set_own :: "fid \<Rightarrow> (snvm_dev_owner \<Rightarrow> snvm_dev_owner) \<Rightarrow> kst \<Rightarrow> kst" where
  "set_own f h s = s\<lparr>k_files := (k_files s)(f \<mapsto> h (get_own s f))\<rparr>"

definition set_group :: "fid \<Rightarrow> u32 \<Rightarrow> (snvm_qgroup \<Rightarrow> snvm_qgroup) \<Rightarrow> kst \<Rightarrow> kst" where
  "set_group f gid h s = set_own f (\<lambda>own. own\<lparr>own_groups :=
     map (\<lambda>g. if g_group_id g = gid then h g else g) (own_groups own)\<rparr>) s"

subsection \<open>Creating and destroying a group\<close>

record nvm_ioctl_queue_group =
  qg_group_id :: u32
  qg_flags :: u32
  qg_max_queues :: u32
  qg_reserved :: "u32 list"

definition zero_queue :: snvm_user_queue where
  "zero_queue = \<lparr>uq_qid = 0, uq_alive = False, uq_sq_vaddr = 0, uq_cq_vaddr = 0\<rparr>"

definition new_qgroup :: "u32 \<Rightarrow> snvm_qgroup" where
  "new_qgroup gid = \<lparr>g_group_id = gid, g_max_queues = of_nat NVM_MAX_QUEUES_PER_GROUP, g_maps = [], g_nr_maps = 0,
     g_queues = replicate NVM_MAX_QUEUES_PER_GROUP zero_queue, g_cur_queues = 0\<rparr>"

definition nvm_create_queue_group ::
  "kenv \<Rightarrow> cid \<Rightarrow> fid \<Rightarrow> nvm_ioctl_queue_group \<Rightarrow> kst \<Rightarrow> int \<times> nvm_ioctl_queue_group option \<times> kst" where
  "nvm_create_queue_group e c f req s =
     (case k_files s f of None \<Rightarrow> (- ENODEV, None, s)
      | Some own \<Rightarrow>
          if \<not> copy_from_user_ok e then (- EFAULT, None, s)
          else if qg_flags req \<noteq> 0 then (- EINVAL, None, s)
          else if \<exists>r \<in> set (qg_reserved req). r \<noteq> 0 then (- EINVAL, None, s)
          else if own_nr_groups own \<ge> NVM_MAX_GROUPS_PER_FD then (- EBUSY, None, s)
          else if \<not> kmalloc_ok e A_group then (- ENOMEM, None, s)
          else
            let new_id = ida_simple_get e (k_queue_group_ida s) 1 in
            if new_id < 0 then (new_id, None, s)
            else
              let g = new_qgroup (of_int new_id);
                  s1 = s\<lparr>k_queue_group_ida := insert (nat new_id) (k_queue_group_ida s)\<rparr>;
                  s2 = set_own f (\<lambda>own. own\<lparr>own_groups := own_groups own @ [g], own_nr_groups := own_nr_groups own + 1\<rparr>) s1
              in if \<not> copy_to_user_ok e
                 then (- EFAULT, None, destroy_qgroup_locked e (Some g) (Some c)
                         (set_own f (\<lambda>own. own\<lparr>own_groups := remove1 g (own_groups own), own_nr_groups := own_nr_groups own - 1\<rparr>) s2))
                 else (0, Some (req\<lparr>qg_group_id := g_group_id g, qg_max_queues := g_max_queues g\<rparr>), s2))"

definition nvm_destroy_queue_group :: "kenv \<Rightarrow> cid \<Rightarrow> fid \<Rightarrow> u32 \<Rightarrow> kst \<Rightarrow> int \<times> kst" where
  "nvm_destroy_queue_group e c f group_id s =
     (case k_files s f of None \<Rightarrow> (- ENODEV, s)
      | Some own \<Rightarrow>
          if \<not> copy_from_user_ok e then (- EFAULT, s)
          else if group_id = 0 then (- EINVAL, s)
          else case find_qgroup_locked (Some own) group_id of
              None \<Rightarrow> (- ENOENT, s)
            | Some g \<Rightarrow>
                (0, destroy_qgroup_locked e (Some g) (Some c)
                      (set_own f (\<lambda>own. own\<lparr>own_groups := remove1 g (own_groups own), own_nr_groups := own_nr_groups own - 1\<rparr>) s)))"

subsection \<open>Adding user queues\<close>

record nvm_user_queue_pair_in =
  in_sq_vaddr :: u64
  in_cq_vaddr :: u64

record nvm_user_queue_pair_out =
  out_sq_doorbell_offset :: u32
  out_cq_doorbell_offset :: u32
  out_qid :: u32

record nvm_ioctl_add_user_queue =
  aq_group_id :: u32
  aq_nr_pairs :: u32
  aq_flags :: u32
  aq_reserved :: "u32 list"
  aq_pairs :: "nvm_user_queue_pair_in list"

text \<open>The checks on the batch; a failing one returns \<open>-EINVAL\<close>.\<close>

definition pairs_ok :: "nvm_user_queue_pair_in list \<Rightarrow> bool" where
  "pairs_ok ps \<longleftrightarrow> (\<forall>i < length ps.
     in_sq_vaddr (ps ! i) \<noteq> 0 \<and> in_cq_vaddr (ps ! i) \<noteq> 0 \<and> in_sq_vaddr (ps ! i) \<noteq> in_cq_vaddr (ps ! i) \<and>
     (\<forall>j < i. in_sq_vaddr (ps ! i) \<noteq> in_sq_vaddr (ps ! j) \<and> in_cq_vaddr (ps ! i) \<noteq> in_cq_vaddr (ps ! j)))"

definition ring_mask :: "kmap \<Rightarrow> u64" where
  "ring_mask md = NOT ((if map_page_size md \<noteq> 0 then map_page_size md else PAGE_SIZE) - 1)"

definition matches_sq :: "u64 \<Rightarrow> kmap \<Rightarrow> bool" where
  "matches_sq sq_vaddr md \<longleftrightarrow> map_vaddr md = sq_vaddr AND ring_mask md \<and>
     (map_kind md = 0 \<or> map_kind md = NVM_MAP_KIND_RING_SQ)"

definition matches_cq :: "u64 \<Rightarrow> kmap \<Rightarrow> bool" where
  "matches_cq cq_vaddr md \<longleftrightarrow> map_vaddr md = cq_vaddr AND ring_mask md \<and>
     (map_kind md = 0 \<or> map_kind md = NVM_MAP_KIND_RING_CQ)"

text \<open>The walk over the group's maps: a later match replaces an earlier one until both are found.\<close>

fun resolve_rings :: "kst \<Rightarrow> nvm_user_queue_pair_in \<Rightarrow> mid list \<Rightarrow> mid option \<Rightarrow> mid option \<Rightarrow> (mid \<times> mid) option" where
  "resolve_rings s pr [] (Some m_sq) (Some m_cq) = Some (m_sq, m_cq)"
| "resolve_rings s pr [] _ _ = None"
| "resolve_rings s pr (m # ms) m_sq m_cq =
     (if map_kind (get_map s m) = NVM_MAP_KIND_DATA then resolve_rings s pr ms m_sq m_cq
      else
        let m_sq' = (if matches_sq (in_sq_vaddr pr) (get_map s m) then Some m else m_sq);
            m_cq' = (if matches_cq (in_cq_vaddr pr) (get_map s m) then Some m else m_cq)
        in case (m_sq', m_cq') of
             (Some a, Some b) \<Rightarrow> Some (a, b)
           | _ \<Rightarrow> resolve_rings s pr ms m_sq' m_cq')"

fun resolve_pairs :: "kst \<Rightarrow> mid list \<Rightarrow> nvm_user_queue_pair_in list \<Rightarrow> (mid \<times> mid) list option" where
  "resolve_pairs s ms [] = Some []"
| "resolve_pairs s ms (pr # prs) =
     (case resolve_rings s pr ms None None of None \<Rightarrow> None
      | Some r \<Rightarrow> (case resolve_pairs s ms prs of None \<Rightarrow> None | Some rs \<Rightarrow> Some (r # rs)))"

text \<open>Creating the queues on the controller, completion queue first; \<open>created\<close> counts the complete
  pairs.\<close>

fun create_pairs :: "kenv \<Rightarrow> pdev \<Rightarrow> nvme_dev \<Rightarrow> (u16 \<times> mid \<times> mid) list \<Rightarrow> nat \<Rightarrow> kst \<Rightarrow> int \<times> nat \<times> kst" where
  "create_pairs e pd nd [] created s = (0, created, s)"
| "create_pairs e pd nd ((qid, sq_map, cq_map) # ps) created s =
     (case adapter_alloc_cq_user e pd nd cq_map qid s of
        (rc, s1) \<Rightarrow>
          if rc \<noteq> 0 then (rc, created, s1)
          else case adapter_alloc_sq_user e pd nd sq_map qid s1 of
            (rc, s2) \<Rightarrow>
              if rc \<noteq> 0 then (rc, created, snd (adapter_delete_cq e pd qid s2))
              else create_pairs e pd nd ps (Suc created) s2)"

fun delete_pairs :: "kenv \<Rightarrow> pdev \<Rightarrow> u16 list \<Rightarrow> kst \<Rightarrow> kst" where
  "delete_pairs e pd [] s = s"
| "delete_pairs e pd (q # qs) s =
     delete_pairs e pd qs (snd (adapter_delete_cq e pd q (snd (adapter_delete_sq e pd q s))))"

definition set_pool :: "cid \<Rightarrow> qid_pool \<Rightarrow> kst \<Rightarrow> kst" where
  "set_pool c p s = set_ctrl c (ctrl_pool_update (\<lambda>_. p)) s"

abbreviation (input) NVME_REG_DBS :: u32 where "NVME_REG_DBS \<equiv> 0x1000"

definition sq_doorbell :: "u16 \<Rightarrow> u32 \<Rightarrow> u32" where
  "sq_doorbell qid db_stride = NVME_REG_DBS + ucast qid * 2 * db_stride * 4"

definition cq_doorbell :: "u16 \<Rightarrow> u32 \<Rightarrow> u32" where
  "cq_doorbell qid db_stride = NVME_REG_DBS + (ucast qid * 2 + 1) * db_stride * 4"

fun commit_slots :: "nat \<Rightarrow> (u16 \<times> nvm_user_queue_pair_in) list \<Rightarrow> snvm_user_queue list \<Rightarrow> snvm_user_queue list" where
  "commit_slots i [] qs = qs"
| "commit_slots i ((qid, pr) # ps) qs =
     commit_slots (Suc i) ps (qs[i := \<lparr>uq_qid = qid, uq_alive = True, uq_sq_vaddr = in_sq_vaddr pr, uq_cq_vaddr = in_cq_vaddr pr\<rparr>])"

definition add_out :: "nvme_dev \<Rightarrow> u16 \<Rightarrow> nvm_user_queue_pair_out" where
  "add_out nd qid = \<lparr>out_sq_doorbell_offset = sq_doorbell qid (nd_db_stride nd),
     out_cq_doorbell_offset = cq_doorbell qid (nd_db_stride nd), out_qid = ucast qid\<rparr>"

text \<open>The part that runs with \<open>groups_lock\<close> held: \<open>Inl\<close> an error, \<open>Inr\<close> the output pairs.\<close>

definition add_user_queue_locked ::
  "kenv \<Rightarrow> cid \<Rightarrow> fid \<Rightarrow> nvm_ioctl_add_user_queue \<Rightarrow> kst \<Rightarrow> (int + nvm_user_queue_pair_out list) \<times> kst" where
  "add_user_queue_locked e c f req s =
     (case k_files s f of None \<Rightarrow> (Inl (- ENODEV), s)
      | Some own \<Rightarrow>
          if \<not> kmalloc_ok e A_request then (Inl (- ENOMEM), s)
          else if \<not> copy_from_user_ok e then (Inl (- EFAULT), s)
          else if aq_flags req \<noteq> 0 then (Inl (- EINVAL), s)
          else if \<exists>r \<in> set (aq_reserved req). r \<noteq> 0 then (Inl (- EINVAL), s)
          else if aq_nr_pairs req = 0 \<or> aq_nr_pairs req > of_nat NVM_MAX_QUEUES_PER_GROUP then (Inl (- EINVAL), s)
          else
            let nr = unat (aq_nr_pairs req); prs = take nr (aq_pairs req) in
            if \<not> pairs_ok prs then (Inl (- EINVAL), s)
            else case snvm_ctrl_get_live_ndev (Some c) s of
                None \<Rightarrow> (Inl (- ENODEV), s)
              | Some nd \<Rightarrow>
                  (case find_qgroup_locked (Some own) (aq_group_id req) of
                     None \<Rightarrow> (Inl (- ENOENT), s)
                   | Some g \<Rightarrow>
                       if g_cur_queues g + aq_nr_pairs req > g_max_queues g then (Inl (- EBUSY), s)
                       else case resolve_pairs s (g_maps g) prs of
                           None \<Rightarrow> (Inl (- ENOENT), s)
                         | Some rings \<Rightarrow>
                             (case snvm_user_qid_pool_init_locked e (ctrl_pool (get_ctrl s c)) (Some nd) of
                                (rc, p1) \<Rightarrow>
                                  let s1 = set_pool c p1 s in
                                  if rc \<noteq> 0 then (Inl rc, s1)
                                  else case snvm_user_qid_alloc_locked p1 nr of
                                    (rc, p2, qids) \<Rightarrow>
                                      let s2 = set_pool c p2 s1 in
                                      if rc \<noteq> 0 then (Inl rc, s2)
                                      else
                                        let pd = ctrl_pdev (get_ctrl s c) in
                                        (case create_pairs e pd nd (zip qids rings) 0 s2 of
                                           (rc, created, s3) \<Rightarrow>
                                             if rc \<noteq> 0 then
                                               let s4 = delete_pairs e pd (rev (take created qids)) s3
                                               in (Inl rc, set_pool c (free_qids qids (ctrl_pool (get_ctrl s4 c))) s4)
                                             else
                                               (Inr (map (add_out nd) qids),
                                                set_group f (aq_group_id req)
                                                  (\<lambda>g. g\<lparr>g_queues := commit_slots (unat (g_cur_queues g)) (zip qids prs) (g_queues g),
                                                         g_cur_queues := g_cur_queues g + aq_nr_pairs req\<rparr>) s3)))))"

text \<open>When the results cannot be copied back, the lock is taken again and the last \<open>nr\<close> slots of the
  group are undone.\<close>

fun undo_slots :: "kenv \<Rightarrow> pdev \<Rightarrow> cid \<Rightarrow> fid \<Rightarrow> u32 \<Rightarrow> nat list \<Rightarrow> kst \<Rightarrow> kst" where
  "undo_slots e pd c f gid [] s = s"
| "undo_slots e pd c f gid (i # is) s =
     (let g = the (find_qgroup_locked (k_files s f) gid);
          qid = uq_qid (g_queues g ! i);
          s1 = snd (adapter_delete_cq e pd qid (snd (adapter_delete_sq e pd qid s)));
          s2 = set_group f gid (\<lambda>g. g\<lparr>g_queues := (g_queues g)[i := (g_queues g ! i)\<lparr>uq_alive := False\<rparr>]\<rparr>) s1
      in undo_slots e pd c f gid is (ctrl_qid_free (Some c) qid s2))"

definition add_user_queue_undo :: "kenv \<Rightarrow> cid \<Rightarrow> fid \<Rightarrow> nvm_ioctl_add_user_queue \<Rightarrow> kst \<Rightarrow> kst" where
  "add_user_queue_undo e c f req s =
     (let g = the (find_qgroup_locked (k_files s f) (aq_group_id req));
          base = unat (g_cur_queues g - aq_nr_pairs req);
          s1 = undo_slots e (ctrl_pdev (get_ctrl s c)) c f (aq_group_id req) [base..<base + unat (aq_nr_pairs req)] s
      in set_group f (aq_group_id req) (\<lambda>g. g\<lparr>g_cur_queues := g_cur_queues g - aq_nr_pairs req\<rparr>) s1)"

definition nvm_add_user_queue ::
  "kenv \<Rightarrow> cid \<Rightarrow> fid \<Rightarrow> nvm_ioctl_add_user_queue \<Rightarrow> kst \<Rightarrow> int \<times> nvm_user_queue_pair_out list option \<times> kst" where
  "nvm_add_user_queue e c f req s =
     (case add_user_queue_locked e c f req s of
        (Inl rc, s1) \<Rightarrow> (rc, None, s1)
      | (Inr outs, s1) \<Rightarrow>
          if copy_to_user_ok e then (0, Some outs, s1)
          else (- EFAULT, None, add_user_queue_undo e c f req s1))"

subsection \<open>Frames\<close>

lemma get_set_own [simp]:
  "k_files (set_own f h s) f' = (if f' = f then Some (h (get_own s f)) else k_files s f')"
  "get_own (set_own f h s) f' = (if f' = f then h (get_own s f) else get_own s f')"
  by (simp_all add: set_own_def get_own_def)

lemma set_own_frame [simp]:
  "k_maps (set_own f h s) = k_maps s" "k_next_mid (set_own f h s) = k_next_mid s"
  "k_host_list (set_own f h s) = k_host_list s" "k_device_list (set_own f h s) = k_device_list s"
  "k_device_queue_list (set_own f h s) = k_device_queue_list s"
  "k_next_cid (set_own f h s) = k_next_cid s" "k_ctrl_list (set_own f h s) = k_ctrl_list s"
  "k_chrdev_minor_ida (set_own f h s) = k_chrdev_minor_ida s"
  "k_queue_group_ida (set_own f h s) = k_queue_group_ida s" "k_pci (set_own f h s) = k_pci s"
  "k_registered (set_own f h s) = k_registered s"
  "k_ctrls (set_own f h s) = k_ctrls s" "k_log (set_own f h s) = k_log s"
  "get_map (set_own f h s) = get_map s" "get_ctrl (set_own f h s) = get_ctrl s"
  by (auto simp: set_own_def get_map_def get_ctrl_def)

lemma set_ctrl_get_map [simp]: "get_map (set_ctrl c h s) = get_map s" "get_own (set_ctrl c h s) = get_own s"
  by (auto simp: get_map_def get_own_def fun_eq_iff)

lemma log_get_own [simp]: "get_own (log_events evs s) = get_own s" "get_ctrl (log_events evs s) = get_ctrl s"
  by (auto simp: get_own_def get_ctrl_def fun_eq_iff)

text \<open>The controller-facing loops only write the log.\<close>

lemma delete_pairs_events:
  "\<exists>evs. delete_pairs e pd qs s = log_events evs s \<and> admin_events e pd evs \<and> map ev_cmd evs = map Some (delete_cmds qs)"
proof (induction qs arbitrary: s)
  case (Cons q qs)
  obtain lg lg' where d: "snd (adapter_delete_cq e pd q (snd (adapter_delete_sq e pd q s))) =
     log_events [EvAdmin pd (DeleteSQ q) (admin_reply e lg (DeleteSQ q)), EvAdmin pd (DeleteCQ q) (admin_reply e lg' (DeleteCQ q))] s"
    using delete_pair_events by blast
  obtain evs where "delete_pairs e pd qs (log_events [EvAdmin pd (DeleteSQ q) (admin_reply e lg (DeleteSQ q)),
      EvAdmin pd (DeleteCQ q) (admin_reply e lg' (DeleteCQ q))] s) =
    log_events evs (log_events [EvAdmin pd (DeleteSQ q) (admin_reply e lg (DeleteSQ q)), EvAdmin pd (DeleteCQ q) (admin_reply e lg' (DeleteCQ q))] s)"
    "admin_events e pd evs" "map ev_cmd evs = map Some (delete_cmds qs)" using Cons by blast
  then show ?case
    by (intro exI [of _ "EvAdmin pd (DeleteSQ q) (admin_reply e lg (DeleteSQ q)) #
          EvAdmin pd (DeleteCQ q) (admin_reply e lg' (DeleteCQ q)) # evs"]) (auto simp: d log_events_add)
qed (intro exI [of _ "[]"], simp)

fun create_cmds :: "kst \<Rightarrow> nvme_dev \<Rightarrow> (u16 \<times> mid \<times> mid) list \<Rightarrow> admin_cmd list" where
  "create_cmds s nd [] = []"
| "create_cmds s nd ((q, sqm, cqm) # ps) =
     CreateCQ (map_addrs (get_map s cqm) ! 0) q (ucast (nd_q_depth nd - 1)) NVME_QUEUE_PHYS_CONTIG 0 #
     CreateSQ (map_addrs (get_map s sqm) ! 0) q (ucast (nd_q_depth nd - 1)) NVME_QUEUE_PHYS_CONTIG q #
     create_cmds s nd ps"

lemma create_cmds_log [simp]: "create_cmds (log_events evs s) nd ps = create_cmds s nd ps"
  by (induction s nd ps rule: create_cmds.induct) auto

lemma create_pairs_ok:
  assumes "create_pairs e pd nd ps created s = (0, created', s')"
  shows "\<exists>evs. s' = log_events evs s \<and> admin_events e pd evs \<and> created' = created + length ps \<and>
    map ev_cmd evs = map Some (create_cmds s nd ps) \<and> (\<forall>ev \<in> set evs. \<exists>cmd. ev = EvAdmin pd cmd 0)"
  using assms
proof (induction ps arbitrary: created s)
  case (Cons p ps)
  obtain q sqm cqm where p: "p = (q, sqm, cqm)" by (cases p)
  let ?c1 = "CreateCQ (map_addrs (get_map s cqm) ! 0) q (ucast (nd_q_depth nd - 1)) NVME_QUEUE_PHYS_CONTIG 0"
  let ?e1 = "EvAdmin pd ?c1 (admin_reply e (k_log s) ?c1)"
  let ?s1 = "log_events [?e1] s"
  let ?c2 = "CreateSQ (map_addrs (get_map s sqm) ! 0) q (ucast (nd_q_depth nd - 1)) NVME_QUEUE_PHYS_CONTIG q"
  let ?e2 = "EvAdmin pd ?c2 (admin_reply e (k_log ?s1) ?c2)"
  have z: "admin_reply e (k_log s) ?c1 = 0" "admin_reply e (k_log ?s1) ?c2 = 0"
    and r: "create_pairs e pd nd ps (Suc created) (log_events [?e1, ?e2] s) = (0, created', s')"
    using Cons.prems
    by (auto simp: p adapter_alloc_cq_user_def adapter_alloc_sq_user_def snvme_submit_sync_cmd_def Let_def
        log_event_eq log_events_add split: if_splits)
  from Cons.IH [OF r] obtain evs where "s' = log_events evs (log_events [?e1, ?e2] s)" "admin_events e pd evs"
    "created' = Suc created + length ps" "map ev_cmd evs = map Some (create_cmds s nd ps)"
    "\<forall>ev \<in> set evs. \<exists>cmd. ev = EvAdmin pd cmd 0" by auto
  moreover have "admin_events e pd (?e1 # ?e2 # evs)" using calculation(2) by simp
  ultimately have "s' = log_events (?e1 # ?e2 # evs) s \<and> admin_events e pd (?e1 # ?e2 # evs) \<and>
    created' = created + length (p # ps) \<and> map ev_cmd (?e1 # ?e2 # evs) = map Some (create_cmds s nd (p # ps)) \<and>
    (\<forall>ev \<in> set (?e1 # ?e2 # evs). \<exists>cmd. ev = EvAdmin pd cmd 0)"
    using z by (intro conjI; simp add: p log_events_add)
  then show ?case by blast
qed (intro exI [of _ "[]"], simp)

text \<open>After a failure at pair \<open>k\<close> the controller holds exactly the first \<open>k\<close> pairs of the batch.\<close>

lemma create_pairs_fail:
  assumes "create_pairs e pd nd ps created s = (rc, created', s')" "rc \<noteq> 0"
  shows "\<exists>evs k. s' = log_events evs s \<and> admin_events e pd evs \<and> created' = created + k \<and> k < length ps \<and>
    ((\<forall>lg q. admin_reply e lg (DeleteCQ q) = 0) \<longrightarrow> distinct (map fst ps) \<longrightarrow>
     (\<forall>cqs sqs. set (map fst ps) \<inter> cqs = {} \<longrightarrow>
        fold (dev_event pd) evs (cqs, sqs) = (cqs \<union> set (take k (map fst ps)), sqs \<union> set (take k (map fst ps)))))"
  using assms
proof (induction ps arbitrary: created s)
  case (Cons p ps)
  obtain q sqm cqm where p: "p = (q, sqm, cqm)" by (cases p)
  let ?c1 = "CreateCQ (map_addrs (get_map s cqm) ! 0) q (ucast (nd_q_depth nd - 1)) NVME_QUEUE_PHYS_CONTIG 0"
  let ?e1 = "EvAdmin pd ?c1 (admin_reply e (k_log s) ?c1)"
  let ?s1 = "log_events [?e1] s"
  let ?c2 = "CreateSQ (map_addrs (get_map s sqm) ! 0) q (ucast (nd_q_depth nd - 1)) NVME_QUEUE_PHYS_CONTIG q"
  let ?e2 = "EvAdmin pd ?c2 (admin_reply e (k_log ?s1) ?c2)"
  let ?s2 = "log_events [?e1, ?e2] s"
  let ?e3 = "EvAdmin pd (DeleteCQ q) (admin_reply e (k_log ?s2) (DeleteCQ q))"
  have a1: "admin_events e pd [?e1]" "admin_events e pd [?e1, ?e2]" "admin_events e pd [?e1, ?e2, ?e3]"
    by simp_all
  note unf = p adapter_alloc_cq_user_def adapter_alloc_sq_user_def adapter_delete_cq_def snvme_submit_sync_cmd_def Let_def
        log_event_eq log_events_add
  consider (cq) "admin_reply e (k_log s) ?c1 \<noteq> 0"
    | (sq) "admin_reply e (k_log s) ?c1 = 0" "admin_reply e (k_log ?s1) ?c2 \<noteq> 0"
    | (rec) "admin_reply e (k_log s) ?c1 = 0" "admin_reply e (k_log ?s1) ?c2 = 0" by blast
  then show ?case
  proof cases
    case cq
    then have "s' = log_events [?e1] s" "created' = created" using Cons.prems(1) by (auto simp: unf)
    then show ?thesis using a1(1) cq by (intro exI [of _ "[?e1]"] exI [of _ 0]) (simp add: p)
  next
    case sq
    then have "s' = log_events [?e1, ?e2, ?e3] s" "created' = created" using Cons.prems(1) by (auto simp: unf)
    then show ?thesis using a1(3) sq by (intro exI [of _ "[?e1, ?e2, ?e3]"] exI [of _ 0]) (auto simp: p)
  next
    case rec
    then have r: "create_pairs e pd nd ps (Suc created) ?s2 = (rc, created', s')" using Cons.prems(1) by (auto simp: unf)
    from Cons.IH [OF r Cons.prems(2)] obtain evs k where
      ih: "s' = log_events evs ?s2" "admin_events e pd evs" "created' = Suc created + k" "k < length ps"
      "(\<forall>lg q. admin_reply e lg (DeleteCQ q) = 0) \<longrightarrow> distinct (map fst ps) \<longrightarrow>
       (\<forall>cqs sqs. set (map fst ps) \<inter> cqs = {} \<longrightarrow>
        fold (dev_event pd) evs (cqs, sqs) = (cqs \<union> set (take k (map fst ps)), sqs \<union> set (take k (map fst ps))))" by blast
    have "fold (dev_event pd) ([?e1, ?e2] @ evs) (cqs, sqs) =
        (cqs \<union> set (take (Suc k) (map fst (p # ps))), sqs \<union> set (take (Suc k) (map fst (p # ps))))"
      if "\<forall>lg q. admin_reply e lg (DeleteCQ q) = 0" "distinct (map fst (p # ps))" "set (map fst (p # ps)) \<inter> cqs = {}" for cqs sqs
      using ih(5) [rule_format, of "insert q cqs" "insert q sqs"] that rec by (auto simp: p)
    then show ?thesis using ih(1-4) a1(2)
      by (intro exI [of _ "[?e1, ?e2] @ evs"] exI [of _ "Suc k"]) (simp add: log_events_add)
  qed
qed simp

subsection \<open>\<open>NVM_ADD_USER_QUEUE\<close> in two parts\<close>

text \<open>For the proofs: the checks that return before anything is changed, and the rest.\<close>

definition add_guard :: "kenv \<Rightarrow> cid \<Rightarrow> fid \<Rightarrow> nvm_ioctl_add_user_queue \<Rightarrow> kst \<Rightarrow> int + (nvme_dev \<times> snvm_qgroup \<times> (mid \<times> mid) list)" where
  "add_guard e c f req s =
     (case k_files s f of None \<Rightarrow> Inl (- ENODEV)
      | Some own \<Rightarrow>
          if \<not> kmalloc_ok e A_request then Inl (- ENOMEM)
          else if \<not> copy_from_user_ok e then Inl (- EFAULT)
          else if aq_flags req \<noteq> 0 then Inl (- EINVAL)
          else if \<exists>r \<in> set (aq_reserved req). r \<noteq> 0 then Inl (- EINVAL)
          else if aq_nr_pairs req = 0 \<or> aq_nr_pairs req > of_nat NVM_MAX_QUEUES_PER_GROUP then Inl (- EINVAL)
          else if \<not> pairs_ok (take (unat (aq_nr_pairs req)) (aq_pairs req)) then Inl (- EINVAL)
          else case snvm_ctrl_get_live_ndev (Some c) s of
              None \<Rightarrow> Inl (- ENODEV)
            | Some nd \<Rightarrow>
                (case find_qgroup_locked (Some own) (aq_group_id req) of
                   None \<Rightarrow> Inl (- ENOENT)
                 | Some g \<Rightarrow>
                     if g_cur_queues g + aq_nr_pairs req > g_max_queues g then Inl (- EBUSY)
                     else case resolve_pairs s (g_maps g) (take (unat (aq_nr_pairs req)) (aq_pairs req)) of
                         None \<Rightarrow> Inl (- ENOENT)
                       | Some rings \<Rightarrow> Inr (nd, g, rings)))"

definition add_body ::
  "kenv \<Rightarrow> cid \<Rightarrow> fid \<Rightarrow> nvm_ioctl_add_user_queue \<Rightarrow> nvme_dev \<Rightarrow> (mid \<times> mid) list \<Rightarrow> kst \<Rightarrow> (int + nvm_user_queue_pair_out list) \<times> kst" where
  "add_body e c f req nd rings s =
     (let nr = unat (aq_nr_pairs req); prs = take nr (aq_pairs req) in
      case snvm_user_qid_pool_init_locked e (ctrl_pool (get_ctrl s c)) (Some nd) of
        (rc, p1) \<Rightarrow>
          let s1 = set_pool c p1 s in
          if rc \<noteq> 0 then (Inl rc, s1)
          else case snvm_user_qid_alloc_locked p1 nr of
            (rc, p2, qids) \<Rightarrow>
              let s2 = set_pool c p2 s1 in
              if rc \<noteq> 0 then (Inl rc, s2)
              else
                let pd = ctrl_pdev (get_ctrl s c) in
                (case create_pairs e pd nd (zip qids rings) 0 s2 of
                   (rc, created, s3) \<Rightarrow>
                     if rc \<noteq> 0 then
                       let s4 = delete_pairs e pd (rev (take created qids)) s3
                       in (Inl rc, set_pool c (free_qids qids (ctrl_pool (get_ctrl s4 c))) s4)
                     else
                       (Inr (map (add_out nd) qids),
                        set_group f (aq_group_id req)
                          (\<lambda>g. g\<lparr>g_queues := commit_slots (unat (g_cur_queues g)) (zip qids prs) (g_queues g),
                                 g_cur_queues := g_cur_queues g + aq_nr_pairs req\<rparr>) s3)))"

lemma add_user_queue_locked_parts:
  "add_user_queue_locked e c f req s =
     (case add_guard e c f req s of Inl rc \<Rightarrow> (Inl rc, s) | Inr (nd, g, rings) \<Rightarrow> add_body e c f req nd rings s)"
  unfolding add_user_queue_locked_def add_guard_def add_body_def Let_def
  by (simp split: option.split)

lemma resolve_pairs_length: "resolve_pairs s ms prs = Some rings \<Longrightarrow> length rings = length prs"
  by (induction prs arbitrary: rings) (auto split: option.splits)

lemma add_guard_ok:
  assumes "add_guard e c f req s = Inr (nd, g, rings)"
  shows "\<exists>own. k_files s f = Some own \<and> find_qgroup_locked (Some own) (aq_group_id req) = Some g"
    "snvm_ctrl_get_live_ndev (Some c) s = Some nd" "0 < unat (aq_nr_pairs req)" "unat (aq_nr_pairs req) \<le> 16"
    "pairs_ok (take (unat (aq_nr_pairs req)) (aq_pairs req))" "g_cur_queues g + aq_nr_pairs req \<le> g_max_queues g"
    "resolve_pairs s (g_maps g) (take (unat (aq_nr_pairs req)) (aq_pairs req)) = Some rings"
  using assms
  by (auto simp: add_guard_def not_less word_le_nat_alt unat_eq_0 split: option.splits if_splits intro: gr0I)

text \<open>What a pool can be after it was made ready: itself, or, on first use, a fresh one.\<close>

definition pool_ready :: "nvme_dev \<Rightarrow> qid_pool \<Rightarrow> qid_pool \<Rightarrow> bool" where
  "pool_ready nd p p1 \<longleftrightarrow> p1 = p \<or> user_qid_bitmap p = None \<and> p1 = fresh_pool nd \<and> pool_wf p1"

lemma set_pool_simps [simp]:
  "set_pool c p (set_pool c q s) = set_pool c p s"
  "ctrl_pool (get_ctrl (set_pool c p s) c) = p"
  "ctrl_pdev (get_ctrl (set_pool c p s) c') = ctrl_pdev (get_ctrl s c')"
  by (simp_all add: set_pool_def set_ctrl_def get_ctrl_def)

lemma set_pool_same: "k_ctrls s c = Some ct \<Longrightarrow> set_pool c (ctrl_pool ct) s = s"
  by (simp add: set_pool_def set_ctrl_def get_ctrl_def fun_upd_idem)

lemma set_pool_log: "set_pool c p (log_events evs s) = log_events evs (set_pool c p s)"
  by (simp add: set_pool_def set_ctrl_def log_events_def get_ctrl_def)

lemma pool_init_ready:
  assumes "snvm_user_qid_pool_init_locked e p (Some nd) = (rc, p1)" "nd_ctrl_max_io_queues nd \<le> 0xffff"
  shows "pool_ready nd p p1" "rc = 0 \<Longrightarrow> (user_qid_bitmap p \<noteq> None \<Longrightarrow> pool_wf p) \<Longrightarrow> pool_wf p1"
proof -
  show "pool_ready nd p p1" using assms(1)
  proof (cases rule: pool_init_cases)
    case (3 nd') then show ?thesis using fresh_pool_wf assms(2) by (auto simp: pool_ready_def)
  qed (simp_all add: pool_ready_def)
  show "rc = 0 \<Longrightarrow> (user_qid_bitmap p \<noteq> None \<Longrightarrow> pool_wf p) \<Longrightarrow> pool_wf p1"
    using pool_init_wf [of e p nd p1] assms by blast
qed

lemma delete_cmds_reply:
  assumes "admin_events e pd evs" "map ev_cmd evs = map Some (delete_cmds qs)"
    "\<forall>lg q. admin_reply e lg (DeleteSQ q) = 0 \<and> admin_reply e lg (DeleteCQ q) = 0"
  shows "\<forall>ev \<in> set evs. \<exists>cmd. ev = EvAdmin pd cmd 0"
proof
  have dc: "\<exists>q. cmd = DeleteSQ q \<or> cmd = DeleteCQ q" if "cmd \<in> set (delete_cmds qs)" for cmd
    using that by (induction qs) auto
  fix ev assume ev: "ev \<in> set evs"
  obtain cmd lg where cmd: "ev = EvAdmin pd cmd (admin_reply e lg cmd)"
    using assms(1) ev unfolding admin_events_def by blast
  have "ev_cmd ev \<in> set (map Some (delete_cmds qs))" using ev unfolding assms(2) [symmetric] by simp
  then have "cmd \<in> set (delete_cmds qs)" using cmd by auto
  then have "admin_reply e lg cmd = 0" using dc assms(3) by blast
  then show "\<exists>cmd. ev = EvAdmin pd cmd 0" using cmd by auto
qed

definition deletes_succeed :: "kenv \<Rightarrow> bool" where
  "deletes_succeed e \<longleftrightarrow> (\<forall>lg q. admin_reply e lg (DeleteSQ q) = 0 \<and> admin_reply e lg (DeleteCQ q) = 0)"

definition dev_unchanged :: "kenv \<Rightarrow> pdev \<Rightarrow> qid_pool \<Rightarrow> kevent list \<Rightarrow> bool" where
  "dev_unchanged e pd p evs \<longleftrightarrow> (deletes_succeed e \<longrightarrow> (\<forall>cqs sqs. (pool_range p - pool_used p) \<inter> (cqs \<union> sqs) = {} \<longrightarrow>
     fold (dev_event pd) evs (cqs, sqs) = (cqs, sqs)))"

lemma add_body_fail:
  assumes "add_body e c f req nd rings s = (Inl rc, s')" "k_ctrls s c = Some ct"
    "user_qid_bitmap (ctrl_pool ct) \<noteq> None \<Longrightarrow> pool_wf (ctrl_pool ct)"
    "nd_ctrl_max_io_queues nd \<le> 0xffff" "length rings = unat (aq_nr_pairs req)"
  shows "rc \<noteq> 0 \<and> (\<exists>p1 evs. s' = log_events evs (set_pool c p1 s) \<and> pool_ready nd (ctrl_pool ct) p1 \<and>
    admin_events e (ctrl_pdev ct) evs \<and> dev_unchanged e (ctrl_pdev ct) p1 evs)"
proof -
  let ?nr = "unat (aq_nr_pairs req)" and ?pd = "ctrl_pdev ct"
  have g: "get_ctrl s c = ct" using assms(2) by (simp add: get_ctrl_def)
  obtain rc1 p1 where i: "snvm_user_qid_pool_init_locked e (ctrl_pool ct) (Some nd) = (rc1, p1)" by fastforce
  note pr = pool_init_ready [OF i assms(4)]
  have nop: "dev_unchanged e ?pd p1 []" by (simp add: dev_unchanged_def)
  show ?thesis
  proof (cases "rc1 = 0")
    case False
    then have "rc = rc1" "s' = log_events [] (set_pool c p1 s)" using assms(1) i g by (auto simp: add_body_def Let_def)
    then show ?thesis using False pr nop by (intro conjI exI [of _ p1] exI [of _ "[]"]) auto
  next
    case True
    have w1: "pool_wf p1" using pr(2) [OF True assms(3)] by blast
    obtain rc2 p2 qids where a: "snvm_user_qid_alloc_locked p1 ?nr = (rc2, p2, qids)" by (metis prod_cases3)
    show ?thesis
    proof (cases "rc2 = 0")
      case False
      then have "p2 = p1" using pool_alloc_fail [OF w1 a] by simp
      then have "rc = rc2" "s' = log_events [] (set_pool c p1 s)"
        using assms(1) i g True a False by (auto simp: add_body_def Let_def)
      then show ?thesis using False pr nop by (intro conjI exI [of _ p1] exI [of _ "[]"]) auto
    next
      case rc2: True
      have aok: "snvm_user_qid_alloc_locked p1 ?nr = (0, p2, qids)" using a rc2 by simp
      note p2 = pool_alloc_ok [OF w1 aok]
      let ?s2 = "set_pool c p2 s"
      obtain rc3 cr s3 where cp: "create_pairs e ?pd nd (zip qids rings) 0 ?s2 = (rc3, cr, s3)" by (metis prod_cases3)
      have rc3: "rc3 \<noteq> 0" "rc = rc3"
        and s': "s' = set_pool c (free_qids qids (ctrl_pool (get_ctrl (delete_pairs e ?pd (rev (take cr qids)) s3) c)))
           (delete_pairs e ?pd (rev (take cr qids)) s3)"
        using assms(1) i g True a rc2 cp by (auto simp: add_body_def Let_def split: if_splits)
      have fz: "map fst (zip qids rings) = qids" "length (zip qids rings) = length qids" using p2 assms(5) by simp_all
      from create_pairs_fail [OF cp rc3(1), unfolded fz] obtain evs k where
        s3: "s3 = log_events evs ?s2" and ae: "admin_events e ?pd evs" and cr: "cr = 0 + k" "k < length qids"
        and dv: "(\<forall>lg q. admin_reply e lg (DeleteCQ q) = 0) \<longrightarrow> distinct qids \<longrightarrow>
          (\<forall>cqs sqs. set qids \<inter> cqs = {} \<longrightarrow>
             fold (dev_event ?pd) evs (cqs, sqs) = (cqs \<union> set (take k qids), sqs \<union> set (take k qids)))"
        by blast
      obtain evs' where d: "delete_pairs e ?pd (rev (take cr qids)) s3 = log_events evs' s3" "admin_events e ?pd evs'"
        "map ev_cmd evs' = map Some (delete_cmds (rev (take cr qids)))" using delete_pairs_events by blast
      have "free_qids qids p2 = p1"
        using qp.free_after_alloc [OF w1 aok] by (simp add: free_qids_def)
      then have st: "s' = log_events (evs @ evs') (set_pool c p1 s)"
        unfolding s' d(1) unfolding s3 by (simp add: log_events_add set_pool_log)
      have "fold (dev_event ?pd) (evs @ evs') (cqs, sqs) = (cqs, sqs)"
        if ds: "deletes_succeed e" and fr: "(pool_range p1 - pool_used p1) \<inter> (cqs \<union> sqs) = {}" for cqs sqs
      proof -
        have q: "set qids \<inter> cqs = {}" "set qids \<inter> sqs = {}" "distinct qids" using p2 fr by auto
        have "\<forall>ev \<in> set evs'. \<exists>cmd. ev = EvAdmin ?pd cmd 0"
          using delete_cmds_reply [OF d(2,3)] ds by (simp add: deletes_succeed_def)
        from fold_dev_delete [OF d(3) this] have
          "fold (dev_event ?pd) evs' (a, b) = (a - set (take k qids), b - set (take k qids))" for a b
          by (simp add: cr(1))
        moreover have "fold (dev_event ?pd) evs (cqs, sqs) = (cqs \<union> set (take k qids), sqs \<union> set (take k qids))"
          using dv ds q by (simp add: deletes_succeed_def)
        moreover have "set (take k qids) \<subseteq> set qids" by (rule set_take_subset)
        ultimately show ?thesis using q by auto
      qed
      then show ?thesis using rc3 st ae d(2) pr(1) unfolding dev_unchanged_def
        by (intro conjI exI [of _ p1] exI [of _ "evs @ evs'"]) auto
    qed
  qed
qed

lemma add_body_ok:
  assumes "add_body e c f req nd rings s = (Inr outs, s')" "k_ctrls s c = Some ct"
    "user_qid_bitmap (ctrl_pool ct) \<noteq> None \<Longrightarrow> pool_wf (ctrl_pool ct)"
    "nd_ctrl_max_io_queues nd \<le> 0xffff" "length rings = unat (aq_nr_pairs req)"
  obtains p1 p2 qids evs where
    "pool_ready nd (ctrl_pool ct) p1" "pool_wf p1"
    "snvm_user_qid_alloc_locked p1 (unat (aq_nr_pairs req)) = (0, p2, qids)"
    "outs = map (add_out nd) qids" "admin_events e (ctrl_pdev ct) evs"
    "map ev_cmd evs = map Some (create_cmds s nd (zip qids rings))"
    "\<forall>ev \<in> set evs. \<exists>cmd. ev = EvAdmin (ctrl_pdev ct) cmd 0"
    "s' = set_group f (aq_group_id req)
       (\<lambda>g. g\<lparr>g_queues := commit_slots (unat (g_cur_queues g)) (zip qids (take (unat (aq_nr_pairs req)) (aq_pairs req))) (g_queues g),
              g_cur_queues := g_cur_queues g + aq_nr_pairs req\<rparr>) (log_events evs (set_pool c p2 s))"
proof -
  let ?nr = "unat (aq_nr_pairs req)" and ?pd = "ctrl_pdev ct"
  have g: "get_ctrl s c = ct" using assms(2) by (simp add: get_ctrl_def)
  obtain rc1 p1 where i: "snvm_user_qid_pool_init_locked e (ctrl_pool ct) (Some nd) = (rc1, p1)" by fastforce
  have rc1: "rc1 = 0" using assms(1) i g by (auto simp: add_body_def Let_def split: if_splits)
  note pr = pool_init_ready [OF i assms(4)]
  have w1: "pool_wf p1" using pr(2) [OF rc1 assms(3)] by blast
  obtain rc2 p2 qids where a: "snvm_user_qid_alloc_locked p1 ?nr = (rc2, p2, qids)" by (metis prod_cases3)
  have rc2: "rc2 = 0" using assms(1) i g rc1 a by (auto simp: add_body_def Let_def split: if_splits)
  let ?s2 = "set_pool c p2 s"
  obtain rc3 cr s3 where cp: "create_pairs e ?pd nd (zip qids rings) 0 ?s2 = (rc3, cr, s3)" by (metis prod_cases3)
  have rc3: "rc3 = 0" and o: "outs = map (add_out nd) qids"
    and s': "s' = set_group f (aq_group_id req)
       (\<lambda>g. g\<lparr>g_queues := commit_slots (unat (g_cur_queues g)) (zip qids (take ?nr (aq_pairs req))) (g_queues g),
              g_cur_queues := g_cur_queues g + aq_nr_pairs req\<rparr>) s3"
    using assms(1) i g rc1 a rc2 cp by (auto simp: add_body_def Let_def split: if_splits)
  have cs: "create_cmds ?s2 nd ps = create_cmds s nd ps" for ps
  proof (induction ps)
    case (Cons x ps)
    obtain q a b where "x = (q, a, b)" by (cases x)
    then show ?case using Cons by (simp add: set_pool_def)
  qed simp
  obtain evs where "s3 = log_events evs ?s2" "admin_events e ?pd evs"
    "map ev_cmd evs = map Some (create_cmds ?s2 nd (zip qids rings))" "\<forall>ev \<in> set evs. \<exists>cmd. ev = EvAdmin ?pd cmd 0"
    using create_pairs_ok cp rc3 by blast
  then show ?thesis using that [of p1 p2 qids evs] pr w1 a rc2 o s' cs by simp
qed

subsection \<open>Slots of a group\<close>

definition group_wf :: "snvm_qgroup \<Rightarrow> bool" where
  "group_wf g \<longleftrightarrow> g_group_id g \<noteq> 0 \<and> g_max_queues g = 16 \<and> length (g_queues g) = 16 \<and> unat (g_cur_queues g) \<le> 16 \<and>
     (\<forall>i < 16. uq_alive (g_queues g ! i) \<longleftrightarrow> i < unat (g_cur_queues g))"

definition committed :: "u16 \<times> nvm_user_queue_pair_in \<Rightarrow> snvm_user_queue" where
  "committed p = \<lparr>uq_qid = fst p, uq_alive = True, uq_sq_vaddr = in_sq_vaddr (snd p), uq_cq_vaddr = in_cq_vaddr (snd p)\<rparr>"

lemma commit_slots_eq:
  "i + length ps \<le> length qs \<Longrightarrow> commit_slots i ps qs = take i qs @ map committed ps @ drop (i + length ps) qs"
proof (induction i ps qs rule: commit_slots.induct)
  case (2 i qid pr ps qs)
  let ?c = "committed (qid, pr)"
  have "commit_slots i ((qid, pr) # ps) qs = commit_slots (Suc i) ps (qs[i := ?c])"
    by (simp add: committed_def)
  also have "\<dots> = take (Suc i) (qs[i := ?c]) @ map committed ps @ drop (Suc i + length ps) (qs[i := ?c])"
    using 2 by (simp add: committed_def)
  also have "take (Suc i) (qs[i := ?c]) = take i qs @ [?c]"
    using 2(2) by (simp add: take_Suc_conv_app_nth)
  finally show ?case by simp
qed simp

lemma group_alive_take:
  assumes "group_wf g"
  shows "filter uq_alive (g_queues g) = take (unat (g_cur_queues g)) (g_queues g)"
    "alive_qids (g_queues g) = map uq_qid (take (unat (g_cur_queues g)) (g_queues g))"
proof -
  let ?n = "unat (g_cur_queues g)" and ?qs = "g_queues g"
  have l: "length ?qs = 16" "?n \<le> 16" and al: "\<And>i. i < 16 \<Longrightarrow> uq_alive (?qs ! i) = (i < ?n)"
    using assms by (auto simp: group_wf_def)
  have "filter uq_alive (take ?n ?qs) = take ?n ?qs"
    using al l by (auto simp: filter_id_conv in_set_conv_nth)
  moreover have "filter uq_alive (drop ?n ?qs) = []"
    using al l by (auto simp: filter_empty_conv in_set_conv_nth)
  ultimately show "filter uq_alive ?qs = take ?n ?qs"
    by (metis append_Nil2 append_take_drop_id filter_append)
  then show "alive_qids ?qs = map uq_qid (take ?n ?qs)" by (simp add: alive_qids_def)
qed

definition commit_group :: "u16 list \<Rightarrow> nvm_user_queue_pair_in list \<Rightarrow> snvm_qgroup \<Rightarrow> snvm_qgroup" where
  "commit_group qids prs g = g\<lparr>g_queues := commit_slots (unat (g_cur_queues g)) (zip qids prs) (g_queues g),
     g_cur_queues := g_cur_queues g + of_nat (length qids)\<rparr>"

lemma commit_group_wf:
  assumes "group_wf g" "length qids = length prs" "length qids \<le> 16" "g_cur_queues g + of_nat (length qids) \<le> 16"
  shows "unat (g_cur_queues g) + length qids \<le> 16"
    "unat (g_cur_queues (commit_group qids prs g)) = unat (g_cur_queues g) + length qids"
    "g_queues (commit_group qids prs g) = take (unat (g_cur_queues g)) (g_queues g) @ map committed (zip qids prs) @
       drop (unat (g_cur_queues g) + length qids) (g_queues g)"
    "group_wf (commit_group qids prs g)"
    "alive_qids (g_queues (commit_group qids prs g)) = alive_qids (g_queues g) @ qids"
proof -
  let ?n = "unat (g_cur_queues g)" and ?qs = "g_queues g" and ?k = "length qids"
  have g: "length ?qs = 16" "?n \<le> 16" "\<forall>i < 16. uq_alive (?qs ! i) = (i < ?n)" using assms(1) by (auto simp: group_wf_def)
  have u: "unat (g_cur_queues g + of_nat ?k) = ?n + ?k"
    using g(2) assms(3) by (simp add: unat_word_ariths unat_of_nat)
  then show le: "?n + ?k \<le> 16" using assms(4) by (simp add: word_le_nat_alt)
  show cur: "unat (g_cur_queues (commit_group qids prs g)) = ?n + ?k" using u by (simp add: commit_group_def)
  have lz: "length (zip qids prs) = ?k" using assms(2) by simp
  show q: "g_queues (commit_group qids prs g) = take ?n ?qs @ map committed (zip qids prs) @ drop (?n + ?k) ?qs"
    using commit_slots_eq [of ?n "zip qids prs" ?qs] le g(1) lz by (simp add: commit_group_def)
  have "uq_alive (g_queues (commit_group qids prs g) ! i) = (i < ?n + ?k)" if "i < 16" for i
  proof -
    consider "i < ?n" | "?n \<le> i" "i < ?n + ?k" | "?n + ?k \<le> i" by linarith
    then show ?thesis
    proof cases
      case 1 then show ?thesis using g le unfolding q by (simp add: nth_append)
    next
      case 2
      then have "(map committed (zip qids prs)) ! (i - ?n) = committed (zip qids prs ! (i - ?n))" using lz by simp
      moreover have "i - ?n < ?k" using 2 by linarith
      ultimately show ?thesis using 2 g le lz unfolding q by (simp add: nth_append committed_def)
    next
      case 3
      then have "\<not> i - ?n < ?k" by linarith
      then show ?thesis using 3 g le lz that unfolding q by (simp add: nth_append)
    qed
  qed
  then show w: "group_wf (commit_group qids prs g)"
    using assms(1) cur le g q lz by (auto simp: group_wf_def commit_group_def)
  have "map (uq_qid \<circ> committed) (zip qids prs) = qids"
    using assms(2) by (simp add: committed_def o_def map_fst_zip [unfolded comp_def])
  then show "alive_qids (g_queues (commit_group qids prs g)) = alive_qids ?qs @ qids"
    using group_alive_take(2) [OF w] group_alive_take(2) [OF assms(1)] g(1) le lz unfolding cur q
    by (simp add: take_map)
qed

subsection \<open>Undoing an addition\<close>

definition kill_slots :: "nat list \<Rightarrow> snvm_user_queue list \<Rightarrow> snvm_user_queue list" where
  "kill_slots is qs = fold (\<lambda>i qs. qs[i := (qs ! i)\<lparr>uq_alive := False\<rparr>]) is qs"

lemma kill_slots_simps [simp]:
  "kill_slots [] qs = qs" "kill_slots (i # is) qs = kill_slots is (qs[i := (qs ! i)\<lparr>uq_alive := False\<rparr>])"
  by (simp_all add: kill_slots_def)

lemma kill_slots_nth:
  "length (kill_slots is qs) = length qs"
  "j < length qs \<Longrightarrow> kill_slots is qs ! j = (if j \<in> set is then (qs ! j)\<lparr>uq_alive := False\<rparr> else qs ! j)"
proof (induction "is" arbitrary: qs)
  case (Cons a "is")
  {
    case 1 then show ?case using Cons(1) by simp
  next
    case 2
    then have "qs[a := (qs ! a)\<lparr>uq_alive := False\<rparr>] ! j = (if j = a then (qs ! j)\<lparr>uq_alive := False\<rparr> else qs ! j)" by auto
    then show ?case using Cons(2) [of "qs[a := (qs ! a)\<lparr>uq_alive := False\<rparr>]"] 2 by (cases "j = a") simp_all
  }
qed simp_all

definition undone :: "nat list \<Rightarrow> snvm_qgroup \<Rightarrow> snvm_qgroup" where
  "undone is g = g\<lparr>g_queues := kill_slots is (g_queues g)\<rparr>"

lemma undo_slots_effect:
  assumes "k_files s f = Some own" "own_groups own = [g]" "g_group_id g \<noteq> 0" "k_ctrls s c = Some ct"
    "\<forall>i \<in> set is. i < length (g_queues g)"
  shows "\<exists>evs. undo_slots e pd c f (g_group_id g) is s =
      s\<lparr>k_files := (k_files s)(f \<mapsto> own\<lparr>own_groups := [undone is g]\<rparr>),
        k_ctrls := (k_ctrls s)(c \<mapsto> ct\<lparr>ctrl_pool := free_qids (map (\<lambda>i. uq_qid (g_queues g ! i)) is) (ctrl_pool ct)\<rparr>),
        k_log := k_log s @ evs\<rparr> \<and>
    admin_events e pd evs \<and> map ev_cmd evs = map Some (delete_cmds (map (\<lambda>i. uq_qid (g_queues g ! i)) is))"
  using assms
proof (induction "is" arbitrary: s own g ct)
  case Nil
  then have "own\<lparr>own_groups := [undone [] g]\<rparr> = own" by (simp add: undone_def)
  then show ?case using Nil by (intro exI [of _ "[]"]) (simp add: fun_upd_idem)
next
  case (Cons i "is")
  let ?q = "uq_qid (g_queues g ! i)"
  let ?g = "undone [i] g"
  have fq: "find_qgroup_locked (Some own) (g_group_id g) = Some g"
    using Cons.prems by (simp add: find_qgroup_locked_def)
  obtain evs1 where d: "snd (adapter_delete_cq e pd ?q (snd (adapter_delete_sq e pd ?q s))) = log_events evs1 s"
    "admin_events e pd evs1" "map ev_cmd evs1 = [Some (DeleteSQ ?q), Some (DeleteCQ ?q)]"
  proof -
    obtain lg lg' where "snd (adapter_delete_cq e pd ?q (snd (adapter_delete_sq e pd ?q s))) =
     log_events [EvAdmin pd (DeleteSQ ?q) (admin_reply e lg (DeleteSQ ?q)),
                 EvAdmin pd (DeleteCQ ?q) (admin_reply e lg' (DeleteCQ ?q))] s" using delete_pair_events by blast
    then show thesis by (rule that) simp_all
  qed
  let ?own = "own\<lparr>own_groups := [?g]\<rparr>" and ?ct = "ct\<lparr>ctrl_pool := snvm_user_qid_free_locked (ctrl_pool ct) ?q\<rparr>"
  let ?s2 = "s\<lparr>k_log := k_log s @ evs1, k_files := (k_files s)(f \<mapsto> ?own), k_ctrls := (k_ctrls s)(c \<mapsto> ?ct)\<rparr>"
  have st: "undo_slots e pd c f (g_group_id g) (i # is) s = undo_slots e pd c f (g_group_id ?g) is ?s2"
    using Cons.prems d(1)
    by (simp add: Let_def fq set_group_def set_own_def get_own_def ctrl_qid_free_def set_ctrl_def get_ctrl_def
        log_events_def undone_def)
  have "k_files ?s2 f = Some ?own" "own_groups ?own = [?g]" "g_group_id ?g \<noteq> 0" "k_ctrls ?s2 c = Some ?ct"
    "\<forall>i \<in> set is. i < length (g_queues ?g)"
    using Cons.prems by (auto simp: undone_def)
  from Cons.IH [OF this] obtain evs where
    ih: "undo_slots e pd c f (g_group_id ?g) is ?s2 = ?s2\<lparr>k_files := (k_files ?s2)(f \<mapsto> ?own\<lparr>own_groups := [undone is ?g]\<rparr>),
        k_ctrls := (k_ctrls ?s2)(c \<mapsto> ?ct\<lparr>ctrl_pool := free_qids (map (\<lambda>i. uq_qid (g_queues ?g ! i)) is) (ctrl_pool ?ct)\<rparr>),
        k_log := k_log ?s2 @ evs\<rparr>"
    and ev: "admin_events e pd evs" "map ev_cmd evs = map Some (delete_cmds (map (\<lambda>i. uq_qid (g_queues ?g ! i)) is))"
    by blast
  have q: "map (\<lambda>i. uq_qid (g_queues ?g ! i)) is = map (\<lambda>i. uq_qid (g_queues g ! i)) is"
    using Cons.prems(5) by (auto simp: undone_def nth_list_update)
  have "undo_slots e pd c f (g_group_id g) (i # is) s =
      s\<lparr>k_files := (k_files s)(f \<mapsto> own\<lparr>own_groups := [undone (i # is) g]\<rparr>),
        k_ctrls := (k_ctrls s)(c \<mapsto> ct\<lparr>ctrl_pool := free_qids (map (\<lambda>i. uq_qid (g_queues g ! i)) (i # is)) (ctrl_pool ct)\<rparr>),
        k_log := k_log s @ (evs1 @ evs)\<rparr>"
    unfolding st ih q by (rule kst.equality) (simp_all add: undone_def)
  moreover have "admin_events e pd (evs1 @ evs)"
    "map ev_cmd (evs1 @ evs) = map Some (delete_cmds (map (\<lambda>i. uq_qid (g_queues g ! i)) (i # is)))"
    using d ev q by simp_all
  ultimately show ?case by blast
qed

subsection \<open>What a successful and what a failed addition does\<close>

definition pool_ok :: "qid_pool \<Rightarrow> bool" where
  "pool_ok p \<longleftrightarrow> (user_qid_bitmap p \<noteq> None \<longrightarrow> pool_wf p)"

definition file_wf :: "snvm_dev_owner \<Rightarrow> bool" where
  "file_wf own \<longleftrightarrow> length (own_groups own) \<le> 1 \<and> own_nr_groups own = of_nat (length (own_groups own)) \<and>
     (\<forall>g \<in> set (own_groups own). group_wf g)"

text \<open>The controller reports at most \<open>0xffff\<close> I/O queues (a 16-bit field of Set Features).\<close>

definition ndev_ok :: "nvme_dev option \<Rightarrow> bool" where
  "ndev_ok no \<longleftrightarrow> (case no of None \<Rightarrow> True | Some nd \<Rightarrow> nd_ctrl_max_io_queues nd \<le> 0xffff)"

lemma ready_used: "pool_ready nd p p1 \<Longrightarrow> pool_used p1 = pool_used p"
  by (auto simp: pool_ready_def) (simp add: pool_used_def)

lemma ready_ok: "pool_ready nd p p1 \<Longrightarrow> pool_ok p \<Longrightarrow> pool_ok p1"
  by (auto simp: pool_ready_def pool_ok_def)

lemma file_wf_find:
  assumes "file_wf own" "find_qgroup_locked (Some own) gid = Some g"
  shows "own_groups own = [g]" "g_group_id g = gid" "gid \<noteq> 0" "group_wf g"
proof -
  have f: "List.find (\<lambda>g. g_group_id g = gid) (own_groups own) = Some g" "gid \<noteq> 0"
    using assms(2) by (auto simp: find_qgroup_locked_def split: if_splits)
  then obtain h where h: "own_groups own = [h]"
    using assms(1) by (cases "own_groups own") (auto simp: file_wf_def)
  then show "own_groups own = [g]" "g_group_id g = gid" "gid \<noteq> 0" "group_wf g"
    using f assms(1) by (auto simp: file_wf_def split: if_splits)
qed

text \<open>The state after the locked part succeeded.\<close>

definition added_state :: "cid \<Rightarrow> fid \<Rightarrow> snvm_dev_owner \<Rightarrow> snvm_qgroup \<Rightarrow> ctrl \<Rightarrow> qid_pool \<Rightarrow> kevent list \<Rightarrow> kst \<Rightarrow> kst" where
  "added_state c f own g ct p evs s = s\<lparr>k_files := (k_files s)(f \<mapsto> own\<lparr>own_groups := [g]\<rparr>),
     k_ctrls := (k_ctrls s)(c \<mapsto> ct\<lparr>ctrl_pool := p\<rparr>), k_log := k_log s @ evs\<rparr>"

lemma add_guard_rc: "add_guard e c f req s = Inl rc \<Longrightarrow> rc < 0"
  by (auto simp: add_guard_def split: option.splits if_splits)

lemma add_user_queue_locked_ok:
  assumes "k_files s f = Some own" "file_wf own" "k_ctrls s c = Some ct" "pool_ok (ctrl_pool ct)"
    "ndev_ok (snvm_ctrl_get_live_ndev (Some c) s)" "length (aq_pairs req) = 16"
    "add_user_queue_locked e c f req s = (Inr outs, s')"
  obtains nd g rings p1 p2 qids evs where
    "snvm_ctrl_get_live_ndev (Some c) s = Some nd" "own_groups own = [g]" "g_group_id g = aq_group_id req" "group_wf g"
    "resolve_pairs s (g_maps g) (take (unat (aq_nr_pairs req)) (aq_pairs req)) = Some rings"
    "pairs_ok (take (unat (aq_nr_pairs req)) (aq_pairs req))"
    "unat (aq_nr_pairs req) \<le> 16" "length rings = unat (aq_nr_pairs req)" "length (take (unat (aq_nr_pairs req)) (aq_pairs req)) = length qids"
    "g_cur_queues g + of_nat (length qids) \<le> 16" "aq_nr_pairs req = of_nat (length qids)"
    "pool_ready nd (ctrl_pool ct) p1" "pool_wf p1"
    "snvm_user_qid_alloc_locked p1 (unat (aq_nr_pairs req)) = (0, p2, qids)"
    "outs = map (add_out nd) qids" "admin_events e (ctrl_pdev ct) evs"
    "map ev_cmd evs = map Some (create_cmds s nd (zip qids rings))"
    "\<forall>ev \<in> set evs. \<exists>cmd. ev = EvAdmin (ctrl_pdev ct) cmd 0"
    "s' = added_state c f own (commit_group qids (take (unat (aq_nr_pairs req)) (aq_pairs req)) g) ct p2 evs s"
proof -
  let ?nr = "unat (aq_nr_pairs req)" and ?prs = "take (unat (aq_nr_pairs req)) (aq_pairs req)"
  obtain nd g rings where gd: "add_guard e c f req s = Inr (nd, g, rings)"
    and b: "add_body e c f req nd rings s = (Inr outs, s')"
    using assms(7) by (auto simp: add_user_queue_locked_parts split: sum.splits)
  note gk = add_guard_ok [OF gd]
  have "find_qgroup_locked (Some own) (aq_group_id req) = Some g" using gk(1) assms(1) by simp
  note fw = file_wf_find [OF assms(2) this]
  have nr: "?nr \<le> 16" "length ?prs = ?nr" using gk(4) assms(6) by simp_all
  then have lr: "length rings = ?nr" using resolve_pairs_length [OF gk(7)] by simp
  have mx: "nd_ctrl_max_io_queues nd \<le> 0xffff" using assms(5) gk(2) by (simp add: ndev_ok_def)
  obtain p1 p2 qids evs where r: "pool_ready nd (ctrl_pool ct) p1" "pool_wf p1"
    "snvm_user_qid_alloc_locked p1 ?nr = (0, p2, qids)"
    "outs = map (add_out nd) qids" "admin_events e (ctrl_pdev ct) evs"
    "map ev_cmd evs = map Some (create_cmds s nd (zip qids rings))"
    "\<forall>ev \<in> set evs. \<exists>cmd. ev = EvAdmin (ctrl_pdev ct) cmd 0"
    and s': "s' = set_group f (aq_group_id req)
       (\<lambda>g. g\<lparr>g_queues := commit_slots (unat (g_cur_queues g)) (zip qids ?prs) (g_queues g),
              g_cur_queues := g_cur_queues g + aq_nr_pairs req\<rparr>) (log_events evs (set_pool c p2 s))"
    using add_body_ok [OF b assms(3) _ mx lr] assms(4) unfolding pool_ok_def by blast
  have lq: "length qids = ?nr" using pool_alloc_ok [OF r(2,3)] by blast
  then have n: "aq_nr_pairs req = of_nat (length qids)" by simp
  have c16: "g_cur_queues g + of_nat (length qids) \<le> 16"
    using gk(6) fw(4) by (simp add: group_wf_def n [symmetric])
  have st: "s' = added_state c f own (commit_group qids ?prs g) ct p2 evs s"
    unfolding s' added_state_def using assms(1,3) fw n
    by (intro kst.equality) (simp_all add: set_group_def set_own_def get_own_def log_events_def set_pool_def set_ctrl_def
      get_ctrl_def commit_group_def)
  show ?thesis by (rule that [OF gk(2) fw(1,2) fw(4) gk(7,5) nr(1) lr _ c16 n r st]) (simp only: nr(2) lq)
qed

lemma fold_dev_create:
  assumes "map ev_cmd evs = map Some (create_cmds s nd (zip qids rings))" "\<forall>ev \<in> set evs. \<exists>cmd. ev = EvAdmin pd cmd 0"
    "length rings = length qids"
  shows "fold (dev_event pd) evs (cqs, sqs) = (cqs \<union> set qids, sqs \<union> set qids)"
  using assms
proof (induction qids arbitrary: evs rings cqs sqs)
  case (Cons q qids)
  obtain a b rs where r: "rings = (a, b) # rs" "length rs = length qids" using Cons.prems(3) by (cases rings) auto
  then obtain d1 d2 ds where evs: "evs = d1 # d2 # ds" "\<exists>p z fl v. ev_cmd d1 = Some (CreateCQ p q z fl v)"
    "\<exists>p z fl v. ev_cmd d2 = Some (CreateSQ p q z fl v)" "map ev_cmd ds = map Some (create_cmds s nd (zip qids rs))"
    using Cons.prems(1) by (auto simp: map_eq_Cons_conv)
  then obtain p z fl v p' z' fl' v' where "d1 = EvAdmin pd (CreateCQ p q z fl v) 0" "d2 = EvAdmin pd (CreateSQ p' q z' fl' v') 0"
    using Cons.prems(2) by fastforce
  then show ?case using Cons.IH [OF evs(4) _ r(2)] Cons.prems(2) evs(1) by simp
qed simp

text \<open>Undoing the last \<open>nr\<close> slots of a group.\<close>

definition undo_group :: "nat \<Rightarrow> snvm_qgroup \<Rightarrow> snvm_qgroup" where
  "undo_group nr g = g\<lparr>g_queues := kill_slots [unat (g_cur_queues g) - nr..<unat (g_cur_queues g)] (g_queues g),
     g_cur_queues := g_cur_queues g - of_nat nr\<rparr>"

lemma unat_sub_of_nat: "nr \<le> unat (n :: u32) \<Longrightarrow> unat (n - of_nat nr) = unat n - nr"
proof -
  assume a: "nr \<le> unat n"
  then have "unat (of_nat nr :: u32) = nr" by (metis le_unat_uoi)
  with a show ?thesis by (metis unat_sub word_le_nat_alt)
qed

lemma undo_group_wf:
  assumes "group_wf g" "nr \<le> unat (g_cur_queues g)"
  shows "group_wf (undo_group nr g)"
    "alive_qids (g_queues (undo_group nr g)) = take (unat (g_cur_queues g) - nr) (alive_qids (g_queues g))"
    "map (\<lambda>i. uq_qid (g_queues g ! i)) [unat (g_cur_queues g) - nr..<unat (g_cur_queues g)] =
       drop (unat (g_cur_queues g) - nr) (alive_qids (g_queues g))"
proof -
  let ?n = "unat (g_cur_queues g)" and ?qs = "g_queues g" and ?g = "undo_group nr g"
  have g: "length ?qs = 16" "?n \<le> 16" "\<forall>i < 16. uq_alive (?qs ! i) = (i < ?n)" using assms(1) by (auto simp: group_wf_def)
  have cur: "unat (g_cur_queues ?g) = ?n - nr" using unat_sub_of_nat [OF assms(2)] by (simp add: undo_group_def)
  have q: "g_queues ?g = kill_slots [?n - nr..<?n] ?qs" by (simp add: undo_group_def)
  have nth: "g_queues ?g ! i = (if ?n - nr \<le> i \<and> i < ?n then (?qs ! i)\<lparr>uq_alive := False\<rparr> else ?qs ! i)" if "i < 16" for i
    using that g(1) unfolding q by (simp add: kill_slots_nth)
  show w: "group_wf ?g"
    using assms(1) g cur nth by (auto simp: group_wf_def undo_group_def kill_slots_nth)
  have "take (?n - nr) (g_queues ?g) = take (?n - nr) ?qs"
    by (rule nth_equalityI) (use g nth in \<open>auto simp: q kill_slots_nth(1)\<close>)
  then show "alive_qids (g_queues ?g) = take (?n - nr) (alive_qids ?qs)"
    using group_alive_take(2) [OF w] group_alive_take(2) [OF assms(1)] unfolding cur by (simp add: take_map)
  show "map (\<lambda>i. uq_qid (?qs ! i)) [?n - nr..<?n] = drop (?n - nr) (alive_qids ?qs)"
    unfolding group_alive_take(2) [OF assms(1)] using g by (intro nth_equalityI) (auto simp: add.commute)
qed

lemma add_user_queue_undo_effect:
  assumes "k_files s f = Some own" "own_groups own = [g]" "g_group_id g = aq_group_id req" "group_wf g"
    "k_ctrls s c = Some ct" "unat (aq_nr_pairs req) \<le> unat (g_cur_queues g)"
  shows "\<exists>evs. add_user_queue_undo e c f req s = added_state c f own (undo_group (unat (aq_nr_pairs req)) g) ct
      (free_qids (drop (unat (g_cur_queues g) - unat (aq_nr_pairs req)) (alive_qids (g_queues g))) (ctrl_pool ct)) evs s \<and>
    admin_events e (ctrl_pdev ct) evs \<and>
    map ev_cmd evs = map Some (delete_cmds (drop (unat (g_cur_queues g) - unat (aq_nr_pairs req)) (alive_qids (g_queues g))))"
proof -
  let ?nr = "unat (aq_nr_pairs req)" and ?n = "unat (g_cur_queues g)"
  have g0: "g_group_id g \<noteq> 0" "length (g_queues g) = 16" "?n \<le> 16" using assms(4) by (auto simp: group_wf_def)
  have fq: "find_qgroup_locked (Some own) (aq_group_id req) = Some g"
    using assms(2,3) g0 by (simp add: find_qgroup_locked_def)
  have base: "unat (g_cur_queues g - aq_nr_pairs req) = ?n - ?nr" using unat_sub_of_nat [OF assms(6)] by simp
  have rng: "[?n - ?nr..<?n - ?nr + ?nr] = [?n - ?nr..<?n]" using assms(6) by simp
  have lt: "\<forall>i \<in> set [?n - ?nr..<?n]. i < length (g_queues g)" using g0 by auto
  from undo_slots_effect [OF assms(1,2) g0(1) assms(5) lt, of e "ctrl_pdev ct"]
  obtain evs where u: "undo_slots e (ctrl_pdev ct) c f (g_group_id g) [?n - ?nr..<?n] s =
      s\<lparr>k_files := (k_files s)(f \<mapsto> own\<lparr>own_groups := [undone [?n - ?nr..<?n] g]\<rparr>),
        k_ctrls := (k_ctrls s)(c \<mapsto> ct\<lparr>ctrl_pool := free_qids (map (\<lambda>i. uq_qid (g_queues g ! i)) [?n - ?nr..<?n]) (ctrl_pool ct)\<rparr>),
        k_log := k_log s @ evs\<rparr>" "admin_events e (ctrl_pdev ct) evs"
      "map ev_cmd evs = map Some (delete_cmds (map (\<lambda>i. uq_qid (g_queues g ! i)) [?n - ?nr..<?n]))" by blast
  have "add_user_queue_undo e c f req s = set_group f (aq_group_id req) (\<lambda>g. g\<lparr>g_cur_queues := g_cur_queues g - aq_nr_pairs req\<rparr>)
     (undo_slots e (ctrl_pdev ct) c f (g_group_id g) [?n - ?nr..<?n] s)"
    using assms(1,3,5) fq base rng by (simp add: add_user_queue_undo_def get_ctrl_def Let_def)
  also have "\<dots> = added_state c f own (undo_group ?nr g) ct
      (free_qids (drop (?n - ?nr) (alive_qids (g_queues g))) (ctrl_pool ct)) evs s"
    unfolding u(1) undo_group_wf(3) [OF assms(4,6)] added_state_def using assms(3)
    by (intro kst.equality) (simp_all add: set_group_def set_own_def get_own_def undone_def undo_group_def)
  finally show ?thesis using u(2,3) unfolding undo_group_wf(3) [OF assms(4,6)] by blast
qed

text \<open>A file as the module sees it when it looks at live queues only.\<close>

definition file_view :: "snvm_dev_owner \<Rightarrow> snvm_dev_owner" where
  "file_view own = own\<lparr>own_groups := map (\<lambda>g. g\<lparr>g_queues := filter uq_alive (g_queues g)\<rparr>) (own_groups own)\<rparr>"

lemma undo_commit_view:
  assumes "group_wf g" "length qids = length prs" "length qids \<le> 16" "g_cur_queues g + of_nat (length qids) \<le> 16"
  shows "(undo_group (length qids) (commit_group qids prs g))\<lparr>g_queues := filter uq_alive (g_queues (undo_group (length qids) (commit_group qids prs g)))\<rparr> =
     g\<lparr>g_queues := filter uq_alive (g_queues g)\<rparr>"
    "drop (unat (g_cur_queues (commit_group qids prs g)) - length qids) (alive_qids (g_queues (commit_group qids prs g))) = qids"
proof -
  let ?c = "commit_group qids prs g" and ?n = "unat (g_cur_queues g)" and ?k = "length qids"
  note c = commit_group_wf [OF assms]
  have g: "length (g_queues g) = 16" "?n \<le> 16" using assms(1) by (auto simp: group_wf_def)
  have k: "?k \<le> unat (g_cur_queues ?c)" using c(2) by simp
  have cur: "g_cur_queues (undo_group ?k ?c) = g_cur_queues g" by (simp add: undo_group_def commit_group_def)
  have "take ?n (g_queues (undo_group ?k ?c)) = take ?n (g_queues ?c)"
    using c(2) by (intro nth_equalityI) (auto simp: undo_group_def kill_slots_nth)
  then have "take ?n (g_queues (undo_group ?k ?c)) = take ?n (g_queues g)" unfolding c(3) using g by simp
  then have "filter uq_alive (g_queues (undo_group ?k ?c)) = filter uq_alive (g_queues g)"
    using group_alive_take(1) [OF undo_group_wf(1) [OF c(4) k]] group_alive_take(1) [OF assms(1)] cur by simp
  then show "(undo_group ?k ?c)\<lparr>g_queues := filter uq_alive (g_queues (undo_group ?k ?c))\<rparr> = g\<lparr>g_queues := filter uq_alive (g_queues g)\<rparr>"
    by (intro snvm_qgroup.equality) (simp_all add: undo_group_def commit_group_def)
  show "drop (unat (g_cur_queues ?c) - ?k) (alive_qids (g_queues ?c)) = qids"
    unfolding c(2,5) using group_alive_take(2) [OF assms(1)] g by simp
qed

text \<open>The failed addition in one state equation.\<close>

lemma add_user_queue_fail_effect:
  assumes "k_files s f = Some own" "file_wf own" "k_ctrls s c = Some ct" "pool_ok (ctrl_pool ct)"
    "ndev_ok (snvm_ctrl_get_live_ndev (Some c) s)" "length (aq_pairs req) = 16"
    "nvm_add_user_queue e c f req s = (rc, outs, s')" "rc \<noteq> 0"
  shows "outs = None \<and> (\<exists>own' p1 evs. s' = s\<lparr>k_files := (k_files s)(f \<mapsto> own'),
       k_ctrls := (k_ctrls s)(c \<mapsto> ct\<lparr>ctrl_pool := p1\<rparr>), k_log := k_log s @ evs\<rparr> \<and>
     file_wf own' \<and> file_view own' = file_view own \<and> pool_ok p1 \<and> pool_used p1 = pool_used (ctrl_pool ct) \<and>
     admin_events e (ctrl_pdev ct) evs \<and> dev_unchanged e (ctrl_pdev ct) p1 evs)"
proof -
  let ?nr = "unat (aq_nr_pairs req)" and ?prs = "take (unat (aq_nr_pairs req)) (aq_pairs req)" and ?pd = "ctrl_pdev ct"
  obtain r s1 where l: "add_user_queue_locked e c f req s = (r, s1)" by fastforce
  show ?thesis
  proof (cases r)
    case (Inl rc')
    then have o: "outs = None" "s' = s1" using assms(7) l by (auto simp: nvm_add_user_queue_def)
    obtain p1 evs where p1: "s1 = log_events evs (set_pool c p1 s)" "pool_ready (the (snvm_ctrl_get_live_ndev (Some c) s)) (ctrl_pool ct) p1"
      "admin_events e ?pd evs" "dev_unchanged e ?pd p1 evs"
    proof (cases "add_guard e c f req s")
      case (Inl rc'')
      then have "s1 = s" using l by (simp add: add_user_queue_locked_parts)
      then show thesis using that [of "[]" "ctrl_pool ct"] set_pool_same [OF assms(3)]
        by (simp add: pool_ready_def dev_unchanged_def)
    next
      case (Inr x)
      then obtain nd g rings where gd: "add_guard e c f req s = Inr (nd, g, rings)" by (cases x) auto
      note gk = add_guard_ok [OF gd]
      have "length rings = ?nr" using resolve_pairs_length [OF gk(7)] gk(4) assms(6) by simp
      moreover have "nd_ctrl_max_io_queues nd \<le> 0xffff" using assms(5) gk(2) by (simp add: ndev_ok_def)
      moreover have "add_body e c f req nd rings s = (Inl rc', s1)" using l Inl gd by (simp add: add_user_queue_locked_parts)
      ultimately show thesis using add_body_fail [of e c f req nd rings s rc' s1 ct] assms(3,4) gk(2) that
        unfolding pool_ok_def by (metis option.sel)
    qed
    have "s' = s\<lparr>k_files := (k_files s)(f \<mapsto> own), k_ctrls := (k_ctrls s)(c \<mapsto> ct\<lparr>ctrl_pool := p1\<rparr>), k_log := k_log s @ evs\<rparr>"
      unfolding o(2) p1(1) using assms(1,3)
      by (intro kst.equality) (simp_all add: set_pool_def set_ctrl_def get_ctrl_def fun_upd_idem)
    then show ?thesis using o(1) assms(2) ready_ok [OF p1(2) assms(4)] ready_used [OF p1(2)] p1(3,4) by blast
  next
    case (Inr os)
    then have cu: "outs = None" "s' = add_user_queue_undo e c f req s1"
      using assms(7,8) l by (auto simp: nvm_add_user_queue_def split: if_splits)
    obtain nd g rings p1 p2 qids evs where
      r: "own_groups own = [g]" "g_group_id g = aq_group_id req" "group_wf g"
      "?nr \<le> 16" "length rings = ?nr" "length ?prs = length qids"
      "g_cur_queues g + of_nat (length qids) \<le> 16"
      "pool_ready nd (ctrl_pool ct) p1" "pool_wf p1" "snvm_user_qid_alloc_locked p1 ?nr = (0, p2, qids)"
      "admin_events e ?pd evs" "map ev_cmd evs = map Some (create_cmds s nd (zip qids rings))"
      "\<forall>ev \<in> set evs. \<exists>cmd. ev = EvAdmin ?pd cmd 0"
      and s1: "s1 = added_state c f own (commit_group qids ?prs g) ct p2 evs s"
      using add_user_queue_locked_ok [OF assms(1-6) l [unfolded Inr]] by metis
    have a: "length qids = ?nr" "distinct qids" "set qids \<subseteq> pool_range p1 - pool_used p1" using pool_alloc_ok [OF r(9,10)] by auto
    let ?g = "commit_group qids ?prs g" and ?u = "undo_group (length qids) (commit_group qids ?prs g)"
    have le: "length qids \<le> 16" using r(4) a(1) by simp
    note cw = commit_group_wf [OF r(3) r(6) [symmetric] le r(7)] and uv = undo_commit_view [OF r(3) r(6) [symmetric] le r(7)]
    have k: "length qids \<le> unat (g_cur_queues ?g)" using cw(2) by simp
    have s1f: "k_files s1 f = Some (own\<lparr>own_groups := [?g]\<rparr>)" "k_ctrls s1 c = Some (ct\<lparr>ctrl_pool := p2\<rparr>)"
      unfolding s1 by (simp_all add: added_state_def)
    have gid: "g_group_id ?g = aq_group_id req" using r(2) by (simp add: commit_group_def)
    have k2: "?nr \<le> unat (g_cur_queues ?g)" using k unfolding a(1) .
    have dq: "drop (unat (g_cur_queues ?g) - ?nr) (alive_qids (g_queues ?g)) = qids" using uv(2) unfolding a(1) .
    have "own_groups (own\<lparr>own_groups := [?g]\<rparr>) = [?g]" by simp
    from add_user_queue_undo_effect [OF s1f(1) this gid cw(4) s1f(2) k2, of e, unfolded dq]
    obtain evs' where u: "add_user_queue_undo e c f req s1 = added_state c f (own\<lparr>own_groups := [?g]\<rparr>) ?u
        (ct\<lparr>ctrl_pool := p2\<rparr>) (free_qids qids p2) evs' s1" "admin_events e ?pd evs'" "map ev_cmd evs' = map Some (delete_cmds qids)"
      unfolding a(1) by auto
    have fr: "free_qids qids p2 = p1" using qp.free_after_alloc [OF r(9,10)] by (simp add: free_qids_def)
    have st: "s' = s\<lparr>k_files := (k_files s)(f \<mapsto> own\<lparr>own_groups := [?u]\<rparr>), k_ctrls := (k_ctrls s)(c \<mapsto> ct\<lparr>ctrl_pool := p1\<rparr>),
        k_log := k_log s @ (evs @ evs')\<rparr>"
      unfolding cu(2) u(1) fr unfolding s1 by (intro kst.equality) (simp_all add: added_state_def)
    have "fold (dev_event ?pd) (evs @ evs') (cqs, sqs) = (cqs, sqs)"
      if "deletes_succeed e" "(pool_range p1 - pool_used p1) \<inter> (cqs \<union> sqs) = {}" for cqs sqs
    proof -
      have z: "\<forall>ev \<in> set evs'. \<exists>cmd. ev = EvAdmin ?pd cmd 0"
        using delete_cmds_reply [OF u(2,3)] that(1) by (simp add: deletes_succeed_def)
      have "set qids \<inter> cqs = {}" "set qids \<inter> sqs = {}" using a(3) that(2) by auto
      then show ?thesis using fold_dev_create [OF r(12,13)] r(5) a(1) fold_dev_delete [OF u(3) z] by (simp add: Un_Diff) blast
    qed
    then have "dev_unchanged e ?pd p1 (evs @ evs')" by (simp add: dev_unchanged_def)
    moreover have "file_view (own\<lparr>own_groups := [?u]\<rparr>) = file_view own" using uv(1) r(1) by (simp add: file_view_def)
    moreover have "file_wf (own\<lparr>own_groups := [?u]\<rparr>)"
      using undo_group_wf(1) [OF cw(4) k] assms(2) r(1) by (simp add: file_wf_def)
    moreover have "pool_ok p1" "admin_events e ?pd (evs @ evs')" using r(9,11) u(2) by (simp_all add: pool_ok_def)
    ultimately show ?thesis using cu(1) st ready_used [OF r(8)] by blast
  qed
qed

lemma locked_rc:
  assumes "k_files s f = Some own" "file_wf own" "k_ctrls s c = Some ct" "pool_ok (ctrl_pool ct)"
    "ndev_ok (snvm_ctrl_get_live_ndev (Some c) s)" "length (aq_pairs req) = 16"
    "add_user_queue_locked e c f req s = (Inl rc, s')"
  shows "rc \<noteq> 0"
proof (cases "add_guard e c f req s")
  case (Inl r)
  then show ?thesis using assms(7) add_guard_rc [OF Inl] by (auto simp: add_user_queue_locked_parts)
next
  case (Inr x)
  then obtain nd g rings where gd: "add_guard e c f req s = Inr (nd, g, rings)" by (cases x) auto
  note gk = add_guard_ok [OF gd]
  have "length rings = unat (aq_nr_pairs req)" using resolve_pairs_length [OF gk(7)] gk(4) assms(6) by simp
  moreover have "nd_ctrl_max_io_queues nd \<le> 0xffff" using assms(5) gk(2) by (simp add: ndev_ok_def)
  moreover have "add_body e c f req nd rings s = (Inl rc, s')" using assms(7) gd by (simp add: add_user_queue_locked_parts)
  ultimately show ?thesis using add_body_fail [of e c f req nd rings s rc s' ct] assms(3,4) unfolding pool_ok_def by blast
qed

text \<open>The successful addition in one state equation.\<close>

lemma add_user_queue_ok_effect:
  assumes "k_files s f = Some own" "file_wf own" "k_ctrls s c = Some ct" "pool_ok (ctrl_pool ct)"
    "ndev_ok (snvm_ctrl_get_live_ndev (Some c) s)" "length (aq_pairs req) = 16"
    "nvm_add_user_queue e c f req s = (0, outs, s')" "dev_queues (ctrl_pdev ct) (k_log s) = (cqs, sqs)"
  shows "\<exists>nd g g' rings qids evs p'. snvm_ctrl_get_live_ndev (Some c) s = Some nd \<and> own_groups own = [g] \<and>
    resolve_pairs s (g_maps g) (take (unat (aq_nr_pairs req)) (aq_pairs req)) = Some rings \<and>
    length qids = unat (aq_nr_pairs req) \<and> distinct qids \<and> set qids \<inter> pool_used (ctrl_pool ct) = {} \<and>
    outs = Some (map (add_out nd) qids) \<and>
    s' = s\<lparr>k_files := (k_files s)(f \<mapsto> own\<lparr>own_groups := [g']\<rparr>), k_ctrls := (k_ctrls s)(c \<mapsto> ct\<lparr>ctrl_pool := p'\<rparr>),
           k_log := k_log s @ evs\<rparr> \<and>
    set qids \<subseteq> pool_range p' \<and> pool_used p' = pool_used (ctrl_pool ct) \<union> set qids \<and> pool_wf p' \<and>
    group_wf g' \<and> alive_qids (g_queues g') = alive_qids (g_queues g) @ qids \<and>
    map ev_cmd evs = map Some (create_cmds s nd (zip qids rings)) \<and> admin_events e (ctrl_pdev ct) evs \<and>
    g_group_id g' = g_group_id g \<and> g_maps g' = g_maps g \<and>
    dev_queues (ctrl_pdev ct) (k_log s') = (cqs \<union> set qids, sqs \<union> set qids)"
proof -
  have "copy_to_user_ok e \<and> (\<exists>os. outs = Some os \<and> add_user_queue_locked e c f req s = (Inr os, s'))"
  proof (cases "add_user_queue_locked e c f req s")
    case (Pair r s1)
    show ?thesis
    proof (cases r)
      case (Inl rc)
      have "rc \<noteq> 0" using locked_rc [OF assms(1-6)] Pair Inl by blast
      then show ?thesis using assms(7) Pair Inl by (simp add: nvm_add_user_queue_def)
    qed (use assms(7) Pair in \<open>auto simp: nvm_add_user_queue_def split: if_splits\<close>)
  qed
  then obtain os where o: "outs = Some os" "add_user_queue_locked e c f req s = (Inr os, s')" by blast
  from add_user_queue_locked_ok [OF assms(1-6) o(2)] show ?thesis
  proof cases
    case (1 nd g rings p1 p2 qids evs)
    have a: "pool_wf p2" "pool_range p2 = pool_range p1" "pool_used p2 = pool_used p1 \<union> set qids"
      "length qids = unat (aq_nr_pairs req)" "distinct qids" "set qids \<subseteq> pool_range p1 - pool_used p1"
      using pool_alloc_ok [OF 1(13,14)] by auto
    have le: "length qids \<le> 16" using 1(7) a(4) by simp
    note cw = commit_group_wf [OF 1(4) 1(9) [symmetric] le 1(10)]
    have "length rings = length qids" using 1(8) a(4) by simp
    then have "dev_queues (ctrl_pdev ct) (k_log s @ evs) = (cqs \<union> set qids, sqs \<union> set qids)"
      using fold_dev_create [OF 1(17,18)] by (simp add: dev_queues_append assms(8))
    moreover have "k_log s' = k_log s @ evs" by (simp add: 1(19) added_state_def)
    moreover have "g_group_id (commit_group qids (take (unat (aq_nr_pairs req)) (aq_pairs req)) g) = g_group_id g"
      "g_maps (commit_group qids (take (unat (aq_nr_pairs req)) (aq_pairs req)) g) = g_maps g"
      by (simp_all add: commit_group_def)
    ultimately show ?thesis
      using 1(1,2,5,15,16,17) o(1) a ready_used [OF 1(12)] cw(4,5) 1(19) [unfolded added_state_def]
      by (intro exI conjI) (assumption | simp | blast)+
  qed
qed

subsection \<open>Properties\<close>

text \<open>C6. A successful \<open>NVM_ADD_USER_QUEUE\<close> hands out as many pairwise distinct QIDs as pairs were
  requested, none of them in use before and all of them from the controller's pool; it sends the
  controller, pair by pair, one \<open>Create I/O CQ\<close> and then one \<open>Create I/O SQ\<close> with the bus addresses of
  the rings resolved among the group's own maps, all accepted; the group gains exactly these queues
  after the ones it had; and the caller gets the doorbell offsets of these QIDs.\<close>

theorem nvm_add_user_queue_success:
  assumes "k_files s f = Some own" "file_wf own" "k_ctrls s c = Some ct" "pool_ok (ctrl_pool ct)"
    "ndev_ok (snvm_ctrl_get_live_ndev (Some c) s)" "length (aq_pairs req) = 16"
    "nvm_add_user_queue e c f req s = (0, outs, s')" "dev_queues (ctrl_pdev ct) (k_log s) = (cqs, sqs)"
  shows "\<exists>nd g g' rings qids evs p'. snvm_ctrl_get_live_ndev (Some c) s = Some nd \<and> own_groups own = [g] \<and>
    resolve_pairs s (g_maps g) (take (unat (aq_nr_pairs req)) (aq_pairs req)) = Some rings \<and>
    length qids = unat (aq_nr_pairs req) \<and> distinct qids \<and> set qids \<inter> pool_used (ctrl_pool ct) = {} \<and>
    outs = Some (map (add_out nd) qids) \<and>
    s' = s\<lparr>k_files := (k_files s)(f \<mapsto> own\<lparr>own_groups := [g']\<rparr>), k_ctrls := (k_ctrls s)(c \<mapsto> ct\<lparr>ctrl_pool := p'\<rparr>),
           k_log := k_log s @ evs\<rparr> \<and>
    set qids \<subseteq> pool_range p' \<and> pool_used p' = pool_used (ctrl_pool ct) \<union> set qids \<and> pool_wf p' \<and>
    group_wf g' \<and> alive_qids (g_queues g') = alive_qids (g_queues g) @ qids \<and>
    map ev_cmd evs = map Some (create_cmds s nd (zip qids rings)) \<and>
    dev_queues (ctrl_pdev ct) (k_log s') = (cqs \<union> set qids, sqs \<union> set qids)"
  using add_user_queue_ok_effect [OF assms] by blast

definition own_ex :: snvm_dev_owner where
  "own_ex = \<lparr>own_ctrl = 0, own_owner = 7, own_groups = [(new_qgroup 5)\<lparr>g_maps := [3, 2], g_nr_maps := 2\<rparr>], own_nr_groups = 1,
     own_data_maps = [], own_nr_data_maps = 0\<rparr>"

definition kst_ex_add :: kst where
  "kst_ex_add = kst_ex_maps\<lparr>k_files := [0 \<mapsto> own_ex], k_queue_group_ida := {5}\<rparr>"

definition add_req_ex :: nvm_ioctl_add_user_queue where
  "add_req_ex = \<lparr>aq_group_id = 5, aq_nr_pairs = 1, aq_flags = 0, aq_reserved = [0],
     aq_pairs = replicate 16 \<lparr>in_sq_vaddr = 0x2000, in_cq_vaddr = 0x3000\<rparr>\<rparr>"

lemma new_qgroup_wf: "gid \<noteq> 0 \<Longrightarrow> group_wf (new_qgroup gid)"
  by (simp add: group_wf_def new_qgroup_def zero_queue_def)

lemma group_wf_maps [simp]: "group_wf (g\<lparr>g_maps := ms, g_nr_maps := n\<rparr>) = group_wf g"
  by (simp add: group_wf_def)

lemma kst_ex_add_facts:
  "k_files kst_ex_add 0 = Some own_ex" "file_wf own_ex" "k_ctrls kst_ex_add 0 = Some ctrl_ex"
  "pool_ok (ctrl_pool ctrl_ex)" "ndev_ok (snvm_ctrl_get_live_ndev (Some 0) kst_ex_add)" "length (aq_pairs add_req_ex) = 16"
  "dev_queues (ctrl_pdev ctrl_ex) (k_log kst_ex_add) = ({}, {})"
proof -
  have w: "group_wf (new_qgroup 5)" by (rule new_qgroup_wf) simp
  show "k_files kst_ex_add 0 = Some own_ex" "k_ctrls kst_ex_add 0 = Some ctrl_ex" "length (aq_pairs add_req_ex) = 16"
    "dev_queues (ctrl_pdev ctrl_ex) (k_log kst_ex_add) = ({}, {})" "pool_ok (ctrl_pool ctrl_ex)"
    by (simp_all add: kst_ex_add_def kst_ex_maps_def kst_ex_def kst_init_def add_req_ex_def dev_queues_def pool_ok_def ctrl_ex_def empty_pool_def)
  show "file_wf own_ex" using w by (simp add: file_wf_def own_ex_def)
  show "ndev_ok (snvm_ctrl_get_live_ndev (Some 0) kst_ex_add)"
    by (subst live_ndev_ex) (simp_all add: kst_ex_add_def kst_ex_maps_def kst_ex_def ndev_ok_def nd_ex_def)
qed

lemma add_ex_rc: "fst (nvm_add_user_queue env_ex 0 0 add_req_ex kst_ex_add) = 0"
  by code_simp

theorem nvm_add_user_queue_success_witness:
  "\<exists>outs s' q. nvm_add_user_queue env_ex 0 0 add_req_ex kst_ex_add = (0, Some outs, s') \<and>
     outs = [add_out nd_ex q] \<and> dev_queues 1 (k_log s') = ({q}, {q})"
proof -
  obtain outs s' where r: "nvm_add_user_queue env_ex 0 0 add_req_ex kst_ex_add = (0, outs, s')"
    using add_ex_rc by (metis prod.collapse)
  have "snvm_ctrl_get_live_ndev (Some 0) kst_ex_add = Some nd_ex"
    by (rule live_ndev_ex) (simp_all add: kst_ex_add_def kst_ex_maps_def kst_ex_def)
  moreover have "unat (aq_nr_pairs add_req_ex) = 1" "ctrl_pdev ctrl_ex = 1" by (simp_all add: add_req_ex_def ctrl_ex_def)
  ultimately obtain qids where "length qids = 1" "outs = Some (map (add_out nd_ex) qids)"
    "dev_queues 1 (k_log s') = ({} \<union> set qids, {} \<union> set qids)"
    using nvm_add_user_queue_success [OF kst_ex_add_facts(1-6) r kst_ex_add_facts(7)] by auto
  then show ?thesis using r by (auto simp: length_Suc_conv)
qed

text \<open>C7. A failed \<open>NVM_ADD_USER_QUEUE\<close>, at whichever check, allocation, admin command or copy back to
  user space it fails, returns nothing to the caller and leaves no trace: the files hold the same
  live queues and counters, the maps are untouched, no QID stays allocated; and if the controller
  carries out the clean-up \<open>Delete\<close> commands, its queues are those it had before, as long as the free
  QIDs of the pool were not in use on the controller.\<close>

theorem nvm_add_user_queue_failure:
  assumes "k_files s f = Some own" "file_wf own" "k_ctrls s c = Some ct" "pool_ok (ctrl_pool ct)"
    "ndev_ok (snvm_ctrl_get_live_ndev (Some c) s)" "length (aq_pairs req) = 16"
    "nvm_add_user_queue e c f req s = (rc, outs, s')" "rc \<noteq> 0" "dev_queues (ctrl_pdev ct) (k_log s) = (cqs, sqs)"
  shows "outs = None \<and> file_view (get_own s' f) = file_view own \<and> (\<forall>f'. f' \<noteq> f \<longrightarrow> k_files s' f' = k_files s f') \<and>
    k_maps s' = k_maps s \<and> pool_used (ctrl_pool (get_ctrl s' c)) = pool_used (ctrl_pool ct) \<and>
    (deletes_succeed e \<longrightarrow>
     (pool_range (ctrl_pool (get_ctrl s' c)) - pool_used (ctrl_pool (get_ctrl s' c))) \<inter> (cqs \<union> sqs) = {} \<longrightarrow>
     dev_queues (ctrl_pdev ct) (k_log s') = (cqs, sqs))"
proof -
  obtain own' p1 evs where r: "outs = None" "s' = s\<lparr>k_files := (k_files s)(f \<mapsto> own'),
       k_ctrls := (k_ctrls s)(c \<mapsto> ct\<lparr>ctrl_pool := p1\<rparr>), k_log := k_log s @ evs\<rparr>"
     "file_view own' = file_view own" "pool_used p1 = pool_used (ctrl_pool ct)"
     "dev_unchanged e (ctrl_pdev ct) p1 evs"
    using add_user_queue_fail_effect [OF assms(1-8)] by blast
  then show ?thesis using assms(9) by (auto simp: get_own_def get_ctrl_def dev_unchanged_def dev_queues_append)
qed

definition env_ex_reject :: kenv where
  "env_ex_reject = env_ex\<lparr>admin_reply := (\<lambda>_ cmd. case cmd of CreateSQ _ _ _ _ _ \<Rightarrow> 0x101 | _ \<Rightarrow> 0)\<rparr>"

lemma add_ex_reject_rc: "fst (nvm_add_user_queue env_ex_reject 0 0 add_req_ex kst_ex_add) = 0x101"
  by code_simp

theorem nvm_add_user_queue_failure_witness:
  "\<exists>s'. nvm_add_user_queue env_ex_reject 0 0 add_req_ex kst_ex_add = (0x101, None, s') \<and>
     file_view (get_own s' 0) = file_view own_ex \<and> dev_queues 1 (k_log s') = ({}, {})"
proof -
  obtain outs s' where r: "nvm_add_user_queue env_ex_reject 0 0 add_req_ex kst_ex_add = (0x101, outs, s')"
    using add_ex_reject_rc by (metis prod.collapse)
  have d: "deletes_succeed env_ex_reject" by (simp add: deletes_succeed_def env_ex_reject_def)
  have c: "ctrl_pdev ctrl_ex = 1" by (simp add: ctrl_ex_def)
  show ?thesis
    using nvm_add_user_queue_failure [OF kst_ex_add_facts(1-6) r _ kst_ex_add_facts(7)] d r c by simp
qed

text \<open>C23. The roll-back after a failed copy to user space takes the group's lock again and undoes the last
  \<open>nr\<close> slots the group then has, whichever call filled them: their queues are deleted on the
  controller in slot order and their QIDs freed, the earlier slots stay. If another
  \<open>NVM_ADD_USER_QUEUE\<close> on the same group ran in between, the slots undone are those of that call.\<close>

theorem add_user_queue_undo_last_slots:
  assumes "k_files s f = Some own" "own_groups own = [g]" "g_group_id g = aq_group_id req" "group_wf g"
    "k_ctrls s c = Some ct" "unat (aq_nr_pairs req) \<le> unat (g_cur_queues g)"
  shows "let s' = add_user_queue_undo e c f req s; keep = unat (g_cur_queues g) - unat (aq_nr_pairs req);
      gone = drop keep (alive_qids (g_queues g)) in
    \<exists>g' evs. own_groups (get_own s' f) = [g'] \<and> group_wf g' \<and> alive_qids (g_queues g') = take keep (alive_qids (g_queues g)) \<and>
      k_log s' = k_log s @ evs \<and> map ev_cmd evs = map Some (delete_cmds gone) \<and>
      ctrl_pool (get_ctrl s' c) = free_qids gone (ctrl_pool ct)"
proof -
  obtain evs where "add_user_queue_undo e c f req s = added_state c f own (undo_group (unat (aq_nr_pairs req)) g) ct
      (free_qids (drop (unat (g_cur_queues g) - unat (aq_nr_pairs req)) (alive_qids (g_queues g))) (ctrl_pool ct)) evs s"
    "map ev_cmd evs = map Some (delete_cmds (drop (unat (g_cur_queues g) - unat (aq_nr_pairs req)) (alive_qids (g_queues g))))"
    using add_user_queue_undo_effect [OF assms] by blast
  then show ?thesis using undo_group_wf(1,2) [OF assms(4,6)]
    by (simp add: Let_def added_state_def get_own_def get_ctrl_def)
qed

definition group_ex2 :: snvm_qgroup where
  "group_ex2 = \<lparr>g_group_id = 5, g_max_queues = 16, g_maps = [2], g_nr_maps = 1,
     g_queues = user_queue_ex 3 True # user_queue_ex 4 True # replicate 14 zero_queue, g_cur_queues = 2\<rparr>"

theorem add_user_queue_undo_last_slots_witness:
  "let s' = add_user_queue_undo env_ex 0 0 add_req_ex (kst_ex_add\<lparr>k_files := [0 \<mapsto> own_ex\<lparr>own_groups := [group_ex2]\<rparr>]\<rparr>) in
   (\<exists>g'. own_groups (get_own s' 0) = [g'] \<and> alive_qids (g_queues g') = [3]) \<and>
   map ev_cmd (k_log s') = [Some (DeleteSQ 4), Some (DeleteCQ 4)]"
proof -
  have w: "group_wf group_ex2"
    by (auto simp: group_wf_def group_ex2_def user_queue_ex_def zero_queue_def nth_Cons split: nat.splits)
  have a: "alive_qids (g_queues group_ex2) = [3, 4]" "unat (g_cur_queues group_ex2) = 2" "g_group_id group_ex2 = aq_group_id add_req_ex"
    "unat (aq_nr_pairs add_req_ex) = 1"
    by (simp_all add: group_ex2_def user_queue_ex_def zero_queue_def alive_qids_def add_req_ex_def)
  have lg: "k_log kst_ex_add = []" by (simp add: kst_ex_add_def kst_ex_maps_def kst_ex_def kst_init_def)
  show ?thesis
    using add_user_queue_undo_last_slots [of "kst_ex_add\<lparr>k_files := [0 \<mapsto> own_ex\<lparr>own_groups := [group_ex2]\<rparr>]\<rparr>" 0
        "own_ex\<lparr>own_groups := [group_ex2]\<rparr>" group_ex2 add_req_ex 0 ctrl_ex env_ex] w a kst_ex_add_facts(3) lg
    by (auto simp: Let_def)
qed

end
