(* ===== verification/Map_Ioctl.thy ===== *)
theory Map_Ioctl
  imports Queue_Ioctl
begin

text \<open>
  The data-plane requests for memory mappings of \<open>snvm_dev_map_ioctl\<close> (\<open>pci.c\<close>): \<open>NVM_MAP_HOST_MEMORY\<close>,
  \<open>NVM_MAP_DEVICE_MEMORY\<close>, \<open>NVM_MAP_DEVICE_QUEUE_MEMORY\<close> and the three \<open>NVM_UNMAP_*\<close>.
\<close>

unbundle bit_operations_syntax

subsection \<open>Mapping memory\<close>

record nvm_ioctl_map =
  rq_vaddr_start :: u64
  rq_n_pages :: u64
  rq_ioq_idx :: int
  rq_is_cq :: int
  rq_group_id :: u32
  rq_map_kind :: u8
  rq_reserved0 :: "u8 list"

definition map_request_bad :: "nvm_ioctl_map \<Rightarrow> bool" where
  "map_request_bad req \<longleftrightarrow> (\<exists>r \<in> set (rq_reserved0 req). r \<noteq> 0) \<or> rq_map_kind req > NVM_MAP_KIND_DATA \<or>
     (rq_map_kind req = NVM_MAP_KIND_RING_SQ \<or> rq_map_kind req = NVM_MAP_KIND_RING_CQ) \<and> rq_group_id req = 0"

definition data_map_add :: "fid \<Rightarrow> mid \<Rightarrow> kst \<Rightarrow> kst" where
  "data_map_add f m s = set_own f (\<lambda>own. own\<lparr>own_data_maps := own_data_maps own @ [m],
     own_nr_data_maps := own_nr_data_maps own + 1\<rparr>) s"

definition group_map_add :: "fid \<Rightarrow> u32 \<Rightarrow> mid \<Rightarrow> kst \<Rightarrow> kst" where
  "group_map_add f gid m s = set_group f gid (\<lambda>g. g\<lparr>g_maps := g_maps g @ [m], g_nr_maps := g_nr_maps g + 1\<rparr>)
     (set_map m (map_group_id_update (\<lambda>_. gid)) s)"

text \<open>The attachment of a new map to the file's data list or to one of its groups; an unattached map
  (\<open>group_id\<close> 0, not data) stays on the global list only.\<close>

definition attach_scoped :: "fid \<Rightarrow> nvm_ioctl_map \<Rightarrow> mid \<Rightarrow> kst \<Rightarrow> int \<times> kst" where
  "attach_scoped f req m s =
     (if rq_map_kind req = NVM_MAP_KIND_DATA then
        (case k_files s f of None \<Rightarrow> (- ENODEV, unmap_and_release m s)
         | Some own \<Rightarrow> (0, data_map_add f m s))
      else if rq_group_id req \<noteq> 0 then
        (case k_files s f of None \<Rightarrow> (- ENODEV, unmap_and_release m s)
         | Some own \<Rightarrow>
             (case find_qgroup_locked (Some own) (rq_group_id req) of
                None \<Rightarrow> (- ENOENT, unmap_and_release m s)
              | Some g \<Rightarrow> (0, group_map_add f (rq_group_id req) m s)))
      else (0, s))"

definition ioq_account :: "cid \<Rightarrow> bool \<Rightarrow> kst \<Rightarrow> kst" where
  "ioq_account c is_cq s = set_ctrl c (\<lambda>ct. ct\<lparr>ctrl_ioq_map_num := ctrl_ioq_map_num ct + 1,
     ctrl_cq_num := (if is_cq then ctrl_cq_num ct + 1 else ctrl_cq_num ct)\<rparr>) s"

definition ioq_unaccount :: "cid \<Rightarrow> bool \<Rightarrow> kst \<Rightarrow> kst" where
  "ioq_unaccount c is_cq s = set_ctrl c (\<lambda>ct. ct\<lparr>ctrl_ioq_map_num := ctrl_ioq_map_num ct - 1,
     ctrl_cq_num := (if is_cq then ctrl_cq_num ct - 1 else ctrl_cq_num ct)\<rparr>) s"

text \<open>Legacy mode: the map is a queue ring counted against the budget of \<open>NVM_SET_IOQ_NUM\<close>.\<close>

definition attach_legacy :: "cid \<Rightarrow> nvm_ioctl_map \<Rightarrow> mid \<Rightarrow> kst \<Rightarrow> int \<times> kst" where
  "attach_legacy c req m s =
     (if ctrl_ioq_map_num (get_ctrl s c) + 1 > ctrl_ioq_num (get_ctrl s c)
      then (- EFAULT, unmap_and_release m s)
      else (0, ioq_account c (rq_is_cq req \<noteq> 0)
              (set_map m (\<lambda>md. md\<lparr>map_ioq_idx := rq_ioq_idx req, map_is_cq := rq_is_cq req\<rparr>) s)))"

definition is_legacy :: "nvm_ioctl_map \<Rightarrow> bool" where
  "is_legacy req \<longleftrightarrow> rq_map_kind req \<noteq> NVM_MAP_KIND_DATA \<and> rq_group_id req = 0 \<and> rq_ioq_idx req \<ge> 0"

text \<open>Taking the counters back when the addresses cannot be copied to user space.\<close>

definition detach_scoped :: "fid \<Rightarrow> nvm_ioctl_map \<Rightarrow> kst \<Rightarrow> kst" where
  "detach_scoped f req s =
     (case k_files s f of None \<Rightarrow> s
      | Some own \<Rightarrow>
          if rq_map_kind req = NVM_MAP_KIND_DATA then
            (if own_nr_data_maps own > 0
             then set_own f (\<lambda>own. own\<lparr>own_nr_data_maps := own_nr_data_maps own - 1\<rparr>) s else s)
          else if rq_group_id req \<noteq> 0 then
            (case find_qgroup_locked (Some own) (rq_group_id req) of
               None \<Rightarrow> s
             | Some g \<Rightarrow> set_group f (rq_group_id req) (\<lambda>g. g\<lparr>g_nr_maps := g_nr_maps g - 1\<rparr>) s)
          else s)"

definition map_reply :: "kst \<Rightarrow> mid \<Rightarrow> u64 list" where
  "map_reply s m = take (map_n_addrs (get_map s m)) (map_addrs (get_map s m))"

definition nvm_map_host_memory ::
  "kenv \<Rightarrow> cid \<Rightarrow> fid \<Rightarrow> nvm_ioctl_map \<Rightarrow> kst \<Rightarrow> int \<times> u64 list option \<times> kst" where
  "nvm_map_host_memory e c f req s =
     (if \<not> copy_from_user_ok e then (- EFAULT, None, s)
      else if map_request_bad req then (- EINVAL, None, s)
      else case map_userspace e (get_ctrl s c) (rq_vaddr_start req) (rq_n_pages req) s of
          (Inl err, s1) \<Rightarrow> (err, None, s1)
        | (Inr m, s1) \<Rightarrow>
            let s2 = set_map m (map_kind_update (\<lambda>_. rq_map_kind req)) s1 in
            (case (if is_legacy req then attach_legacy c req m s2 else attach_scoped f req m s2) of
               (rc, s3) \<Rightarrow>
                 if rc \<noteq> 0 then (rc, None, s3)
                 else if copy_to_user_ok e then (0, Some (map_reply s3 m), s3)
                 else (- EFAULT, None, unmap_and_release m
                         (if is_legacy req then ioq_unaccount c (map_is_cq (get_map s3 m) \<noteq> 0) s3 else detach_scoped f req s3))))"

definition nvm_map_device_memory ::
  "kenv \<Rightarrow> cid \<Rightarrow> fid \<Rightarrow> nvm_ioctl_map \<Rightarrow> kst \<Rightarrow> int \<times> u64 list option \<times> kst" where
  "nvm_map_device_memory e c f req s =
     (if \<not> copy_from_user_ok e then (- EFAULT, None, s)
      else if map_request_bad req then (- EINVAL, None, s)
      else case map_device_memory e (get_ctrl s c) (rq_vaddr_start req) (rq_n_pages req) s of
          (Inl err, s1) \<Rightarrow> (err, None, s1)
        | (Inr m, s1) \<Rightarrow>
            let s2 = set_map m (map_kind_update (\<lambda>_. rq_map_kind req)) s1 in
            (case attach_scoped f req m s2 of
               (rc, s3) \<Rightarrow>
                 if rc \<noteq> 0 then (rc, None, s3)
                 else if copy_to_user_ok e then (0, Some (map_reply s3 m), s3)
                 else (- EFAULT, None, unmap_and_release m (detach_scoped f req s3))))"

definition nvm_map_device_queue_memory ::
  "kenv \<Rightarrow> cid \<Rightarrow> fid \<Rightarrow> nvm_ioctl_map \<Rightarrow> kst \<Rightarrow> int \<times> u64 list option \<times> kst" where
  "nvm_map_device_queue_memory e c f req s =
     (if \<not> copy_from_user_ok e then (- EFAULT, None, s)
      else if rq_ioq_idx req < 0 then (- EFAULT, None, s)
      else case map_device_ioqueue_memory e (get_ctrl s c) (rq_vaddr_start req) (rq_n_pages req) s of
          (Inl err, s1) \<Rightarrow> (err, None, s1)
        | (Inr m, s1) \<Rightarrow>
            (case attach_legacy c req m s1 of
               (rc, s3) \<Rightarrow>
                 if rc \<noteq> 0 then (rc, None, s3)
                 else if copy_to_user_ok e then (0, Some (map_reply s3 m), s3)
                 else (- EFAULT, None, unmap_and_release m (ioq_unaccount c (map_is_cq (get_map s3 m) \<noteq> 0) s3))))"

subsection \<open>Unmapping\<close>

definition unmap_counts :: "fid \<Rightarrow> kmap \<Rightarrow> kst \<Rightarrow> kst" where
  "unmap_counts f md s =
     (case k_files s f of None \<Rightarrow> s
      | Some own \<Rightarrow>
          if map_kind md = NVM_MAP_KIND_DATA then
            (if own_nr_data_maps own > 0
             then set_own f (\<lambda>own. own\<lparr>own_nr_data_maps := own_nr_data_maps own - 1\<rparr>) s else s)
          else if map_group_id md \<noteq> 0 then
            (case find_qgroup_locked (Some own) (map_group_id md) of
               None \<Rightarrow> s
             | Some g \<Rightarrow>
                 if g_nr_maps g > 0
                 then set_group f (map_group_id md) (\<lambda>g. g\<lparr>g_nr_maps := g_nr_maps g - 1\<rparr>) s else s)
          else s)"

definition nvm_unmap_host_memory :: "kenv \<Rightarrow> cid \<Rightarrow> fid \<Rightarrow> u64 \<Rightarrow> kst \<Rightarrow> int \<times> kst" where
  "nvm_unmap_host_memory e c f addr s =
     (if \<not> copy_from_user_ok e then (- EFAULT, s)
      else case map_find e HostList addr s of
          None \<Rightarrow> (- EINVAL, s)
        | Some m \<Rightarrow>
            let md = get_map s m;
                s1 = (if map_ioq_idx md \<ge> 0 then ioq_unaccount c (map_is_cq md \<noteq> 0) s else s)
            in (0, unmap_and_release m (unmap_counts f md s1)))"

definition nvm_unmap_device_memory :: "kenv \<Rightarrow> cid \<Rightarrow> fid \<Rightarrow> u64 \<Rightarrow> kst \<Rightarrow> int \<times> kst" where
  "nvm_unmap_device_memory e c f addr s =
     (if \<not> copy_from_user_ok e then (- EFAULT, s)
      else case map_find e DeviceList addr s of
          None \<Rightarrow> (- EINVAL, s)
        | Some m \<Rightarrow> (0, unmap_and_release m (unmap_counts f (get_map s m) s)))"

definition nvm_unmap_device_queue_memory :: "kenv \<Rightarrow> cid \<Rightarrow> u64 \<Rightarrow> kst \<Rightarrow> int \<times> kst" where
  "nvm_unmap_device_queue_memory e c addr s =
     (if \<not> copy_from_user_ok e then (- EFAULT, s)
      else case map_find e DeviceQueueList addr s of
          None \<Rightarrow> (- EINVAL, s)
        | Some m \<Rightarrow>
            let md = get_map s m;
                s1 = (if map_ioq_idx md \<ge> 0 then ioq_unaccount c (map_is_cq md \<noteq> 0) s else s)
            in (0, unmap_and_release m s1))"

subsection \<open>The state while a new map is being attached\<close>

text \<open>\<open>mstate l m md evs fl cts s\<close>: descriptor \<open>m\<close> with contents \<open>md\<close> has been added to list \<open>l\<close> of \<open>s\<close>, with the files and
  the controllers now \<open>fl\<close> and \<open>cts\<close>.\<close>

definition mstate ::
  "glist \<Rightarrow> mid \<Rightarrow> kmap \<Rightarrow> kevent list \<Rightarrow> (fid \<rightharpoonup> snvm_dev_owner) \<Rightarrow> (cid \<rightharpoonup> ctrl) \<Rightarrow> kst \<Rightarrow> kst" where
  "mstate l m md evs fl cts s = insert_list l m (s\<lparr>k_next_mid := Suc m, k_maps := (k_maps s)(m \<mapsto> md),
     k_files := fl, k_ctrls := cts, k_log := k_log s @ evs\<rparr>)"

lemma mstate_sel [simp]:
  "k_files (mstate l m md evs fl cts s) = fl" "k_ctrls (mstate l m md evs fl cts s) = cts"
  "k_maps (mstate l m md evs fl cts s) = (k_maps s)(m \<mapsto> md)" "get_map (mstate l m md evs fl cts s) m = md"
  "get_ctrl (mstate l m md evs fl cts s) c = the (cts c)" "get_own (mstate l m md evs fl cts s) f = the (fl f)"
  "k_ctrl_list (mstate l m md evs fl cts s) = k_ctrl_list s" "k_log (mstate l m md evs fl cts s) = k_log s @ evs"
  "k_next_mid (mstate l m md evs fl cts s) = Suc m"
  "get_list l (mstate l m md evs fl cts s) = get_list l s @ [m]"
  by (cases l; simp add: mstate_def get_map_def get_ctrl_def get_own_def)+

lemma mstate_upd [simp]:
  "set_map m h (mstate l m md evs fl cts s) = mstate l m (h md) evs fl cts s"
  "set_own f h' (mstate l m md evs fl cts s) = mstate l m md evs (fl(f \<mapsto> h' (the (fl f)))) cts s"
  "set_ctrl c h'' (mstate l m md evs fl cts s) = mstate l m md evs fl (cts(c \<mapsto> h'' (the (cts c)))) s"
  by (cases l; simp add: mstate_def set_map_def set_own_def set_ctrl_def get_map_def get_ctrl_def get_own_def)+

definition unlink_all :: "mid \<Rightarrow> (fid \<rightharpoonup> snvm_dev_owner) \<Rightarrow> (fid \<rightharpoonup> snvm_dev_owner)" where
  "unlink_all m fl = (\<lambda>f. map_option (unlink_group_maps m) (fl f))"

lemma mstate_unmap:
  assumes "maps_wf s" "m = k_next_mid s"
  shows "unmap_and_release m (mstate l m md evs fl cts s) = s\<lparr>k_next_mid := Suc m, k_files := unlink_all m fl, k_ctrls := cts,
     k_log := k_log s @ evs @ release_events (length (k_ctrl_list s)) md\<rparr>"
proof -
  have f: "k_maps s m = None" "m \<notin> set (k_host_list s)" "m \<notin> set (k_device_list s)" "m \<notin> set (k_device_queue_list s)"
    using maps_wf_fresh(1,2) [OF assms(1)] assms(2) by (auto simp: all_lists_def)
  have r: "get_map (mstate l m md evs fl cts s) m = md" by simp
  show ?thesis
    unfolding unmap_and_release_eq r
    by (cases l; intro kst.equality) (use f in \<open>simp_all add: mstate_def unlink_all_def remove1_idem remove1_append fun_upd_idem\<close>)
qed

text \<open>Nothing but the log and the counter of identities differs, and the log is balanced.\<close>

definition quiet :: "kst \<Rightarrow> kst \<Rightarrow> bool" where
  "quiet s s' \<longleftrightarrow> s' = s\<lparr>k_next_mid := k_next_mid s', k_log := k_log s'\<rparr> \<and>
    (\<forall>p. log_sum (pin_delta p) (k_log s') = log_sum (pin_delta p) (k_log s)) \<and>
    (\<forall>b. log_sum (buf_delta b) (k_log s') = log_sum (buf_delta b) (k_log s))"

lemma quiet_refl [simp]: "quiet s s"
  by (simp add: quiet_def)

lemma resources_balanced:
  assumes "resources_ok s" "resources_ok s'" "k_maps s' = k_maps s"
  shows "log_sum (pin_delta p) (k_log s') = log_sum (pin_delta p) (k_log s)"
    "log_sum (buf_delta b) (k_log s') = log_sum (buf_delta b) (k_log s)"
  using assms by (simp_all add: resources_ok_def accounted_def get_map_def)

lemma release_events_same: "same_resources md md' \<Longrightarrow> release_events n md' = release_events n md"
proof -
  assume "same_resources md md'"
  then have e: "map_data md' = map_data md" "map_release md' = map_release md" "map_pdev md' = map_pdev md"
    "map_n_addrs md' = map_n_addrs md" "map_addrs md' = map_addrs md" by (auto simp: same_resources_def)
  show ?thesis unfolding release_events_def e ..
qed

lemma unlink_all_fresh: "maps_wf s \<Longrightarrow> unlink_all (k_next_mid s) (k_files s) = k_files s"
proof (rule ext)
  fix f assume w: "maps_wf s"
  show "unlink_all (k_next_mid s) (k_files s) f = k_files s f"
    using maps_wf_fresh(3) [OF w] unlink_noop by (cases "k_files s f") (auto simp: unlink_all_def)
qed

lemma map_pattern_mstate:
  assumes "maps_wf s" "resources_ok s" "gup_ok e" "b \<in> builders" "map_pattern b l psz e c va n s = (Inr m, s1)"
  obtains md evs where "m = k_next_mid s" "s1 = mstate l m md evs (k_files s) (k_ctrls s) s"
    "\<And>md' fl cts. same_resources md md' \<Longrightarrow> unlink_all m fl = k_files s \<Longrightarrow> cts = k_ctrls s \<Longrightarrow>
       quiet s (unmap_and_release m (mstate l m md' evs fl cts s))"
    "\<exists>s3. b e m (with_map m (fresh_map e c va psz n) s) = (0, s3) \<and> get_map s3 m = md"
proof -
  obtain s3 md evs where m: "m = k_next_mid s" and b: "b e m (with_map m (fresh_map e c va psz n) s) = (0, s3)" "get_map s3 m = md"
    and s1: "s1 = insert_list l m (s\<lparr>k_next_mid := Suc m, k_maps := (k_maps s)(m \<mapsto> md), k_log := k_log s @ evs\<rparr>)"
    using map_pattern_ok [of b e, OF builders_touching [OF assms(4)] assms(5)] by metis
  have s1: "s1 = mstate l m md evs (k_files s) (k_ctrls s) s" unfolding s1 mstate_def by simp
  have r1: "resources_ok s1" "maps_wf s1"
    using resources_map_pattern [OF assms(2,1,3-5)] map_pattern_wf [of b e, OF builders_touching [OF assms(4)] assms(1,5)] by blast+
  have "k_maps s1 m \<noteq> None" by (simp add: s1)
  then have r2: "resources_ok (unmap_and_release m s1)" by (rule resources_unmap [OF r1])
  note um = mstate_unmap [OF assms(1) m]
  have "quiet s (unmap_and_release m (mstate l m md' evs fl cts s))"
    if sr: "same_resources md md'" and fl: "unlink_all m fl = k_files s" and cts: "cts = k_ctrls s" for md' fl cts
  proof -
    have e: "unmap_and_release m (mstate l m md' evs fl cts s) = unmap_and_release m s1"
      unfolding s1 um by (simp add: release_events_same [OF sr] fl cts unlink_all_fresh [OF assms(1), folded m])
    have "unmap_and_release m s1 = s\<lparr>k_next_mid := Suc m, k_log := k_log s @ evs @ release_events (length (k_ctrl_list s)) md\<rparr>"
      unfolding s1 um by (simp add: unlink_all_fresh [OF assms(1), folded m])
    then show ?thesis unfolding e quiet_def using resources_balanced [OF assms(2) r2] by simp
  qed
  with m s1 b show ?thesis using that by blast
qed

lemma map_pattern_quiet:
  "maps_wf s \<Longrightarrow> resources_ok s \<Longrightarrow> gup_ok e \<Longrightarrow> b \<in> builders \<Longrightarrow> map_pattern b l psz e c va n s = (Inl err, s') \<Longrightarrow> quiet s s'"
  unfolding quiet_def by (rule map_failure_pattern)

text \<open>Attaching in terms of the files alone: the error, the files with the link, the descriptor.\<close>

definition scoped_err :: "fid \<Rightarrow> nvm_ioctl_map \<Rightarrow> (fid \<rightharpoonup> snvm_dev_owner) \<Rightarrow> int" where
  "scoped_err f req fl =
     (if rq_map_kind req = NVM_MAP_KIND_DATA then (if fl f = None then - ENODEV else 0)
      else if rq_group_id req \<noteq> 0 then
        (if fl f = None then - ENODEV else if find_qgroup_locked (fl f) (rq_group_id req) = None then - ENOENT else 0)
      else 0)"

definition link_own :: "nvm_ioctl_map \<Rightarrow> mid \<Rightarrow> snvm_dev_owner \<Rightarrow> snvm_dev_owner" where
  "link_own req m own =
     (if rq_map_kind req = NVM_MAP_KIND_DATA
      then own\<lparr>own_data_maps := own_data_maps own @ [m], own_nr_data_maps := own_nr_data_maps own + 1\<rparr>
      else own\<lparr>own_groups := map (\<lambda>g. if g_group_id g = rq_group_id req
             then g\<lparr>g_maps := g_maps g @ [m], g_nr_maps := g_nr_maps g + 1\<rparr> else g) (own_groups own)\<rparr>)"

definition link_files :: "fid \<Rightarrow> nvm_ioctl_map \<Rightarrow> mid \<Rightarrow> (fid \<rightharpoonup> snvm_dev_owner) \<Rightarrow> (fid \<rightharpoonup> snvm_dev_owner)" where
  "link_files f req m fl =
     (if rq_map_kind req = NVM_MAP_KIND_DATA \<or> rq_group_id req \<noteq> 0 then fl(f \<mapsto> link_own req m (the (fl f))) else fl)"

definition link_md :: "nvm_ioctl_map \<Rightarrow> kmap \<Rightarrow> kmap" where
  "link_md req md = (if rq_map_kind req \<noteq> NVM_MAP_KIND_DATA \<and> rq_group_id req \<noteq> 0
     then md\<lparr>map_group_id := rq_group_id req\<rparr> else md)"

lemma attach_scoped_mstate:
  "attach_scoped f req m (mstate l m md evs fl cts s) =
     (if scoped_err f req fl \<noteq> 0 then (scoped_err f req fl, unmap_and_release m (mstate l m md evs fl cts s))
      else (0, mstate l m (link_md req md) evs (link_files f req m fl) cts s))"
  by (auto simp: attach_scoped_def scoped_err_def data_map_add_def group_map_add_def set_group_def link_files_def link_own_def
      link_md_def split: option.split)

definition counts_ok :: "snvm_dev_owner \<Rightarrow> bool" where
  "counts_ok own \<longleftrightarrow> own_nr_data_maps own \<noteq> -1 \<and> (\<forall>g \<in> set (own_groups own). g_nr_maps g \<noteq> -1)"

lemma map_if_id: "(\<And>g. g \<in> set gs \<Longrightarrow> P g \<Longrightarrow> h g = g) \<Longrightarrow> map (\<lambda>g. if P g then h g else g) gs = gs"
  by (induction gs) auto

text \<open>Taking back one unit of the counters and unlinking the map gives the file as it was.\<close>

definition uncount_own :: "nvm_ioctl_map \<Rightarrow> snvm_dev_owner \<Rightarrow> snvm_dev_owner" where
  "uncount_own req own =
     (if rq_map_kind req = NVM_MAP_KIND_DATA then own\<lparr>own_nr_data_maps := own_nr_data_maps own - 1\<rparr>
      else own\<lparr>own_groups := map (\<lambda>g. if g_group_id g = rq_group_id req
             then g\<lparr>g_nr_maps := g_nr_maps g - 1\<rparr> else g) (own_groups own)\<rparr>)"

lemma map_fixed: "map h xs = xs \<Longrightarrow> x \<in> set xs \<Longrightarrow> h x = x"
  by (induction xs) auto

lemma unlink_uncount_link:
  assumes "unlink_group_maps m own = own"
  shows "unlink_group_maps m (uncount_own req (link_own req m own)) = own"
proof -
  have d: "removeAll m (own_data_maps own) = own_data_maps own" and
    g: "map (\<lambda>g. g\<lparr>g_maps := removeAll m (g_maps g)\<rparr>) (own_groups own) = own_groups own"
    using arg_cong [OF assms, of own_data_maps] arg_cong [OF assms, of own_groups] by (simp_all add: unlink_group_maps_def)
  have g': "g\<lparr>g_maps := removeAll m (g_maps g)\<rparr> = g" if "g \<in> set (own_groups own)" for g
    by (rule map_fixed [OF g that])
  show ?thesis
  proof (cases "rq_map_kind req = NVM_MAP_KIND_DATA")
    case True
    then show ?thesis using d g by (simp add: unlink_group_maps_def uncount_own_def link_own_def)
  next
    case False
    have "map (\<lambda>g. g\<lparr>g_maps := removeAll m (g_maps g)\<rparr>)
       (map (\<lambda>g. if g_group_id g = rq_group_id req then g\<lparr>g_nr_maps := g_nr_maps g - 1\<rparr> else g)
         (map (\<lambda>g. if g_group_id g = rq_group_id req then g\<lparr>g_maps := g_maps g @ [m], g_nr_maps := g_nr_maps g + 1\<rparr> else g)
           (own_groups own))) = own_groups own"
      unfolding map_map by (rule map_idI) (use g' in \<open>auto simp: o_def\<close>)
    then show ?thesis using False d by (simp add: unlink_group_maps_def uncount_own_def link_own_def)
  qed
qed

lemma find_map_if:
  "List.find (\<lambda>g. g_group_id g = gid) (map (\<lambda>g. if g_group_id g = gid' then h g else g) gs) =
     map_option (\<lambda>g. if g_group_id g = gid' then h g else g) (List.find (\<lambda>g. g_group_id g = gid) gs)"
  if "\<And>g. g_group_id (h g) = g_group_id g"
  using that by (induction gs) auto

lemma find_link_own:
  "rq_map_kind req \<noteq> NVM_MAP_KIND_DATA \<Longrightarrow> find_qgroup_locked (Some (link_own req m own)) (rq_group_id req) =
     map_option (\<lambda>g. g\<lparr>g_maps := g_maps g @ [m], g_nr_maps := g_nr_maps g + 1\<rparr>) (find_qgroup_locked (Some own) (rq_group_id req))"
  by (auto simp: find_qgroup_locked_def link_own_def find_map_if option.map_comp find_Some_iff
      intro!: option.map_cong)

lemma detach_scoped_mstate:
  assumes "scoped_err f req fl = 0" "\<And>own. fl f = Some own \<Longrightarrow> counts_ok own" "unlink_all m fl = fl"
  obtains fl' where "detach_scoped f req (mstate l m md evs (link_files f req m fl) cts s) = mstate l m md evs fl' cts s"
    "unlink_all m fl' = fl"
proof (cases "rq_map_kind req = NVM_MAP_KIND_DATA \<or> rq_group_id req \<noteq> 0")
  case False
  then have "detach_scoped f req (mstate l m md evs (link_files f req m fl) cts s) = mstate l m md evs fl cts s"
    by (simp add: detach_scoped_def link_files_def split: option.split)
  then show ?thesis using that assms(3) by blast
next
  case True
  then obtain own where o: "fl f = Some own" using assms(1) by (auto simp: scoped_err_def split: if_splits)
  have u: "unlink_group_maps m own = own" using fun_cong [OF assms(3), of f] o by (simp add: unlink_all_def)
  have lf: "link_files f req m fl = fl(f \<mapsto> link_own req m own)" using True o by (simp add: link_files_def)
  let ?fl = "fl(f \<mapsto> uncount_own req (link_own req m own))"
  have "detach_scoped f req (mstate l m md evs (link_files f req m fl) cts s) = mstate l m md evs ?fl cts s"
  proof (cases "rq_map_kind req = NVM_MAP_KIND_DATA")
    case d: True
    have "own_nr_data_maps own + 1 \<noteq> 0" using assms(2) [OF o] by (metis counts_ok_def eq_neg_iff_add_eq_0)
    then have "own_nr_data_maps (link_own req m own) > 0" using d by (simp add: link_own_def word_gt_0)
    then show ?thesis using d by (simp add: lf detach_scoped_def uncount_own_def)
  next
    case d: False
    then have g: "rq_group_id req \<noteq> 0" using True by simp
    then have "find_qgroup_locked (Some own) (rq_group_id req) \<noteq> None" using assms(1) o d by (auto simp: scoped_err_def split: if_splits)
    then show ?thesis using d g by (auto simp: lf detach_scoped_def find_link_own set_group_def uncount_own_def)
  qed
  moreover have "unlink_all m ?fl = fl"
  proof
    fix f' show "unlink_all m ?fl f' = fl f'"
      using unlink_uncount_link [OF u] o fun_cong [OF assms(3), of f'] by (simp add: unlink_all_def)
  qed
  ultimately show ?thesis using that by blast
qed

definition ring_md :: "nvm_ioctl_map \<Rightarrow> kmap \<Rightarrow> kmap" where
  "ring_md req md = md\<lparr>map_ioq_idx := rq_ioq_idx req, map_is_cq := rq_is_cq req\<rparr>"

definition account_ctrl :: "bool \<Rightarrow> ctrl \<Rightarrow> ctrl" where
  "account_ctrl is_cq ct = ct\<lparr>ctrl_ioq_map_num := ctrl_ioq_map_num ct + 1,
     ctrl_cq_num := (if is_cq then ctrl_cq_num ct + 1 else ctrl_cq_num ct)\<rparr>"

lemma attach_legacy_mstate:
  "attach_legacy c req m (mstate l m md evs fl cts s) =
     (if ctrl_ioq_map_num (the (cts c)) + 1 > ctrl_ioq_num (the (cts c))
      then (- EFAULT, unmap_and_release m (mstate l m md evs fl cts s))
      else (0, mstate l m (ring_md req md) evs fl (cts(c \<mapsto> account_ctrl (rq_is_cq req \<noteq> 0) (the (cts c)))) s))"
  by (simp add: attach_legacy_def ioq_account_def ring_md_def account_ctrl_def)

lemma ioq_unaccount_mstate:
  "cts c = Some ct \<Longrightarrow> ioq_unaccount c q (mstate l m md evs fl (cts(c \<mapsto> account_ctrl q ct)) s) = mstate l m md evs fl cts s"
  by (simp add: ioq_unaccount_def account_ctrl_def fun_upd_idem)

lemma retag_same [simp]:
  "same_resources md (map_kind_update h md)" "same_resources md (link_md req (map_kind_update h md))"
  "same_resources md (ring_md req (map_kind_update h md))" "same_resources md (ring_md req md)" "same_resources md md"
  by (simp_all add: same_resources_def link_md_def ring_md_def)

text \<open>\<open>releasable s l m md evs\<close>: releasing the new descriptor, retagged or not, with its links and counters taken
  back, leaves the state as it was before.\<close>

definition releasable :: "kst \<Rightarrow> glist \<Rightarrow> mid \<Rightarrow> kmap \<Rightarrow> kevent list \<Rightarrow> bool" where
  "releasable s l m md evs \<longleftrightarrow> (\<forall>md' fl. same_resources md md' \<longrightarrow> unlink_all m fl = k_files s \<longrightarrow>
     quiet s (unmap_and_release m (mstate l m md' evs fl (k_ctrls s) s)))"

lemma scoped_quiet:
  assumes "maps_wf s" "m = k_next_mid s" "\<And>own. k_files s f = Some own \<Longrightarrow> counts_ok own"
    and rel: "releasable s l m md evs"
    and r: "(case attach_scoped f req m (mstate l m (map_kind_update h md) evs (k_files s) (k_ctrls s) s) of
               (rc, s3) \<Rightarrow>
                 if rc \<noteq> 0 then (rc, None, s3)
                 else if b then (0, Some (map_reply s3 m), s3)
                 else (- EFAULT, None, unmap_and_release m (detach_scoped f req s3))) = (rc, out, s')" "rc \<noteq> 0"
  shows "out = None \<and> quiet s s'"
proof -
  have u: "unlink_all m (k_files s) = k_files s" using unlink_all_fresh [OF assms(1)] assms(2) by simp
  note q = rel [unfolded releasable_def, rule_format]
  show ?thesis
  proof (cases "scoped_err f req (k_files s) = 0")
    case False
    then show ?thesis using r q [OF retag_same(1) u] by (auto simp: attach_scoped_mstate)
  next
    case True
    obtain fl' where d: "detach_scoped f req (mstate l m (link_md req (map_kind_update h md)) evs (link_files f req m (k_files s)) (k_ctrls s) s) =
        mstate l m (link_md req (map_kind_update h md)) evs fl' (k_ctrls s) s" "unlink_all m fl' = k_files s"
      using detach_scoped_mstate [OF True assms(3) u] by blast
    show ?thesis using r True q [OF retag_same(2) d(2)] d(1) by (auto simp: attach_scoped_mstate split: if_splits)
  qed
qed

lemma legacy_quiet:
  assumes "maps_wf s" "m = k_next_mid s" "k_ctrls s c = Some ct" "same_resources md (ring_md req md0)" "same_resources md md0"
    and rel: "releasable s l m md evs"
    and r: "(case attach_legacy c req m (mstate l m md0 evs (k_files s) (k_ctrls s) s) of
               (rc, s3) \<Rightarrow>
                 if rc \<noteq> 0 then (rc, None, s3)
                 else if b then (0, Some (map_reply s3 m), s3)
                 else (- EFAULT, None, unmap_and_release m (ioq_unaccount c (map_is_cq (get_map s3 m) \<noteq> 0) s3))) = (rc, out, s')" "rc \<noteq> 0"
  shows "out = None \<and> quiet s s'"
proof -
  have u: "unlink_all m (k_files s) = k_files s" using unlink_all_fresh [OF assms(1)] assms(2) by simp
  note q = rel [unfolded releasable_def, rule_format]
  have i: "map_is_cq (ring_md req md0) = rq_is_cq req" by (simp add: ring_md_def)
  show ?thesis
    using r q [OF assms(4) u] q [OF assms(5) u] assms(3)
    by (auto simp: attach_legacy_mstate i ioq_unaccount_mstate split: if_splits)
qed

lemma map_call_quiet:
  assumes "maps_wf s" "resources_ok s" "gup_ok e" "b \<in> builders"
    and call: "(case map_pattern b l psz e ct va n s of (Inl err, s1) \<Rightarrow> (err, None, s1) | (Inr m, s1) \<Rightarrow> K m s1) = (rc, out, s')"
    and K: "\<And>m md evs. m = k_next_mid s \<Longrightarrow> releasable s l m md evs \<Longrightarrow>
      K m (mstate l m md evs (k_files s) (k_ctrls s) s) = (rc, out, s') \<Longrightarrow> out = None \<and> quiet s s'"
  shows "out = None \<and> quiet s s'"
proof (cases "map_pattern b l psz e ct va n s")
  case (Pair r s1)
  show ?thesis
  proof (cases r)
    case (Inl err)
    then show ?thesis using map_pattern_quiet [OF assms(1-4) Pair [unfolded Inl]] call Pair by auto
  next
    case (Inr m)
    from map_pattern_mstate [OF assms(1-4) Pair [unfolded Inr]] obtain md evs where
      m: "m = k_next_mid s" "s1 = mstate l m md evs (k_files s) (k_ctrls s) s" and
      q: "\<And>md' fl cts. same_resources md md' \<Longrightarrow> unlink_all m fl = k_files s \<Longrightarrow> cts = k_ctrls s \<Longrightarrow>
          quiet s (unmap_and_release m (mstate l m md' evs fl cts s))" by metis
    have "releasable s l m md evs" using q by (simp add: releasable_def)
    then show ?thesis using K [OF m(1)] call Pair Inr m(2) by simp
  qed
qed

lemma nvm_map_host_memory_quiet:
  assumes "maps_wf s" "resources_ok s" "gup_ok e" "k_ctrls s c = Some ct" "\<And>own. k_files s f = Some own \<Longrightarrow> counts_ok own"
    "nvm_map_host_memory e c f req s = (rc, out, s')" "rc \<noteq> 0"
  shows "out = None \<and> quiet s s'"
proof (cases "copy_from_user_ok e \<and> \<not> map_request_bad req")
  case False then show ?thesis using assms(6) by (auto simp: nvm_map_host_memory_def split: if_splits)
next
  case True
  have b: "map_user_pages \<in> builders" by (simp add: builders_def)
  have t: "copy_from_user_ok e" "\<not> map_request_bad req" using True by auto
  note call = assms(6) [unfolded nvm_map_host_memory_def map_patterns, simplified t not_True_eq_False if_False]
  show ?thesis
  proof (rule map_call_quiet [OF assms(1-3) b call], goal_cases)
    case (1 m md evs)
    show ?case
    proof (cases "is_legacy req")
      case True
      note r = 1(3) [unfolded Let_def if_P [OF True] mstate_upd]
      show ?thesis by (rule legacy_quiet [OF assms(1) 1(1) assms(4) retag_same(3,1) 1(2) r assms(7)])
    next
      case False
      note r = 1(3) [unfolded Let_def if_not_P [OF False] mstate_upd]
      show ?thesis by (rule scoped_quiet [OF assms(1) 1(1) assms(5) 1(2) r assms(7)])
    qed
  qed
qed

lemma nvm_map_device_memory_quiet:
  assumes "maps_wf s" "resources_ok s" "gup_ok e" "\<And>own. k_files s f = Some own \<Longrightarrow> counts_ok own"
    "nvm_map_device_memory e c f req s = (rc, out, s')" "rc \<noteq> 0"
  shows "out = None \<and> quiet s s'"
proof (cases "copy_from_user_ok e \<and> \<not> map_request_bad req")
  case False then show ?thesis using assms(5) by (auto simp: nvm_map_device_memory_def split: if_splits)
next
  case True
  have b: "map_gpu_memory \<in> builders" by (simp add: builders_def)
  have t: "copy_from_user_ok e" "\<not> map_request_bad req" using True by auto
  note call = assms(5) [unfolded nvm_map_device_memory_def map_patterns, simplified t not_True_eq_False if_False]
  show ?thesis
  proof (rule map_call_quiet [OF assms(1-3) b call], goal_cases)
    case (1 m md evs)
    show ?case
      by (rule scoped_quiet [where b = "copy_to_user_ok e", OF assms(1) 1(1) assms(4) 1(2) _ assms(6)])
        (use 1(3) in \<open>simp_all add: Let_def\<close>)
  qed
qed

lemma nvm_map_device_queue_memory_quiet:
  assumes "maps_wf s" "resources_ok s" "gup_ok e" "k_ctrls s c = Some ct"
    "nvm_map_device_queue_memory e c f req s = (rc, out, s')" "rc \<noteq> 0"
  shows "out = None \<and> quiet s s'"
proof (cases "copy_from_user_ok e \<and> \<not> rq_ioq_idx req < 0")
  case False then show ?thesis using assms(5) by (auto simp: nvm_map_device_queue_memory_def split: if_splits)
next
  case True
  have b: "map_gpu_ioqueue_memory \<in> builders" by (simp add: builders_def)
  have t: "copy_from_user_ok e" "\<not> rq_ioq_idx req < 0" using True by auto
  note call = assms(5) [unfolded nvm_map_device_queue_memory_def map_patterns, simplified t not_True_eq_False if_False]
  show ?thesis
  proof (rule map_call_quiet [OF assms(1-3) b call], goal_cases)
    case (1 m md evs)
    show ?case
      by (rule legacy_quiet [where b = "copy_to_user_ok e", OF assms(1) 1(1) assms(4) retag_same(4,5) 1(2) _ assms(6)])
        (use 1(3) in simp)
  qed
qed

subsection \<open>Identification fields\<close>

text \<open>The builders leave alone the fields by which a descriptor is found and accounted for.\<close>

definition tag :: "kmap \<Rightarrow> task \<times> u64 \<times> int \<times> int \<times> u8 \<times> u32" where
  "tag md = (map_owner md, map_vaddr md, map_ioq_idx md, map_is_cq md, map_kind md, map_group_id md)"

lemma tag_simps [simp]:
  "tag (get_map (set_gpu_region m h s) m') = tag (get_map s m')"
  "tag (get_map (copy_dma_addresses m dm s) m') = tag (get_map s m')"
  "tag (md\<lparr>map_addrs := as\<rparr>) = tag md"
  "tag (map_n_addrs_update g md) = tag md"
  "tag (md\<lparr>map_page_size := z, map_data := d, map_release := r\<rparr>) = tag md"
  by (auto simp: tag_def set_gpu_region_def copy_dma_addresses_def split: option.splits map_data.splits)

lemma gpu_map_loop_tag:
  "gpu_map_loop e m pt cs j s = (err, s') \<Longrightarrow> tag (get_map s' m) = tag (get_map s m)"
proof (induction cs arbitrary: j s)
  case (Cons c cs)
  obtain er dm s1 where d: "nvfs_nvidia_p2p_dma_map_pages e (ctrl_pdev (the (k_ctrls s c))) pt s = (er, dm, s1)" by (metis prod_cases3)
  then have g: "get_map s1 = get_map s" using dma_map_pages_effect by fastforce
  show ?case using Cons.IH Cons.prems d g by (fastforce simp: Let_def split: if_splits)
qed simp

lemma map_user_pages_tag:
  assumes "map_user_pages e m s = (err, s')" shows "tag (get_map s' m) = tag (get_map s m)"
  using assms
proof (cases rule: map_user_pages_cases)
  case (2 retval pages)
  then show ?thesis using dma_map_loop_effect [OF 2(3)] by (auto simp: tag_def)
qed simp

lemma map_gpu_memory_tag:
  assumes "map_gpu_memory e m s = (err, s')" shows "tag (get_map s' m) = tag (get_map s m)"
proof (cases "kmalloc_ok e A_gpu_region \<and> kmalloc_ok e A_mappings")
  case True
  let ?s1 = "set_map m (\<lambda>md. md\<lparr>map_page_size := GPU_PAGE_SIZE, map_data := Some (GpuRegion \<lparr>gr_pages = None, gr_mappings = replicate max_num_ctrls None\<rparr>),
    map_release := Some Release_gpu_memory\<rparr>) s"
  obtain er pt s2 where g: "nvfs_nvidia_p2p_get_pages e (map_vaddr (get_map ?s1 m)) (GPU_PAGE_SIZE * of_nat (map_n_addrs (get_map ?s1 m))) ?s1 = (er, pt, s2)"
    by (metis prod_cases3)
  have s2: "get_map s2 = get_map ?s1" using get_pages_effect(1) [OF g] by simp
  let ?s3 = "set_gpu_region m (gr_pages_update (\<lambda>_. pt)) s2"
  obtain er2 s4 where l: "gpu_map_loop e m pt (k_ctrl_list ?s3) 0 ?s3 = (er2, s4)" by fastforce
  have "tag (get_map s4 m) = tag (get_map s m)" using gpu_map_loop_tag [OF l] s2 by simp
  then show ?thesis using assms True g l s2
    by (auto simp: map_gpu_memory_def Let_def split: if_splits)
qed (use assms in \<open>auto simp: map_gpu_memory_def split: if_splits\<close>)

lemma find_last: "\<forall>x \<in> set xs. \<not> P x \<Longrightarrow> P y \<Longrightarrow> List.find P (xs @ [y]) = Some y"
  by (induction xs) auto

lemma mstate_get_map: "m' \<noteq> m \<Longrightarrow> get_map (mstate l m md evs fl cts s) m' = get_map s m'"
  by (simp add: get_map_def)

lemma map_find_mstate:
  assumes "maps_wf s" "m = k_next_mid s" "\<forall>m \<in> set (get_list l s). \<not> map_matches e va (get_map s m)" "map_matches e va md"
  shows "map_find e l va (mstate l m md evs fl cts s) = Some m"
proof -
  have "m \<notin> set (get_list l s)" using maps_wf_list_live [OF assms(1)] maps_wf_fresh(1) [OF assms(1)] assms(2) by blast
  then have "\<forall>m' \<in> set (get_list l s). \<not> map_matches e va (get_map (mstate l m md evs fl cts s) m')"
    using assms(3) mstate_get_map by metis
  then show ?thesis using assms(4) by (simp add: map_find_def find_last)
qed

lemma unmap_counts_detach:
  assumes "scoped_err f req fl = 0" "\<And>own. fl f = Some own \<Longrightarrow> counts_ok own" "map_group_id md = 0" "map_kind md = rq_map_kind req"
  shows "unmap_counts f (link_md req md) (mstate l m md' evs (link_files f req m fl) cts s) =
    detach_scoped f req (mstate l m md' evs (link_files f req m fl) cts s)"
proof (cases "rq_map_kind req = NVM_MAP_KIND_DATA \<or> rq_group_id req = 0")
  case True
  then show ?thesis using assms(3,4) by (auto simp: unmap_counts_def detach_scoped_def link_md_def split: option.split)
next
  case False
  then obtain own g where o: "fl f = Some own" and g: "find_qgroup_locked (Some own) (rq_group_id req) = Some g"
    using assms(1) by (auto simp: scoped_err_def split: if_splits)
  have "g \<in> set (own_groups own)" using g by (auto simp: find_qgroup_locked_def find_Some_iff split: if_splits)
  then have "g_nr_maps g + 1 \<noteq> 0" using assms(2) [OF o] by (metis counts_ok_def eq_neg_iff_add_eq_0)
  then have "g_nr_maps g + 1 > 0" by (simp add: word_gt_0)
  then show ?thesis using False o g assms(4)
    by (simp add: unmap_counts_def detach_scoped_def link_md_def link_files_def find_link_own)
qed

lemma tag_matches:
  "tag md' = tag md \<Longrightarrow> map_matches e va md' = map_matches e va md"
  by (simp add: tag_def map_matches_def)

lemma host_map_mstate:
  assumes "maps_wf s" "resources_ok s" "gup_ok e" "nvm_map_host_memory e c f req s = (0, out, s1)"
  obtains m md evs where "m = k_next_mid s" "releasable s HostList m md evs"
    "tag md = tag (fresh_map e (get_ctrl s c) (rq_vaddr_start req) PAGE_SIZE (rq_n_pages req))"
    "if is_legacy req then
       s1 = mstate HostList m (ring_md req (md\<lparr>map_kind := rq_map_kind req\<rparr>)) evs (k_files s)
         ((k_ctrls s)(c \<mapsto> account_ctrl (rq_is_cq req \<noteq> 0) (the (k_ctrls s c)))) s
     else scoped_err f req (k_files s) = 0 \<and>
       s1 = mstate HostList m (link_md req (md\<lparr>map_kind := rq_map_kind req\<rparr>)) evs (link_files f req m (k_files s)) (k_ctrls s) s"
    "out = Some (map_reply s1 m)" "copy_from_user_ok e"
proof -
  have t: "copy_from_user_ok e" "\<not> map_request_bad req" using assms(4) by (auto simp: nvm_map_host_memory_def split: if_splits)
  note call = assms(4) [unfolded nvm_map_host_memory_def map_patterns, simplified t not_True_eq_False if_False]
  have b: "map_user_pages \<in> builders" by (simp add: builders_def)
  obtain r s0 where p: "map_pattern map_user_pages HostList PAGE_SIZE e (get_ctrl s c) (rq_vaddr_start req) (rq_n_pages req) s = (r, s0)"
    by fastforce
  show ?thesis
  proof (cases r)
    case (Inl err)
    have "err \<noteq> 0" using p unfolding Inl map_pattern_unfold by (auto simp: Let_def split: if_splits prod.splits)
    then show ?thesis using call p Inl by simp
  next
    case (Inr m)
    from map_pattern_mstate [OF assms(1-3) b p [unfolded Inr]] obtain md evs s3 where
      m: "m = k_next_mid s" "s0 = mstate HostList m md evs (k_files s) (k_ctrls s) s" and
      q: "\<And>md' fl cts. same_resources md md' \<Longrightarrow> unlink_all m fl = k_files s \<Longrightarrow> cts = k_ctrls s \<Longrightarrow>
          quiet s (unmap_and_release m (mstate HostList m md' evs fl cts s))"
      and b: "map_user_pages e m (with_map m (fresh_map e (get_ctrl s c) (rq_vaddr_start req) PAGE_SIZE (rq_n_pages req)) s) = (0, s3)" "get_map s3 m = md"
      by metis
    have "tag md = tag (fresh_map e (get_ctrl s c) (rq_vaddr_start req) PAGE_SIZE (rq_n_pages req))"
      using map_user_pages_tag [OF b(1)] b(2) by (simp add: with_map_def get_map_def)
    moreover have "releasable s HostList m md evs" using q by (simp add: releasable_def)
    ultimately show ?thesis using that [OF m(1)] call p Inr m(2) t(1)
      by (auto simp: attach_legacy_mstate attach_scoped_mstate Let_def split: if_splits)
  qed
qed

subsection \<open>Properties\<close>

text \<open>C11. A mapping request that fails, whether its arguments are refused, pinning or mapping fails, its
  group does not exist, the queue budget is used up or the addresses cannot be copied back,
  returns no addresses and changes nothing: descriptors, global lists, files (links and counters)
  and controllers are as before, and every page pinned and every dma-buf reference taken on the
  way has been given back.\<close>

theorem nvm_map_failure_changes_nothing:
  assumes "maps_wf s" "resources_ok s" "gup_ok e" "k_ctrls s c = Some ct" "\<forall>own. k_files s f = Some own \<longrightarrow> counts_ok own"
    "h \<in> {nvm_map_host_memory, nvm_map_device_memory, nvm_map_device_queue_memory}"
    "h e c f req s = (rc, out, s')" "rc \<noteq> 0"
  shows "out = None \<and> quiet s s'"
proof -
  have c: "\<And>own. k_files s f = Some own \<Longrightarrow> counts_ok own" using assms(5) by blast
  show ?thesis
    using assms(6,7) nvm_map_host_memory_quiet [OF assms(1-4) c _ assms(8)] nvm_map_device_memory_quiet [OF assms(1-3) c _ assms(8)]
      nvm_map_device_queue_memory_quiet [OF assms(1-4) _ assms(8)] by blast
qed
lemma map_ex_rc:
  "fst (nvm_map_host_memory env_ex 0 0 \<lparr>rq_vaddr_start = 0x1234, rq_n_pages = 1, rq_ioq_idx = -1, rq_is_cq = -1, rq_group_id = 5,
     rq_map_kind = 1, rq_reserved0 = [0, 0, 0]\<rparr> kst_ex) = - ENODEV"
  by code_simp

theorem nvm_map_failure_changes_nothing_witness:
  "\<exists>s'. nvm_map_host_memory env_ex 0 0 \<lparr>rq_vaddr_start = 0x1234, rq_n_pages = 1, rq_ioq_idx = -1, rq_is_cq = -1, rq_group_id = 5,
     rq_map_kind = 1, rq_reserved0 = [0, 0, 0]\<rparr> kst_ex = (- ENODEV, None, s') \<and> quiet kst_ex s'"
proof -
  let ?req = "\<lparr>rq_vaddr_start = 0x1234, rq_n_pages = 1, rq_ioq_idx = -1, rq_is_cq = -1, rq_group_id = 5,
     rq_map_kind = 1, rq_reserved0 = [0, 0, 0]\<rparr>"
  obtain out s' where r: "nvm_map_host_memory env_ex 0 0 ?req kst_ex = (- ENODEV, out, s')" using map_ex_rc by (metis prod.collapse)
  have c: "k_ctrls kst_ex 0 = Some ctrl_ex" "\<forall>own. k_files kst_ex 0 = Some own \<longrightarrow> counts_ok own"
    by (simp_all add: kst_ex_def kst_init_def)
  show ?thesis
    using nvm_map_failure_changes_nothing [where h = nvm_map_host_memory and req = ?req,
      OF kst_ex_maps_wf kst_ex_resources gup_ok_ex c _ r] r by simp
qed

text \<open>C12. Mapping host memory and unmapping it again through the same file is neutral, in all three modes
  (data buffer of the file, ring of a group, ring counted against the legacy budget): the unmap
  finds the descriptor by the address that was mapped, provided no earlier live descriptor of the
  task answers to that address, and afterwards descriptors, lists, links, counters and the balance
  of pinned pages are what they were before the map.\<close>

theorem nvm_map_unmap_host_roundtrip:
  assumes "maps_wf s" "resources_ok s" "gup_ok e" "k_ctrls s c = Some ct" "\<forall>own. k_files s f = Some own \<longrightarrow> counts_ok own"
    "nvm_map_host_memory e c f req s = (0, out, s1)"
    "\<forall>m \<in> set (k_host_list s). \<not> map_matches e (rq_vaddr_start req) (get_map s m)"
  shows "\<exists>s2. nvm_unmap_host_memory e c f (rq_vaddr_start req) s1 = (0, s2) \<and> quiet s s2"
proof -
  obtain m md evs where m: "m = k_next_mid s" and rel: "releasable s HostList m md evs"
    and tg: "tag md = tag (fresh_map e (get_ctrl s c) (rq_vaddr_start req) PAGE_SIZE (rq_n_pages req))"
    and s1: "if is_legacy req then
       s1 = mstate HostList m (ring_md req (md\<lparr>map_kind := rq_map_kind req\<rparr>)) evs (k_files s)
         ((k_ctrls s)(c \<mapsto> account_ctrl (rq_is_cq req \<noteq> 0) (the (k_ctrls s c)))) s
     else scoped_err f req (k_files s) = 0 \<and>
       s1 = mstate HostList m (link_md req (md\<lparr>map_kind := rq_map_kind req\<rparr>)) evs (link_files f req m (k_files s)) (k_ctrls s) s"
    and cp: "copy_from_user_ok e"
    by (rule host_map_mstate [OF assms(1-3,6)])
  note q = rel [unfolded releasable_def, rule_format]
  let ?md = "md\<lparr>map_kind := rq_map_kind req\<rparr>"
  have u: "unlink_all m (k_files s) = k_files s" using unlink_all_fresh [OF assms(1)] m by simp
  have f0: "map_owner md = current e" "map_vaddr md = rq_vaddr_start req AND page_mask PAGE_SIZE" "map_ioq_idx md = -1"
    "map_group_id md = 0" using tg by (simp_all add: tag_def fresh_map_def)
  have mt: "map_matches e (rq_vaddr_start req) (ring_md req ?md)" "map_matches e (rq_vaddr_start req) (link_md req ?md)"
    using f0 by (simp_all add: map_matches_def ring_md_def link_md_def)
  have nm: "\<forall>m \<in> set (get_list HostList s). \<not> map_matches e (rq_vaddr_start req) (get_map s m)" using assms(7) by simp
  note fnd = map_find_mstate [OF assms(1) m nm mt(1)] map_find_mstate [OF assms(1) m nm mt(2)]
  show ?thesis
  proof (cases "is_legacy req")
    case True
    then have k: "rq_map_kind req \<noteq> NVM_MAP_KIND_DATA" "rq_ioq_idx req \<ge> 0" by (auto simp: is_legacy_def)
    have i: "map_is_cq (ring_md req ?md) = rq_is_cq req" "map_ioq_idx (ring_md req ?md) = rq_ioq_idx req"
      "map_kind (ring_md req ?md) = rq_map_kind req" "map_group_id (ring_md req ?md) = 0" using f0 by (simp_all add: ring_md_def)
    have "nvm_unmap_host_memory e c f (rq_vaddr_start req) s1 =
        (0, unmap_and_release m (mstate HostList m (ring_md req ?md) evs (k_files s) (k_ctrls s) s))"
      using True s1 cp assms(4) k
      by (simp add: nvm_unmap_host_memory_def fnd Let_def i ioq_unaccount_mstate unmap_counts_def split: option.split)
    then show ?thesis using q [OF retag_same(3) u] by blast
  next
    case False
    then have se: "scoped_err f req (k_files s) = 0" using s1 by simp
    have cok: "\<And>own. k_files s f = Some own \<Longrightarrow> counts_ok own" using assms(5) by blast
    obtain fl' where d: "detach_scoped f req (mstate HostList m (link_md req ?md) evs (link_files f req m (k_files s)) (k_ctrls s) s) =
        mstate HostList m (link_md req ?md) evs fl' (k_ctrls s) s" "unlink_all m fl' = k_files s"
      using detach_scoped_mstate [OF se cok u] by blast
    have "map_ioq_idx (link_md req ?md) = -1" using f0 by (simp add: link_md_def)
    then have "nvm_unmap_host_memory e c f (rq_vaddr_start req) s1 =
        (0, unmap_and_release m (mstate HostList m (link_md req ?md) evs fl' (k_ctrls s) s))"
      using False s1 cp unmap_counts_detach [OF se cok, of ?md] f0(4) d(1)
      by (simp add: nvm_unmap_host_memory_def fnd Let_def)
    then show ?thesis using q [OF retag_same(2) d(2)] by blast
  qed
qed

definition data_req_ex :: nvm_ioctl_map where
  "data_req_ex = \<lparr>rq_vaddr_start = 0x9000, rq_n_pages = 2, rq_ioq_idx = -1, rq_is_cq = -1, rq_group_id = 0,
     rq_map_kind = 3, rq_reserved0 = [0, 0, 0]\<rparr>"

definition kst_ex_file :: kst where
  "kst_ex_file = kst_ex\<lparr>k_files := [0 \<mapsto> own_ex\<lparr>own_groups := [], own_nr_groups := 0\<rparr>]\<rparr>"

lemma kst_ex_file_facts:
  "maps_wf kst_ex_file" "resources_ok kst_ex_file" "k_ctrls kst_ex_file 0 = Some ctrl_ex"
  "\<forall>own. k_files kst_ex_file 0 = Some own \<longrightarrow> counts_ok own" "k_host_list kst_ex_file = []"
  by (auto simp: kst_ex_file_def kst_ex_def kst_init_def maps_wf_def all_lists_def linked_maps_def own_ex_def resources_ok_def
      accounted_def counts_ok_def)

lemma data_map_ex_rc: "fst (nvm_map_host_memory env_ex 0 0 data_req_ex kst_ex_file) = 0"
  by code_simp

theorem nvm_map_unmap_host_roundtrip_witness:
  "\<exists>out s1 s2. nvm_map_host_memory env_ex 0 0 data_req_ex kst_ex_file = (0, out, s1) \<and>
     nvm_unmap_host_memory env_ex 0 0 0x9000 s1 = (0, s2) \<and> quiet kst_ex_file s2"
proof -
  obtain out s1 where r: "nvm_map_host_memory env_ex 0 0 data_req_ex kst_ex_file = (0, out, s1)"
    using data_map_ex_rc by (metis prod.collapse)
  have "rq_vaddr_start data_req_ex = 0x9000" by (simp add: data_req_ex_def)
  then show ?thesis
    using nvm_map_unmap_host_roundtrip [OF kst_ex_file_facts(1,2) gup_ok_ex kst_ex_file_facts(3,4) r] kst_ex_file_facts(5) r by auto
qed

end
