(* ===== verification/Setup_Ioctl.thy ===== *)
theory Setup_Ioctl
  imports Map_Ioctl
begin

text \<open>
  The data-plane requests for a controller's set-up of \<open>snvm_dev_map_ioctl\<close> (\<open>pci.c\<close>):
  \<open>NVM_SET_IOQ_NUM\<close>, \<open>NVM_SET_SHARE_REG\<close>, \<open>NVM_GET_DEV_INFO\<close>, \<open>NVM_CLEAR_IOQ_NUM\<close> and
  \<open>NVM_SET_KERNEL_IOQ_CAP\<close>.
\<close>

unbundle bit_operations_syntax

subsection \<open>Set-up requests\<close>

record nvm_ioctl_setup =
  st_ioq_num :: u32
  st_flags :: u32
  st_cap_kernel_ioq :: u32
  st_nr_write :: u32
  st_nr_poll :: u32
  st_nr_groups :: u32
  st_reserved :: "u32 list"
  st_groups :: "snvm_queue_group list"

definition setup_request_bad :: "nvm_ioctl_setup \<Rightarrow> ctrl \<Rightarrow> bool" where
  "setup_request_bad st ct \<longleftrightarrow> st_ioq_num st = 0 \<or>
     ctrl_ioq_num ct \<noteq> 0 \<and> st_ioq_num st > ctrl_ioq_num ct \<or>
     (\<exists>r \<in> set (st_reserved st). r \<noteq> 0) \<or>
     st_nr_groups st > of_nat SNVM_MAX_QUEUE_GROUPS \<or>
     st_nr_groups st \<noteq> 0 \<and>
       ((\<exists>g \<in> set (take (unat (st_nr_groups st)) (st_groups st)). sg_reserved g \<noteq> 0) \<or>
        sum_list (map sg_count (take (unat (st_nr_groups st)) (st_groups st))) \<noteq> st_ioq_num st)"

definition commit_setup :: "nvm_ioctl_setup \<Rightarrow> ctrl \<Rightarrow> ctrl" where
  "commit_setup st ct = ct\<lparr>ctrl_ioq_num := st_ioq_num st,
     ctrl_on_host := (if st_flags st AND 1 \<noteq> 0 then 1 else 0),
     ctrl_setup := \<lparr>su_valid = 1, su_ioq_num = st_ioq_num st, su_flags = st_flags st,
       su_cap_kernel_ioq = st_cap_kernel_ioq st, su_nr_write = st_nr_write st, su_nr_poll = st_nr_poll st,
       su_nr_groups = st_nr_groups st,
       su_groups = map (sg_reserved_update (\<lambda>_. 0)) (take (unat (st_nr_groups st)) (st_groups st)) @
         drop (unat (st_nr_groups st)) (su_groups (ctrl_setup ct))\<rparr>\<rparr>"

definition nvm_set_ioq_num :: "kenv \<Rightarrow> cid \<Rightarrow> nvm_ioctl_setup \<Rightarrow> kst \<Rightarrow> int \<times> kst" where
  "nvm_set_ioq_num e c st s =
     (if \<not> copy_from_user_ok e then (- EFAULT, s)
      else if setup_request_bad st (get_ctrl s c) then (- EINVAL, s)
      else (0, set_ctrl c (commit_setup st) s))"

definition nvm_set_share_reg :: "kenv \<Rightarrow> cid \<Rightarrow> nvm_ioctl_map \<Rightarrow> kst \<Rightarrow> int \<times> kst" where
  "nvm_set_share_reg e c req s =
     (if \<not> copy_from_user_ok e then (- EFAULT, s)
      else (0, set_ctrl c (ctrl_use_sreg_update (\<lambda>_. of_int (rq_ioq_idx req))) s))"

definition nvm_clear_ioq_num :: "cid \<Rightarrow> kst \<Rightarrow> int \<times> kst" where
  "nvm_clear_ioq_num c s = (0, set_ctrl c (\<lambda>ct. ct\<lparr>ctrl_ioq_map_num := 0, ctrl_cq_num := 0\<rparr>) s)"

definition nvm_set_kernel_ioq_cap :: "kenv \<Rightarrow> cid \<Rightarrow> u32 \<Rightarrow> kst \<Rightarrow> int \<times> kst" where
  "nvm_set_kernel_ioq_cap e c cap s =
     (if \<not> copy_from_user_ok e then (- EFAULT, s)
      else (0, set_ctrl c (\<lambda>ct. ct\<lparr>ctrl_setup := (ctrl_setup ct)\<lparr>su_cap_kernel_ioq := cap, su_valid := 1\<rparr>\<rparr>) s))"

text \<open>\<open>NVM_GET_DEV_INFO\<close> looks for namespace 1. \<open>find_ns k\<close> is what the \<open>k\<close>-th look-up finds: the disk name and the
  block shift; the scan of the namespaces runs concurrently, so that later look-ups may find
  what earlier ones did not.\<close>

record nvme_ns =
  ns_disk_name :: string
  ns_lba_shift :: nat

record nvm_ioctl_dev =
  dv_nr_user_q :: u32
  dv_start_cq_idx :: u32
  dv_dstrd :: u8
  dv_max_data_size :: u64
  dv_block_size :: u64
  dv_disk_name :: string
  dv_q_depth :: u16
  dv_bar0_size :: u32
  dv_max_user_qid :: u32
  dv_max_queues_per_group :: u32
  dv_sgl_supported :: u32

function ns_wait :: "(nat \<Rightarrow> nvme_ns option) \<Rightarrow> nat \<Rightarrow> nat \<Rightarrow> nvme_ns option" where
  "ns_wait find_ns k wait_ms =
     (case find_ns k of
        Some ns \<Rightarrow> Some ns
      | None \<Rightarrow> if wait_ms < 5000 then ns_wait find_ns (Suc k) (wait_ms + 50) else None)"
  by pat_completeness auto
termination by (relation "measure (\<lambda>(_, _, w). 5000 - w)") auto

declare ns_wait.simps [simp del]

definition snvme_find_ns_wait :: "(nat \<Rightarrow> nvme_ns option) \<Rightarrow> nvme_ns option" where
  "snvme_find_ns_wait find_ns = (case find_ns 0 of Some ns \<Rightarrow> Some ns | None \<Rightarrow> ns_wait find_ns 1 0)"

definition dev_info :: "nvme_dev \<Rightarrow> nvme_ns \<Rightarrow> u64 \<Rightarrow> nvm_ioctl_dev" where
  "dev_info nd ns bar0_len =
     \<lparr>dv_nr_user_q = nd_nr_user_use_cq nd,
      dv_start_cq_idx = (if nd_user_start_qid nd \<noteq> 0 then nd_user_start_qid nd else nd_online_queues nd),
      dv_dstrd = ucast (nd_db_stride nd),
      dv_max_data_size = push_bit 9 (ucast (nd_max_hw_sectors nd)),
      dv_block_size = scast (push_bit (ns_lba_shift ns) (1 :: u32)),
      dv_disk_name = ns_disk_name ns,
      dv_q_depth = ucast (nd_q_depth nd),
      dv_bar0_size = ucast bar0_len,
      dv_max_user_qid = nd_ctrl_max_io_queues nd,
      dv_max_queues_per_group = of_nat NVM_MAX_QUEUES_PER_GROUP,
      dv_sgl_supported = nd_sgls nd\<rparr>"

definition nvm_get_dev_info ::
  "kenv \<Rightarrow> (nat \<Rightarrow> nvme_ns option) \<Rightarrow> cid \<Rightarrow> kst \<Rightarrow> int \<times> nvm_ioctl_dev option" where
  "nvm_get_dev_info e find_ns c s =
     (let pd = the (k_pci s (ctrl_pdev (get_ctrl s c))) in
      case pci_drvdata pd of None \<Rightarrow> (- EFAULT, None)
      | Some nd \<Rightarrow>
          (case snvme_find_ns_wait find_ns of
             None \<Rightarrow> (- EFAULT, None)
           | Some ns \<Rightarrow>
               if copy_to_user_ok e then (0, Some (dev_info nd ns (pci_bar0_len pd))) else (- EFAULT, None)))"

subsection \<open>Properties\<close>

lemma unat_sum_list: "unat (sum_list (ws :: u32 list)) = sum_list (map unat ws) mod 2 ^ 32"
  by (induction ws) (simp_all add: unat_word_ariths mod_simps)

definition setup_wrap_ex :: nvm_ioctl_setup where
  "setup_wrap_ex = \<lparr>st_ioq_num = 1, st_flags = 0, st_cap_kernel_ioq = 0, st_nr_write = 0, st_nr_poll = 0, st_nr_groups = 2,
     st_reserved = [0, 0], st_groups = \<lparr>sg_owner_id = 0, sg_count = 0x80000000, sg_numa_node = -1, sg_reserved = 0\<rparr> #
       \<lparr>sg_owner_id = 1, sg_count = 0x80000001, sg_numa_node = -1, sg_reserved = 0\<rparr> #
       replicate 6 \<lparr>sg_owner_id = 0, sg_count = 0, sg_numa_node = 0, sg_reserved = 0\<rparr>\<rparr>"

text \<open>C25. \<open>NVM_SET_IOQ_NUM\<close> either refuses the request and changes nothing, or records a positive budget that
  does not exceed one already declared, and, when the request partitions the budget into groups
  whose counts do not overflow 32 bits, one that the counts of the groups add up to. (The sum is
  taken in 32 bits: the partition of \<open>setup_wrap_ex\<close> into two groups of 2147483648 and 2147483649
  queues is accepted for a budget of 1.)\<close>

theorem nvm_set_ioq_num_budget:
  assumes "nvm_set_ioq_num e c st s = (rc, s')"
  shows "if rc = 0 then
      (let ct = get_ctrl s c; ct' = get_ctrl s' c; counts = map sg_count (take (unat (st_nr_groups st)) (st_groups st)) in
       ctrl_ioq_num ct' = st_ioq_num st \<and> 0 < ctrl_ioq_num ct' \<and> (ctrl_ioq_num ct \<noteq> 0 \<longrightarrow> ctrl_ioq_num ct' \<le> ctrl_ioq_num ct) \<and>
       (st_nr_groups st \<noteq> 0 \<longrightarrow> sum_list (map unat counts) < 2 ^ 32 \<longrightarrow> sum_list (map unat counts) = unat (ctrl_ioq_num ct')) \<and>
       ctrl_pool ct' = ctrl_pool ct \<and> ctrl_ioq_map_num ct' = ctrl_ioq_map_num ct)
    else s' = s"
proof (cases "copy_from_user_ok e \<and> \<not> setup_request_bad st (get_ctrl s c)")
  case True
  then have s': "rc = 0" "s' = set_ctrl c (commit_setup st) s" using assms by (auto simp: nvm_set_ioq_num_def)
  let ?cs = "map sg_count (take (unat (st_nr_groups st)) (st_groups st))"
  have b: "st_ioq_num st \<noteq> 0" "ctrl_ioq_num (get_ctrl s c) \<noteq> 0 \<longrightarrow> \<not> st_ioq_num st > ctrl_ioq_num (get_ctrl s c)"
    "st_nr_groups st \<noteq> 0 \<longrightarrow> sum_list ?cs = st_ioq_num st"
    using True by (auto simp: setup_request_bad_def)
  have "st_nr_groups st \<noteq> 0 \<longrightarrow> sum_list (map unat ?cs) < 2 ^ 32 \<longrightarrow> sum_list (map unat ?cs) = unat (st_ioq_num st)"
    using unat_sum_list [of ?cs] b(3) by (metis mod_less)
  then show ?thesis using b(1,2) by (simp add: s' Let_def commit_setup_def word_gt_0 not_less)
qed (use assms in \<open>auto simp: nvm_set_ioq_num_def split: if_splits\<close>)

lemma setup_wrap_ex_ok: "fst (nvm_set_ioq_num env_ex 0 setup_wrap_ex kst_ex) = 0"
  by code_simp

theorem nvm_set_ioq_num_budget_witness:
  "\<exists>s'. nvm_set_ioq_num env_ex 0 setup_wrap_ex kst_ex = (0, s') \<and> ctrl_ioq_num (get_ctrl s' 0) = 1"
proof -
  obtain s' where r: "nvm_set_ioq_num env_ex 0 setup_wrap_ex kst_ex = (0, s')" using setup_wrap_ex_ok by (metis prod.collapse)
  then show ?thesis using nvm_set_ioq_num_budget [OF r] by (simp add: Let_def) (simp add: setup_wrap_ex_def)
qed

lemma ns_wait_iff:
  "j \<le> 100 \<Longrightarrow> ns_wait f k (50 * j) \<noteq> None \<longleftrightarrow> (\<exists>i. k \<le> i \<and> i + j \<le> k + 100 \<and> f i \<noteq> None)"
proof (induction "100 - j" arbitrary: j k)
  case 0
  then have "j = 100" by simp
  then show ?case by (subst ns_wait.simps) (auto split: option.split)
next
  case (Suc n)
  show ?case
  proof (cases "f k")
    case (Some ns) then show ?thesis using Suc.prems by (subst ns_wait.simps) auto
  next
    case None
    have j: "j < 100" using Suc.hyps(2) by linarith
    have "ns_wait f k (50 * j) = ns_wait f (Suc k) (50 * Suc j)"
      using None j by (subst ns_wait.simps) (simp add: algebra_simps)
    also have "\<dots> \<noteq> None \<longleftrightarrow> (\<exists>i. Suc k \<le> i \<and> i + Suc j \<le> Suc k + 100 \<and> f i \<noteq> None)"
      using Suc.hyps(1) [of "Suc j" "Suc k"] Suc.hyps(2) j by simp
    also have "\<dots> \<longleftrightarrow> (\<exists>i. k \<le> i \<and> i + j \<le> k + 100 \<and> f i \<noteq> None)"
    proof -
      have "(Suc k \<le> i \<and> i + Suc j \<le> Suc k + 100 \<and> f i \<noteq> None) = (k \<le> i \<and> i + j \<le> k + 100 \<and> f i \<noteq> None)" for i
        using None by (cases "i = k") auto
      then show ?thesis by simp
    qed
    finally show ?thesis .
  qed
qed

lemma find_ns_wait_iff: "snvme_find_ns_wait f \<noteq> None \<longleftrightarrow> (\<exists>i \<le> 101. f i \<noteq> None)"
proof (cases "f 0")
  case None
  have "snvme_find_ns_wait f \<noteq> None \<longleftrightarrow> ns_wait f 1 (50 * 0) \<noteq> None" by (simp add: snvme_find_ns_wait_def None)
  also have "\<dots> \<longleftrightarrow> (\<exists>i. 1 \<le> i \<and> i + 0 \<le> 1 + 100 \<and> f i \<noteq> None)" by (rule ns_wait_iff) simp
  also have "\<dots> \<longleftrightarrow> (\<exists>i \<le> 101. f i \<noteq> None)"
  proof -
    have "(1 \<le> i \<and> i + 0 \<le> 1 + 100 \<and> f i \<noteq> None) = (i \<le> 101 \<and> f i \<noteq> None)" for i
      using None by (cases i) auto
    then show ?thesis by simp
  qed
  finally show ?thesis .
qed (auto simp: snvme_find_ns_wait_def)

text \<open>C24. \<open>NVM_GET_DEV_INFO\<close> waits for the namespace scan for a bounded time: on a bound device it succeeds
  exactly when one of its at most 102 look-ups (the last after 100 pauses of 50 ms) finds the
  namespace. The range of QIDs it announces, from \<open>start_cq_idx\<close> to \<open>max_user_qid\<close>, is the range the
  pool of user QIDs has when it is first set up, unless the legacy path has moved \<open>user_start_qid\<close>.\<close>

theorem nvm_get_dev_info_reports_pool:
  assumes "k_pci s (ctrl_pdev (get_ctrl s c)) = Some pd" "pci_drvdata pd = Some nd" "copy_to_user_ok e"
  shows "(fst (nvm_get_dev_info e find_ns c s) = 0 \<longleftrightarrow> (\<exists>k \<le> 101. find_ns k \<noteq> None)) \<and>
    (\<forall>info p p'. snd (nvm_get_dev_info e find_ns c s) = Some info \<longrightarrow> nd_user_start_qid nd = 0 \<longrightarrow>
      user_qid_bitmap p = None \<longrightarrow> snvm_user_qid_pool_init_locked e p (Some nd) = (0, p') \<longrightarrow>
      pool_range p' = {q. dv_start_cq_idx info \<le> ucast q \<and> ucast q \<le> dv_max_user_qid info})"
proof -
  have 1: "fst (nvm_get_dev_info e find_ns c s) = 0 \<longleftrightarrow> snvme_find_ns_wait find_ns \<noteq> None"
    using assms by (auto simp: nvm_get_dev_info_def split: option.split)
  have "pool_range p' = {q. dv_start_cq_idx info \<le> ucast q \<and> ucast q \<le> dv_max_user_qid info}"
    if i: "snd (nvm_get_dev_info e find_ns c s) = Some info" "nd_user_start_qid nd = 0"
      "user_qid_bitmap p = None" "snvm_user_qid_pool_init_locked e p (Some nd) = (0, p')" for info p p'
  proof -
    have "p' = fresh_pool nd" using pool_init_fresh [OF i(3), of e nd] i(4) by (auto split: if_splits)
    moreover have "dv_start_cq_idx info = nd_online_queues nd" "dv_max_user_qid info = nd_ctrl_max_io_queues nd"
      using i(1,2) assms by (auto simp: nvm_get_dev_info_def dev_info_def split: option.splits)
    ultimately show ?thesis by simp
  qed
  then show ?thesis using 1 find_ns_wait_iff by blast
qed

theorem nvm_get_dev_info_reports_pool_witness:
  "fst (nvm_get_dev_info env_ex (\<lambda>k. if k < 3 then None else Some \<lparr>ns_disk_name = ''snvme0n1'', ns_lba_shift = 9\<rparr>) 0 kst_ex) = 0"
proof -
  have "k_pci kst_ex (ctrl_pdev (get_ctrl kst_ex 0)) = Some pci_ex" "pci_drvdata pci_ex = Some nd_ex" "copy_to_user_ok env_ex"
    by (simp_all add: kst_ex_def get_ctrl_def ctrl_ex_def pci_ex_def env_ex_def)
  from nvm_get_dev_info_reports_pool [OF this, of "\<lambda>k. if k < 3 then None else Some \<lparr>ns_disk_name = ''snvme0n1'', ns_lba_shift = 9\<rparr>"]
  show ?thesis by (auto intro: exI [of _ 3])
qed

text \<open>C28. \<open>NVM_CLEAR_IOQ_NUM\<close> forgets rings that are still mapped: unmapping one of them afterwards wraps the
  counter to 4294967295, and the next legacy mapping passes the budget check whatever the budget.\<close>

theorem nvm_clear_ioq_num_underflow:
  assumes "map_find e HostList addr s = Some m" "map_ioq_idx (get_map s m) \<ge> 0" "copy_from_user_ok e"
  shows "let s2 = snd (nvm_unmap_host_memory e c f addr (snd (nvm_clear_ioq_num c s))) in
    ctrl_ioq_map_num (get_ctrl s2 c) = 0xffffffff \<and> \<not> ctrl_ioq_map_num (get_ctrl s2 c) + 1 > ctrl_ioq_num (get_ctrl s2 c)"
proof -
  have "get_ctrl (unmap_and_release m (unmap_counts f md t)) c = get_ctrl t c" for md t
    by (auto simp: unmap_counts_def set_group_def get_ctrl_def split: option.split)
  then show ?thesis using assms
    by (simp add: nvm_unmap_host_memory_def nvm_clear_ioq_num_def map_find_def Let_def ioq_unaccount_def)
qed

theorem nvm_clear_ioq_num_underflow_witness:
  "let s = kst_ex_maps\<lparr>k_maps := [0 \<mapsto> (map_ex 7 0x1000 0)\<lparr>map_ioq_idx := 0, map_is_cq := 1\<rparr>], k_host_list := [0]\<rparr> in
   ctrl_ioq_map_num (get_ctrl (snd (nvm_unmap_host_memory env_ex 0 0 0x1000 (snd (nvm_clear_ioq_num 0 s)))) 0) = 0xffffffff"
proof -
  let ?s = "kst_ex_maps\<lparr>k_maps := [0 \<mapsto> (map_ex 7 0x1000 0)\<lparr>map_ioq_idx := 0, map_is_cq := 1\<rparr>], k_host_list := [0]\<rparr>"
  have "map_find env_ex HostList 0x1000 ?s = Some 0" by code_simp
  moreover have "map_ioq_idx (get_map ?s 0) \<ge> 0" "copy_from_user_ok env_ex" by (simp_all add: get_map_def env_ex_def)
  ultimately show ?thesis using nvm_clear_ioq_num_underflow [where e = env_ex and addr = "0x1000" and s = ?s and m = 0 and c = 0 and f = 0] by (simp add: Let_def)
qed

end
