(* ===== verification/Dev_File.thy ===== *)
theory Dev_File
  imports Setup_Ioctl
begin

text \<open>
  The file operations of a controller's character device (\<open>pci.c\<close>): \<open>snvm_dev_open\<close>, \<open>snvm_dev_release\<close>,
  \<open>svm_mmap_registers\<close> and the dispatch of \<open>snvm_dev_map_ioctl\<close>.
\<close>

subsection \<open>Open\<close>

definition new_owner :: "kenv \<Rightarrow> cid \<Rightarrow> snvm_dev_owner" where
  "new_owner e c = \<lparr>own_ctrl = c, own_owner = current e, own_groups = [], own_nr_groups = 0,
     own_data_maps = [], own_nr_data_maps = 0\<rparr>"

definition snvm_dev_open :: "kenv \<Rightarrow> cid \<Rightarrow> fid \<Rightarrow> kst \<Rightarrow> int \<times> kst" where
  "snvm_dev_open e i f s =
     (case ctrl_find_by_inode i s of
        None \<Rightarrow> (- ENODEV, s)
      | Some c \<Rightarrow>
          if \<not> kmalloc_ok e A_owner then (- ENOMEM, s)
          else (0, s\<lparr>k_files := (k_files s)(f \<mapsto> new_owner e c)\<rparr>))"

subsection \<open>Release\<close>

text \<open>Pass 0: every group of the file, from the front of its list; the argument is the list at the start
  of the walk.\<close>

fun release_groups :: "kenv \<Rightarrow> cid \<Rightarrow> fid \<Rightarrow> snvm_qgroup list \<Rightarrow> kst \<Rightarrow> kst" where
  "release_groups e c f [] s = s"
| "release_groups e c f (_ # gs) s =
     (let g = hd (own_groups (get_own s f));
          s1 = set_own f (\<lambda>own. own\<lparr>own_groups := tl (own_groups own)\<rparr>) s
      in release_groups e c f gs (destroy_qgroup_locked e (Some g) (Some c) s1))"

text \<open>Pass 1: the descriptors of the owner on the two lists that carry a queue index, in the width of the
  counters.\<close>

definition rollback_ioq :: "task \<Rightarrow> kst \<Rightarrow> u32" where
  "rollback_ioq owner s = of_nat (length (filter (\<lambda>m. map_owner (get_map s m) = owner \<and> map_ioq_idx (get_map s m) \<ge> 0)
     (k_host_list s @ k_device_queue_list s)))"

definition rollback_cq :: "task \<Rightarrow> kst \<Rightarrow> u32" where
  "rollback_cq owner s = of_nat (length (filter (\<lambda>m. map_owner (get_map s m) = owner \<and> map_ioq_idx (get_map s m) \<ge> 0 \<and>
     map_is_cq (get_map s m) \<noteq> 0) (k_host_list s @ k_device_queue_list s)))"

definition apply_rollback :: "u32 \<Rightarrow> u32 \<Rightarrow> ctrl \<Rightarrow> ctrl" where
  "apply_rollback rb_ioq rb_cq ct = ct\<lparr>
     ctrl_cq_num := (if rb_cq > ctrl_cq_num ct then 0 else ctrl_cq_num ct - rb_cq),
     ctrl_ioq_map_num := (if rb_ioq > ctrl_ioq_map_num ct then 0 else ctrl_ioq_map_num ct - rb_ioq)\<rparr>"

definition snvm_dev_release :: "kenv \<Rightarrow> fid \<Rightarrow> kst \<Rightarrow> kst" where
  "snvm_dev_release e f s =
     (case k_files s f of None \<Rightarrow> s
      | Some own \<Rightarrow>
          let c = own_ctrl own; owner = own_owner own;
              s1 = release_groups e c f (own_groups own) s;
              s2 = set_own f (\<lambda>own. own\<lparr>own_nr_groups := 0\<rparr>) s1;
              s3 = fold unmap_and_release (own_data_maps (get_own s2 f)) s2;
              s4 = set_own f (\<lambda>own. own\<lparr>own_nr_data_maps := 0\<rparr>) s3;
              rb_ioq = rollback_ioq owner s4; rb_cq = rollback_cq owner s4;
              s5 = snd (map_purge_by_owner HostList owner s4);
              s6 = snd (map_purge_by_owner DeviceList owner s5);
              s7 = snd (map_purge_by_owner DeviceQueueList owner s6);
              s8 = set_ctrl c (apply_rollback rb_ioq rb_cq) s7
          in s8\<lparr>k_files := (k_files s8)(f := None)\<rparr>)"

subsection \<open>Mapping the registers\<close>

text \<open>\<open>vm_iomap_memory\<close> maps physical memory into the caller's address space; its result for a range of
  BAR0 of the given length is a parameter.\<close>

definition svm_mmap_registers :: "(u64 \<Rightarrow> int) \<Rightarrow> cid \<Rightarrow> u64 \<Rightarrow> kst \<Rightarrow> int" where
  "svm_mmap_registers vm_iomap_memory i vm_len s =
     (case ctrl_find_by_inode i s of
        None \<Rightarrow> - EBADF
      | Some c \<Rightarrow>
          if vm_len > pci_bar0_len (the (k_pci s (ctrl_pdev (get_ctrl s c)))) then - EINVAL
          else vm_iomap_memory vm_len)"

subsection \<open>Dispatch\<close>

datatype dev_request =
    Map_Host_Memory nvm_ioctl_map
  | Map_Device_Memory nvm_ioctl_map
  | Map_Device_Queue_Memory nvm_ioctl_map
  | Unmap_Host_Memory u64
  | Unmap_Device_Memory u64
  | Unmap_Device_Queue_Memory u64
  | Set_Ioq_Num nvm_ioctl_setup
  | Set_Share_Reg nvm_ioctl_map
  | Get_Dev_Info "nat \<Rightarrow> nvme_ns option"
  | Clear_Ioq_Num
  | Create_Queue_Group nvm_ioctl_queue_group
  | Destroy_Queue_Group u32
  | Add_User_Queue nvm_ioctl_add_user_queue
  | Set_Kernel_Ioq_Cap u32
  | Unknown_Request

datatype dev_reply =
    No_Reply
  | Io_Addrs "u64 list"
  | Queue_Group nvm_ioctl_queue_group
  | User_Queues "nvm_user_queue_pair_out list"
  | Dev_Info nvm_ioctl_dev

definition reply :: "('a \<Rightarrow> dev_reply) \<Rightarrow> int \<times> 'a option \<times> kst \<Rightarrow> int \<times> dev_reply \<times> kst" where
  "reply r x = (case x of (rc, out, s) \<Rightarrow> (rc, case out of None \<Rightarrow> No_Reply | Some a \<Rightarrow> r a, s))"

definition no_reply :: "int \<times> kst \<Rightarrow> int \<times> dev_reply \<times> kst" where
  "no_reply x = (case x of (rc, s) \<Rightarrow> (rc, No_Reply, s))"

fun dev_request_handler :: "kenv \<Rightarrow> cid \<Rightarrow> fid \<Rightarrow> dev_request \<Rightarrow> kst \<Rightarrow> int \<times> dev_reply \<times> kst" where
  "dev_request_handler e c f (Map_Host_Memory req) s = reply Io_Addrs (nvm_map_host_memory e c f req s)"
| "dev_request_handler e c f (Map_Device_Memory req) s = reply Io_Addrs (nvm_map_device_memory e c f req s)"
| "dev_request_handler e c f (Map_Device_Queue_Memory req) s = reply Io_Addrs (nvm_map_device_queue_memory e c f req s)"
| "dev_request_handler e c f (Unmap_Host_Memory va) s = no_reply (nvm_unmap_host_memory e c f va s)"
| "dev_request_handler e c f (Unmap_Device_Memory va) s = no_reply (nvm_unmap_device_memory e c f va s)"
| "dev_request_handler e c f (Unmap_Device_Queue_Memory va) s = no_reply (nvm_unmap_device_queue_memory e c va s)"
| "dev_request_handler e c f (Set_Ioq_Num st) s = no_reply (nvm_set_ioq_num e c st s)"
| "dev_request_handler e c f (Set_Share_Reg req) s = no_reply (nvm_set_share_reg e c req s)"
| "dev_request_handler e c f (Get_Dev_Info find_ns) s = reply Dev_Info (case nvm_get_dev_info e find_ns c s of (rc, info) \<Rightarrow> (rc, info, s))"
| "dev_request_handler e c f Clear_Ioq_Num s = no_reply (nvm_clear_ioq_num c s)"
| "dev_request_handler e c f (Create_Queue_Group req) s = reply Queue_Group (nvm_create_queue_group e c f req s)"
| "dev_request_handler e c f (Destroy_Queue_Group gid) s = no_reply (nvm_destroy_queue_group e c f gid s)"
| "dev_request_handler e c f (Add_User_Queue req) s = reply User_Queues (nvm_add_user_queue e c f req s)"
| "dev_request_handler e c f (Set_Kernel_Ioq_Cap cap) s = no_reply (nvm_set_kernel_ioq_cap e c cap s)"
| "dev_request_handler e c f Unknown_Request s = (- EINVAL, No_Reply, s)"

definition snvm_dev_map_ioctl :: "kenv \<Rightarrow> cid \<Rightarrow> fid \<Rightarrow> dev_request \<Rightarrow> kst \<Rightarrow> int \<times> dev_reply \<times> kst" where
  "snvm_dev_map_ioctl e i f req s =
     (case ctrl_find_by_inode i s of
        None \<Rightarrow> (- EBADF, No_Reply, s)
      | Some c \<Rightarrow> dev_request_handler e c f req s)"

end
