(* ===== verification/Control_Ioctl.thy ===== *)
theory Control_Ioctl
  imports Dev_File Io_Queue_Setup
begin

text \<open>
  The control device \<open>/dev/snvm_control\<close> (\<open>pci.c\<close>): creation and removal of a controller's character device,
  binding a PCI device to this driver and releasing it again, the probe and remove callbacks, and module load and
  unload. What the PCI core does is a parameter: \<open>bus\<close> lists the devices it offers to a newly registered driver,
  \<open>get_dev\<close> looks up a device by address, and \<open>device_attach_rc\<close> says what \<open>device_attach\<close> returns when the probe
  callback refuses the device. The core sets the driver of a device whose probe returned 0 and clears the driver
  data of one whose probe failed.
\<close>

definition PCI_CLASS_STORAGE_EXPRESS :: u32 where "PCI_CLASS_STORAGE_EXPRESS = 0x010802"

definition get_pci :: "kst \<Rightarrow> pdev \<Rightarrow> pci_device" where
  "get_pci s pd = the (k_pci s pd)"

definition set_pci :: "pdev \<Rightarrow> (pci_device \<Rightarrow> pci_device) \<Rightarrow> kst \<Rightarrow> kst" where
  "set_pci pd f s = s\<lparr>k_pci := (k_pci s)(pd \<mapsto> f (get_pci s pd))\<rparr>"

subsection \<open>Probe and remove\<close>

definition zero_nvme_dev :: nvme_dev where
  "zero_nvme_dev = \<lparr>nd_admin_q = False, nd_online_queues = 0, nd_online_user_queues = 0, nd_user_start_qid = 0, nd_max_qid = 0,
     nd_q_depth = 0, nd_db_stride = 0, nd_nr_allocated_queues = 0, nd_nr_write_queues = 0, nd_nr_poll_queues = 0,
     nd_nr_user_allocated_queues = 0, nd_nr_user_allocated_cq = 0, nd_nr_user_use_cq = 0, nd_nr_user_allocated_sq = 0,
     nd_nr_user_use_sq = 0, nd_use_user_allocated = False, nd_queue_on_host = False, nd_ctrl_max_io_queues = 0,
     nd_cap_kernel_ioq = 0, nd_max_hw_sectors = 0, nd_sgls = 0\<rparr>"

text \<open>The two snapshots \<open>nvme_probe\<close> takes of the controller record: queues registered before the bind, and the
  budget of \<open>NVM_SET_IOQ_NUM\<close> and \<open>NVM_SET_KERNEL_IOQ_CAP\<close>.\<close>

definition probe_user_budget :: "ctrl \<Rightarrow> nvme_dev \<Rightarrow> nvme_dev" where
  "probe_user_budget ct nd =
     (if ctrl_ioq_num ct = ctrl_ioq_map_num ct \<and> ctrl_use_sreg ct \<noteq> 0
      then nd\<lparr>nd_nr_user_allocated_queues := ctrl_ioq_num ct, nd_nr_user_allocated_cq := ctrl_cq_num ct,
             nd_nr_user_allocated_sq := ctrl_ioq_num ct - ctrl_cq_num ct, nd_use_user_allocated := True,
             nd_queue_on_host := (ctrl_on_host ct \<noteq> 0)\<rparr>
      else nd\<lparr>nd_use_user_allocated := False\<rparr>)"

definition probe_setup_snapshot :: "probe_env \<Rightarrow> snvm_queue_setup \<Rightarrow> nvme_dev \<Rightarrow> nvme_dev" where
  "probe_setup_snapshot pe su nd =
     (if su_valid su \<noteq> 0
      then nd\<lparr>nd_nr_write_queues := (if su_nr_write su \<noteq> 0 then su_nr_write su else write_queues pe),
             nd_nr_poll_queues := (if su_nr_poll su \<noteq> 0 then su_nr_poll su else poll_queues pe),
             nd_cap_kernel_ioq := su_cap_kernel_ioq su\<rparr>
      else nd\<lparr>nd_nr_write_queues := write_queues pe, nd_nr_poll_queues := poll_queues pe, nd_cap_kernel_ioq := 0\<rparr>)"

definition probe_dev :: "probe_env \<Rightarrow> ctrl \<Rightarrow> nvme_dev" where
  "probe_dev pe ct =
     (let nd = probe_setup_snapshot pe (ctrl_setup ct) (probe_user_budget ct zero_nvme_dev)
      in nd\<lparr>nd_nr_allocated_queues := nvme_max_io_queues (quirk_shared_tags pe) (num_possible_cpus pe) nd + 1\<rparr>)"

definition nvme_probe :: "probe_env \<Rightarrow> pdev \<Rightarrow> kst \<Rightarrow> int \<times> kst" where
  "nvme_probe pe pd s =
     (case ctrl_find_by_pci_dev pd s of
        None \<Rightarrow> (- ENODEV, s)
      | Some c \<Rightarrow>
          if \<not> pe_alloc_dev pe then (- ENOMEM, s)
          else if \<not> pe_alloc_queues pe then (- ENOMEM, s)
          else
            let s1 = set_pci pd (\<lambda>d. d\<lparr>pci_drvdata := Some (probe_dev pe (get_ctrl s c))\<rparr>) s in
            if nvme_dev_map_rc pe \<noteq> 0 then (nvme_dev_map_rc pe, s1)
            else if setup_prp_pools_rc pe \<noteq> 0 then (setup_prp_pools_rc pe, s1)
            else if \<not> pe_alloc_mempool pe then (- ENOMEM, s1)
            else if init_ctrl_rc pe \<noteq> 0 then (init_ctrl_rc pe, s1)
            else (0, log_event (EvReset pd) s1))"

text \<open>\<open>device_release_driver\<close>: for a device of this driver it calls \<open>nvme_remove\<close>, which disables the controller.\<close>

definition nvme_remove :: "pdev \<Rightarrow> kst \<Rightarrow> kst" where
  "nvme_remove pd s = log_event (EvReset pd) (set_pci pd (\<lambda>d. d\<lparr>pci_drvdata := None, pci_enabled := False\<rparr>) s)"

definition device_release_driver :: "pdev \<Rightarrow> kst \<Rightarrow> kst" where
  "device_release_driver pd s =
     (let s1 = (if pci_driver (get_pci s pd) = Some PCI_DRIVER_NAME then nvme_remove pd s else s)
      in set_pci pd (\<lambda>d. d\<lparr>pci_driver := None, pci_drvdata := None\<rparr>) s1)"

text \<open>The core offers a device to the driver if it has none, is of the class of the id table, and is not pinned to
  another driver.\<close>

definition snvme_matches :: "pci_device \<Rightarrow> bool" where
  "snvme_matches d \<longleftrightarrow> pci_driver d = None \<and> pci_class d = PCI_CLASS_STORAGE_EXPRESS \<and>
     (pci_driver_override d = None \<or> pci_driver_override d = Some PCI_DRIVER_NAME)"

definition core_probe :: "probe_env \<Rightarrow> pdev \<Rightarrow> kst \<Rightarrow> int \<times> kst" where
  "core_probe pe pd s =
     (case nvme_probe pe pd s of (rc, s1) \<Rightarrow>
        if rc = 0 then (0, set_pci pd (\<lambda>d. d\<lparr>pci_driver := Some PCI_DRIVER_NAME, pci_enabled := True\<rparr>) s1)
        else (rc, set_pci pd (\<lambda>d. d\<lparr>pci_drvdata := None\<rparr>) s1))"

definition snvm_register_driver :: "probe_env \<Rightarrow> pdev list \<Rightarrow> kst \<Rightarrow> int \<times> kst" where
  "snvm_register_driver pe bus s =
     (if pci_register_driver_rc pe \<noteq> 0 then (pci_register_driver_rc pe, s)
      else (0, fold (\<lambda>pd s. if k_pci s pd \<noteq> None \<and> snvme_matches (get_pci s pd) then snd (core_probe pe pd s) else s) bus s))"

definition register_driver :: "probe_env \<Rightarrow> pdev list \<Rightarrow> kst \<Rightarrow> int \<times> kst" where
  "register_driver pe bus s =
     (if \<not> k_registered s then
        (case snvm_register_driver pe bus s of (ret, s1) \<Rightarrow> if ret \<noteq> 0 then (ret, s1) else (0, s1\<lparr>k_registered := True\<rparr>))
      else (0, s))"

subsection \<open>Bind and unbind\<close>

definition disable_if_enabled :: "pdev \<Rightarrow> kst \<Rightarrow> kst" where
  "disable_if_enabled pd s = (if pci_enabled (get_pci s pd) then set_pci pd (\<lambda>d. d\<lparr>pci_enabled := False\<rparr>) s else s)"

definition device_attach :: "probe_env \<Rightarrow> pdev \<Rightarrow> kst \<Rightarrow> int \<times> kst" where
  "device_attach pe pd s =
     (if \<not> snvme_matches (get_pci s pd) then (0, s)
      else case core_probe pe pd s of (rc, s1) \<Rightarrow> (if rc = 0 then 1 else device_attach_rc pe rc, s1))"

definition snvm_rebind_driver :: "probe_env \<Rightarrow> pdev list \<Rightarrow> pdev option \<Rightarrow> kst \<Rightarrow> int \<times> kst" where
  "snvm_rebind_driver pe bus pdo s =
     (case pdo of None \<Rightarrow> (- ENODEV, s)
      | Some pd \<Rightarrow>
          let s1 = (if pci_driver (get_pci s pd) \<noteq> None then device_release_driver pd (disable_if_enabled pd s) else s) in
          case register_driver pe bus s1 of (ret, s2) \<Rightarrow>
          if ret \<noteq> 0 then (- EFAULT, s2)
          else if pci_driver (get_pci s2 pd) \<noteq> None then (0, s2)
          else if \<not> pe_alloc_override pe then (- ENOMEM, set_pci pd (\<lambda>d. d\<lparr>pci_driver_override := None\<rparr>) s2)
          else case device_attach pe pd (set_pci pd (\<lambda>d. d\<lparr>pci_driver_override := Some PCI_DRIVER_NAME\<rparr>) s2) of (ret, s3) \<Rightarrow>
          (if ret < 0 then ret else if ret = 0 then - ENODEV else 0, s3))"

definition snvm_unbind_driver :: "pdev option \<Rightarrow> kst \<Rightarrow> int \<times> kst" where
  "snvm_unbind_driver pdo s =
     (case pdo of None \<Rightarrow> (- EFAULT, s)
      | Some pd \<Rightarrow>
          (case pci_driver (get_pci s pd) of None \<Rightarrow> (- EFAULT, s)
           | Some drv \<Rightarrow>
               if drv \<noteq> PCI_DRIVER_NAME then (- EFAULT, s)
               else (0, device_release_driver pd (disable_if_enabled pd s))))"

subsection \<open>Character devices of controllers\<close>

definition snvm_chrdev_create :: "kenv \<Rightarrow> pdev \<Rightarrow> u32 \<Rightarrow> kst \<Rightarrow> int \<times> kst" where
  "snvm_chrdev_create e pd cls s =
     (if pci_class (get_pci s pd) \<noteq> cls then (- 1, s)
      else
        let minor = ida_simple_get e (k_chrdev_minor_ida s) 0 in
        if minor < 0 then (minor, s)
        else
          let s1 = s\<lparr>k_chrdev_minor_ida := insert (nat minor) (k_chrdev_minor_ida s)\<rparr> in
          case ctrl_get e pd minor s1 of
            (Inl err, s2) \<Rightarrow> (err, s2)
          | (Inr c, s2) \<Rightarrow>
              (case ctrl_chrdev_create e c s2 of (err, s3) \<Rightarrow>
                 if err \<noteq> 0 then
                   let s4 = ctrl_put (Some c) s3
                   in (err, s4\<lparr>k_chrdev_minor_ida := k_chrdev_minor_ida s4 - {nat minor}\<rparr>)
                 else (0, s3)))"

record pci_device_addr =
  pa_domain :: int
  pa_bus :: int
  pa_slot :: int
  pa_func :: int

text \<open>The address is overwritten with the minor number in \<open>domain\<close> and zeros elsewhere.\<close>

definition report_minor :: "int \<Rightarrow> pci_device_addr" where
  "report_minor n = \<lparr>pa_domain = n, pa_bus = 0, pa_slot = 0, pa_func = 0\<rparr>"

definition snvm_chrdev_helper ::
  "kenv \<Rightarrow> (pci_device_addr \<Rightarrow> pdev option) \<Rightarrow> pci_device_addr \<Rightarrow> bool \<Rightarrow> kst \<Rightarrow> int \<times> pci_device_addr \<times> kst" where
  "snvm_chrdev_helper e get_dev addr create s =
     (case get_dev addr of None \<Rightarrow> (- EFAULT, addr, s)
      | Some pd \<Rightarrow>
          (case (create, ctrl_find_by_pci_dev pd s) of
             (True, None) \<Rightarrow>
               (case snvm_chrdev_create e pd PCI_CLASS_STORAGE_EXPRESS s of (ret, s1) \<Rightarrow>
                  if ret = 0 then (0, report_minor (ctrl_number (get_ctrl s1 (the (ctrl_find_by_pci_dev pd s1)))), s1)
                  else (ret, addr, s1))
           | (True, Some c) \<Rightarrow> (0, report_minor (ctrl_number (get_ctrl s c)), s)
           | (False, Some c) \<Rightarrow>
               let released_minor = ctrl_number (get_ctrl s c);
                   s1 = ctrl_put (Some c) s
               in (0, addr, s1\<lparr>k_chrdev_minor_ida := k_chrdev_minor_ida s1 - {nat released_minor}\<rparr>)
           | (False, None) \<Rightarrow> (0, addr, s)))"

datatype control_request = Device_Bind | Device_Unbind | Chrdev_Create | Chrdev_Remove | Unknown_Control

text \<open>\<open>copy_to_user\<close> returns the number of bytes it could not copy; \<open>left\<close> is that number when it fails.\<close>

definition snvm_ioctl ::
  "kenv \<Rightarrow> probe_env \<Rightarrow> pdev list \<Rightarrow> (pci_device_addr \<Rightarrow> pdev option) \<Rightarrow> int \<Rightarrow> control_request \<Rightarrow> pci_device_addr \<Rightarrow> kst \<Rightarrow>
   int \<times> pci_device_addr option \<times> kst" where
  "snvm_ioctl e pe bus get_dev left req addr s =
     (if \<not> copy_from_user_ok e then (- EFAULT, None, s)
      else case req of
        Device_Bind \<Rightarrow> (case snvm_rebind_driver pe bus (get_dev addr) s of (rc, s1) \<Rightarrow> (rc, None, s1))
      | Device_Unbind \<Rightarrow> (case snvm_unbind_driver (get_dev addr) s of (rc, s1) \<Rightarrow> (rc, None, s1))
      | Chrdev_Create \<Rightarrow>
          (case snvm_chrdev_helper e get_dev addr True s of (rc, addr', s1) \<Rightarrow>
             if rc \<noteq> 0 then (rc, None, s1)
             else if \<not> copy_to_user_ok e then (left, None, s1)
             else (0, Some addr', s1))
      | Chrdev_Remove \<Rightarrow> (case snvm_chrdev_helper e get_dev addr False s of (rc, _, s1) \<Rightarrow> (rc, None, s1))
      | Unknown_Control \<Rightarrow> (- ENOTTY, None, s))"

subsection \<open>Unload\<close>

text \<open>The two clearing loops take the front element until the list is empty; the argument bounds the walk by the
  length of the list.\<close>

fun clear_map_list :: "glist \<Rightarrow> nat \<Rightarrow> kst \<Rightarrow> nat \<times> kst" where
  "clear_map_list l 0 s = (0, s)"
| "clear_map_list l (Suc n) s =
     (case get_list l s of [] \<Rightarrow> (0, s)
      | m # _ \<Rightarrow> (case clear_map_list l n (unmap_and_release m s) of (i, s1) \<Rightarrow> (Suc i, s1)))"

fun clear_ctrl_list :: "nat \<Rightarrow> kst \<Rightarrow> nat \<times> kst" where
  "clear_ctrl_list 0 s = (0, s)"
| "clear_ctrl_list (Suc n) s =
     (case k_ctrl_list s of [] \<Rightarrow> (0, s)
      | c # _ \<Rightarrow> (case clear_ctrl_list n (ctrl_put (Some c) s) of (i, s1) \<Rightarrow> (Suc i, s1)))"

definition clear_maps :: "kst \<Rightarrow> kst" where
  "clear_maps s =
     (let s1 = snd (clear_map_list DeviceList (length (k_device_list s)) s);
          s2 = snd (clear_map_list DeviceQueueList (length (k_device_queue_list s1)) s1)
      in snd (clear_map_list HostList (length (k_host_list s2)) s2))"

text \<open>\<open>pci_unregister_driver\<close> releases every device of the driver.\<close>

definition snvm_unregister_driver :: "pdev list \<Rightarrow> kst \<Rightarrow> kst" where
  "snvm_unregister_driver bus s =
     fold (\<lambda>pd s. if k_pci s pd \<noteq> None \<and> pci_driver (get_pci s pd) = Some PCI_DRIVER_NAME then device_release_driver pd s else s) bus s"

definition clean_driver :: "pdev list \<Rightarrow> kst \<Rightarrow> kst" where
  "clean_driver bus s =
     (let s1 = clear_maps s in if k_registered s1 then snvm_unregister_driver bus s1 else s1)"

definition nvme_exit :: "pdev list \<Rightarrow> kst \<Rightarrow> kst" where
  "nvme_exit bus s =
     (let s1 = clean_driver bus (clear_maps s);
          s2 = snd (clear_ctrl_list (length (k_ctrl_list s1)) s1)
      in s2\<lparr>k_chrdev_minor_ida := {}\<rparr>)"

end
