(* ===== verification/System_Core.thy ===== *)
theory System_Core
  imports Control_Ioctl
begin

text \<open>
  The part of the module's state that user queues depend on: per file its controller and its groups without their
  maps, per controller its PCI device and its QID pool, the controller list, the group ids in use, the PCI devices,
  and the queues the hardware holds. The operations on memory maps and on the legacy counters do not change this
  part; the lemmas below say so for each of them, up to the handlers of the map requests.
\<close>

definition group_core :: "snvm_qgroup \<Rightarrow> snvm_qgroup" where
  "group_core g = g\<lparr>g_maps := [], g_nr_maps := 0\<rparr>"

definition own_core :: "snvm_dev_owner \<Rightarrow> snvm_dev_owner" where
  "own_core own = own\<lparr>own_owner := 0, own_groups := map group_core (own_groups own), own_data_maps := [], own_nr_data_maps := 0\<rparr>"

definition ctrl_core :: "ctrl \<Rightarrow> pdev \<times> qid_pool" where
  "ctrl_core ct = (ctrl_pdev ct, ctrl_pool ct)"

definition files_core where "files_core s = (\<lambda>f. map_option own_core (k_files s f))"

definition ctrls_core where "ctrls_core s = (\<lambda>c. map_option ctrl_core (k_ctrls s c))"

definition ctl_queues :: "kst \<Rightarrow> pdev \<Rightarrow> u16 set \<times> u16 set" where
  "ctl_queues s = (\<lambda>pd. dev_queues pd (k_log s))"

definition core where
  "core s = (files_core s, ctrls_core s, k_ctrl_list s, k_next_cid s, k_queue_group_ida s, k_pci s, ctl_queues s)"

lemma core_files_ctrls:
  assumes "core s' = core s"
  shows "k_ctrls s' c = None \<longleftrightarrow> k_ctrls s c = None" "k_files s' f = None \<longleftrightarrow> k_files s f = None"
proof -
  have "ctrls_core s' c = ctrls_core s c" "files_core s' f = files_core s f" using assms by (simp_all add: core_def)
  then show "k_ctrls s' c = None \<longleftrightarrow> k_ctrls s c = None" "k_files s' f = None \<longleftrightarrow> k_files s f = None"
    unfolding ctrls_core_def files_core_def by (metis option.map_disc_iff)+
qed

subsection \<open>Elementary operations\<close>

lemma own_core_unlink [simp]: "own_core (unlink_group_maps m own) = own_core own"
  by (simp add: own_core_def unlink_group_maps_def group_core_def)

lemma files_core_unmap [simp]: "files_core (unmap_and_release m s) = files_core s"
  by (simp add: files_core_def fun_eq_iff option.map_comp comp_def)

lemma ctl_queues_append:
  "k_log s' = k_log s @ evs \<Longrightarrow> \<forall>ev \<in> set evs. \<not> is_admin ev \<and> (\<forall>pd. ev \<noteq> EvReset pd) \<Longrightarrow> ctl_queues s' = ctl_queues s"
  by (simp add: ctl_queues_def dev_queues_append fold_dev_event_other)

lemma core_unmap [simp]: "core (unmap_and_release m s) = core s"
proof -
  have "ctl_queues (unmap_and_release m s) = ctl_queues s"
    by (rule ctl_queues_append [of _ _ "release_events (length (k_ctrl_list s)) (get_map s m)"])
      (auto dest: release_events_no_admin)
  then show ?thesis by (simp add: core_def ctrls_core_def)
qed

lemma core_fold_unmap [simp]: "core (fold unmap_and_release ms s) = core s"
  by (induction ms arbitrary: s) auto

lemma core_set_map [simp]: "core (set_map m h s) = core s"
  by (simp add: core_def files_core_def ctrls_core_def ctl_queues_def set_map_def)

lemma core_set_own:
  "k_files s f = Some own \<Longrightarrow> own_core (h own) = own_core own \<Longrightarrow> core (set_own f h s) = core s"
  by (simp add: core_def files_core_def ctrls_core_def ctl_queues_def set_own_def get_own_def fun_eq_iff)

lemma core_set_ctrl:
  "k_ctrls s c \<noteq> None \<Longrightarrow> (\<And>ct. ctrl_core (h ct) = ctrl_core ct) \<Longrightarrow> core (set_ctrl c h s) = core s"
  by (auto simp: core_def files_core_def ctrls_core_def ctl_queues_def get_ctrl_def fun_eq_iff)

lemma core_set_group:
  assumes "k_files s f = Some own" "\<And>g. group_core (h g) = group_core g"
  shows "core (set_group f gid h s) = core s"
  unfolding set_group_def using assms by (intro core_set_own [OF assms(1)]) (simp add: own_core_def)

lemma core_purge [simp]: "maps_wf s \<Longrightarrow> core (snd (map_purge_by_owner l owner s)) = core s"
  by (simp add: map_purge_by_owner_eq maps_wf_distinct Let_def)

subsection \<open>Mapping\<close>

lemma builders_no_admin:
  assumes "b \<in> builders" "b e m s = (err, s')"
  shows "\<exists>evs. k_log s' = k_log s @ evs \<and> (\<forall>ev \<in> set evs. \<not> is_admin ev \<and> (\<forall>pd. ev \<noteq> EvReset pd))"
proof -
  have at: "attach_event ev \<Longrightarrow> \<not> is_admin ev \<and> (\<forall>pd. ev \<noteq> EvReset pd)" for ev by (cases ev) auto
  have g: ?thesis if "s' = s \<or> gpu_built s s' m"
    using that
  proof
    assume "gpu_built s s' m"
    then obtain pt :: "p2p_page_table option" and evs where "k_log s' = k_log s @ (case pt of None \<Rightarrow> [] | Some p \<Rightarrow> [EvDmaBufGet (pt_dmabuf p)]) @ evs"
      "\<forall>ev \<in> set evs. attach_event ev" unfolding gpu_built_def by blast
    then show ?thesis using at
      by (intro exI [of _ "(case pt of None \<Rightarrow> [] | Some p \<Rightarrow> [EvDmaBufGet (pt_dmabuf p)]) @ evs"]) (auto split: option.splits)
  qed auto
  consider "b = map_user_pages" | "b = map_gpu_memory" | "b = map_gpu_ioqueue_memory" using assms(1) by (auto simp: builders_def)
  then show ?thesis
  proof cases
    case 1
    from assms(2) [unfolded 1] show ?thesis
    proof (cases rule: map_user_pages_cases)
      case (2 retval pages)
      from dma_map_loop_effect [OF 2(3)] obtain evs where "k_log s' = k_log s @ map EvPinPage pages @ evs"
        "\<forall>ev \<in> set evs. \<exists>pd pg a. ev = EvDmaMap pd pg a" by auto
      then show ?thesis by (intro exI [of _ "map EvPinPage pages @ evs"]) auto
    qed auto
  next
    case 2 then show ?thesis using g map_gpu_memory_effect assms(2) by blast
  next
    case 3 then show ?thesis using g map_gpu_ioqueue_memory_effect assms(2) by blast
  qed
qed

lemma core_insert_list [simp]: "core (insert_list l m s) = core s"
  by (simp add: core_def files_core_def ctrls_core_def ctl_queues_def)

lemma core_map_pattern:
  assumes "b \<in> builders" "map_pattern b l psz e c va n s = (r, s')"
  shows "core s' = core s"
proof (cases "n < 1 \<or> \<not> kmalloc_ok e A_map")
  case True
  then show ?thesis using assms(2) by (auto simp: map_pattern_unfold split: if_splits)
next
  case False
  let ?m = "k_next_mid s" and ?s2 = "with_map (k_next_mid s) (fresh_map e c va psz n) s"
  obtain err3 s3 where b: "b e ?m ?s2 = (err3, s3)" by fastforce
  have t: "touches ?m ?s2 s3" using touchingD [OF builders_touching [OF assms(1)] b] .
  obtain evs where "k_log s3 = k_log ?s2 @ evs" "\<forall>ev \<in> set evs. \<not> is_admin ev \<and> (\<forall>pd. ev \<noteq> EvReset pd)"
    using builders_no_admin [OF assms(1) b] by blast
  then have "ctl_queues s3 = ctl_queues ?s2" by (rule ctl_queues_append)
  then have "core s3 = core s" using t
    by (auto simp: touches_def core_def files_core_def ctrls_core_def with_map_def ctl_queues_def)
  moreover have "s' = unmap_and_release ?m s3 \<or> s' = insert_list l ?m s3"
    using assms(2) b False by (auto simp: map_pattern_unfold Let_def split: if_splits)
  ultimately show ?thesis by auto
qed

subsection \<open>The handlers of the map and set-up requests\<close>

lemmas cores = own_core_def group_core_def ctrl_core_def

lemma core_attach_scoped: "attach_scoped f req m s = (rc, s') \<Longrightarrow> core s' = core s"
  by (auto simp: attach_scoped_def data_map_add_def group_map_add_def core_set_own core_set_group cores
      split: if_splits option.splits)

lemma core_detach_scoped [simp]: "core (detach_scoped f req s) = core s"
  by (auto simp: detach_scoped_def core_set_own core_set_group cores split: option.splits)

lemma core_unmap_counts [simp]: "core (unmap_counts f md s) = core s"
  by (auto simp: unmap_counts_def core_set_own core_set_group cores split: option.splits)

lemma core_ioq [simp]:
  "k_ctrls s c \<noteq> None \<Longrightarrow> core (ioq_account c q s) = core s"
  "k_ctrls s c \<noteq> None \<Longrightarrow> core (ioq_unaccount c q s) = core s"
  unfolding ioq_account_def ioq_unaccount_def by (rule core_set_ctrl; simp add: cores)+

lemma core_attach_legacy: "attach_legacy c req m s = (rc, s') \<Longrightarrow> k_ctrls s c \<noteq> None \<Longrightarrow> core s' = core s"
  by (auto simp: attach_legacy_def split: if_splits)

lemma core_attach:
  "(if is_legacy req then attach_legacy c req m s else attach_scoped f req m s) = (rc, s') \<Longrightarrow> k_ctrls s c \<noteq> None \<Longrightarrow>
   core s' = core s"
  by (metis core_attach_legacy core_attach_scoped)

lemma ctrl_kept: "core s' = core s \<Longrightarrow> k_ctrls s c \<noteq> None \<Longrightarrow> k_ctrls s' c \<noteq> None"
  using core_files_ctrls(1) by metis

lemma core_map_host:
  assumes "nvm_map_host_memory e c f req s = (rc, out, s')" "k_ctrls s c \<noteq> None"
  shows "core s' = core s"
proof -
  obtain r s1 where p: "map_userspace e (get_ctrl s c) (rq_vaddr_start req) (rq_n_pages req) s = (r, s1)" by fastforce
  then have c1: "core s1 = core s" by (intro core_map_pattern) (auto simp: map_patterns builders_def)
  show ?thesis
  proof (cases "copy_from_user_ok e \<and> \<not> map_request_bad req")
    case False
    then show ?thesis using assms(1) by (auto simp: nvm_map_host_memory_def split: if_splits)
  next
    case T: True
    show ?thesis
    proof (cases r)
      case (Inl err)
      then show ?thesis using assms(1) p c1 T by (simp add: nvm_map_host_memory_def)
    next
      case (Inr m)
      let ?s2 = "set_map m (map_kind_update (\<lambda>_. rq_map_kind req)) s1"
      obtain rc3 s3 where a: "(if is_legacy req then attach_legacy c req m ?s2 else attach_scoped f req m ?s2) = (rc3, s3)" by fastforce
      have c2: "k_ctrls ?s2 c \<noteq> None" using ctrl_kept [OF c1 assms(2)] by simp
      have c3: "core s3 = core s" "k_ctrls s3 c \<noteq> None"
        using core_attach [OF a c2] c1 ctrl_kept [of s3 s, OF _ assms(2)] by simp_all
      have "s' = s3 \<or> s' = unmap_and_release m (if is_legacy req then ioq_unaccount c (map_is_cq (get_map s3 m) \<noteq> 0) s3 else detach_scoped f req s3)"
        using assms(1) p T a Inr by (simp add: nvm_map_host_memory_def Let_def split: if_splits)
      then show ?thesis using c3 by (auto split: if_splits)
    qed
  qed
qed

lemma core_map_device:
  assumes "nvm_map_device_memory e c f req s = (rc, out, s')"
  shows "core s' = core s"
proof -
  obtain r s1 where p: "map_device_memory e (get_ctrl s c) (rq_vaddr_start req) (rq_n_pages req) s = (r, s1)" by fastforce
  then have c1: "core s1 = core s" by (intro core_map_pattern) (auto simp: map_patterns builders_def)
  show ?thesis
  proof (cases r)
    case (Inl err)
    then show ?thesis using assms p c1 by (auto simp: nvm_map_device_memory_def split: if_splits)
  next
    case (Inr m)
    obtain rc3 s3 where a: "attach_scoped f req m (set_map m (map_kind_update (\<lambda>_. rq_map_kind req)) s1) = (rc3, s3)" by fastforce
    have "core s3 = core s" using core_attach_scoped [OF a] c1 by simp
    then show ?thesis using assms p a Inr by (auto simp: nvm_map_device_memory_def split: if_splits)
  qed
qed

lemma core_map_device_queue:
  assumes "nvm_map_device_queue_memory e c f req s = (rc, out, s')" "k_ctrls s c \<noteq> None"
  shows "core s' = core s"
proof -
  obtain r s1 where p: "map_device_ioqueue_memory e (get_ctrl s c) (rq_vaddr_start req) (rq_n_pages req) s = (r, s1)" by fastforce
  then have c1: "core s1 = core s" by (intro core_map_pattern) (auto simp: map_patterns builders_def)
  show ?thesis
  proof (cases r)
    case (Inl err)
    then show ?thesis using assms p c1 by (auto simp: nvm_map_device_queue_memory_def split: if_splits)
  next
    case (Inr m)
    obtain rc3 s3 where a: "attach_legacy c req m s1 = (rc3, s3)" by fastforce
    have "core s3 = core s" "k_ctrls s3 c \<noteq> None"
      using core_attach_legacy [OF a ctrl_kept [OF c1 assms(2)]] c1 ctrl_kept [of s3 s, OF _ assms(2)] by simp_all
    then show ?thesis using assms p a Inr by (auto simp: nvm_map_device_queue_memory_def split: if_splits)
  qed
qed

lemma core_unmap_requests:
  assumes "k_ctrls s c \<noteq> None"
  shows "nvm_unmap_host_memory e c f va s = (rc, s') \<Longrightarrow> core s' = core s"
    "nvm_unmap_device_memory e c f va s = (rc, s') \<Longrightarrow> core s' = core s"
    "nvm_unmap_device_queue_memory e c va s = (rc, s') \<Longrightarrow> core s' = core s"
  using assms
  by (auto simp: nvm_unmap_host_memory_def nvm_unmap_device_memory_def nvm_unmap_device_queue_memory_def Let_def
      split: if_splits option.splits)

lemma core_setup_requests:
  assumes "k_ctrls s c \<noteq> None"
  shows "nvm_set_ioq_num e c st s = (rc, s') \<Longrightarrow> core s' = core s"
    "nvm_set_share_reg e c req s = (rc, s') \<Longrightarrow> core s' = core s"
    "nvm_clear_ioq_num c s = (rc, s') \<Longrightarrow> core s' = core s"
    "nvm_set_kernel_ioq_cap e c cap s = (rc, s') \<Longrightarrow> core s' = core s"
  using assms
  by (auto simp: nvm_set_ioq_num_def nvm_set_share_reg_def nvm_clear_ioq_num_def nvm_set_kernel_ioq_cap_def commit_setup_def
      cores split: if_splits intro!: core_set_ctrl)

text \<open>All requests but the three on queue groups.\<close>

fun group_request :: "dev_request \<Rightarrow> bool" where
  "group_request (Create_Queue_Group _) = True"
| "group_request (Destroy_Queue_Group _) = True"
| "group_request (Add_User_Queue _) = True"
| "group_request _ = False"

lemma core_request:
  assumes "dev_request_handler e c f req s = (rc, out, s')" "\<not> group_request req" "k_ctrls s c \<noteq> None"
  shows "core s' = core s"
  using assms(1,2)
  by (cases req) (auto simp: reply_def no_reply_def split: prod.splits
      intro: core_map_host [OF _ assms(3)] core_map_device core_map_device_queue [OF _ assms(3)]
        core_unmap_requests [OF assms(3)] core_setup_requests [OF assms(3)])

end
