(* ===== verification/System_Memory.thy ===== *)
theory System_Memory
  imports System_Core
begin

text \<open>
  The memory side of the state: the descriptors on the three global lists are exactly the live ones, no descriptor is
  linked twice into the groups and data lists of the open files, and the log of pins and dma-buf references balances
  what the descriptors hold. Every request and the release of a file keep this.
\<close>

definition links_ok :: "kst \<Rightarrow> bool" where
  "links_ok s \<longleftrightarrow> (\<forall>f own. k_files s f = Some own \<longrightarrow> distinct (linked_maps own)) \<and>
     (\<forall>f f' own own'. k_files s f = Some own \<longrightarrow> k_files s f' = Some own' \<longrightarrow> f \<noteq> f' \<longrightarrow>
        set (linked_maps own) \<inter> set (linked_maps own') = {})"

definition mem_inv :: "kst \<Rightarrow> bool" where
  "mem_inv s \<longleftrightarrow> maps_wf s \<and> links_ok s \<and> resources_ok s"

lemma mem_invD: "mem_inv s \<Longrightarrow> maps_wf s" "mem_inv s \<Longrightarrow> links_ok s" "mem_inv s \<Longrightarrow> resources_ok s"
  by (simp_all add: mem_inv_def)

text \<open>The files may lose links, and the log may grow by commands.\<close>

definition links_sub :: "(fid \<rightharpoonup> snvm_dev_owner) \<Rightarrow> (fid \<rightharpoonup> snvm_dev_owner) \<Rightarrow> bool" where
  "links_sub fl fl' \<longleftrightarrow> (\<forall>f own'. fl' f = Some own' \<longrightarrow> distinct (linked_maps own') \<and>
     (linked_maps own' = [] \<or> (\<exists>own. fl f = Some own \<and> set (linked_maps own') \<subseteq> set (linked_maps own))))"

lemma links_ok_sub:
  assumes "links_ok s" "links_sub (k_files s) (k_files s')" shows "links_ok s'"
  unfolding links_ok_def
proof (intro conjI allI impI)
  fix f own assume "k_files s' f = Some own"
  then show "distinct (linked_maps own)" using assms(2) by (simp add: links_sub_def)
next
  fix f f' own own' assume a: "k_files s' f = Some own" "k_files s' f' = Some own'" "f \<noteq> f'"
  have "linked_maps own = [] \<or> (\<exists>o1. k_files s f = Some o1 \<and> set (linked_maps own) \<subseteq> set (linked_maps o1))"
    "linked_maps own' = [] \<or> (\<exists>o1. k_files s f' = Some o1 \<and> set (linked_maps own') \<subseteq> set (linked_maps o1))"
    using assms(2) a by (simp_all add: links_sub_def)
  moreover have "set (linked_maps o1) \<inter> set (linked_maps o2) = {}" if "k_files s f = Some o1" "k_files s f' = Some o2" for o1 o2
    using assms(1) that a(3) unfolding links_ok_def by blast
  ultimately show "set (linked_maps own) \<inter> set (linked_maps own') = {}" by (elim disjE exE conjE) (simp, simp, simp, blast)
qed

lemma links_sub_refl: "links_ok s \<Longrightarrow> links_sub (k_files s) (k_files s)"
  by (auto simp: links_sub_def links_ok_def)

lemma links_sub_upd:
  "links_ok s \<Longrightarrow> k_files s f = Some own \<Longrightarrow> distinct (linked_maps own') \<Longrightarrow> set (linked_maps own') \<subseteq> set (linked_maps own) \<Longrightarrow>
   links_sub (k_files s) ((k_files s)(f \<mapsto> own'))"
  by (auto simp: links_sub_def links_ok_def)

lemma resources_quiet_log:
  assumes "resources_ok s" "k_maps s' = k_maps s" "k_log s' = k_log s @ evs" "\<forall>ev \<in> set evs. is_admin ev \<or> (\<exists>pd. ev = EvReset pd)"
  shows "resources_ok s'"
proof -
  have "log_sum (pin_delta p) evs = 0" "log_sum (buf_delta b) evs = 0" for p b
  proof -
    have "pin_delta p ev = 0" "buf_delta b ev = 0" if "ev \<in> set evs" for ev
      using bspec [OF assms(4) that] by (cases ev; simp)+
    then show "log_sum (pin_delta p) evs = 0" "log_sum (buf_delta b) evs = 0" by (auto intro!: log_sum_0)
  qed
  then show ?thesis using assms(1-3) by (simp add: resources_ok_def accounted_def get_map_def)
qed

lemma mem_inv_frame:
  assumes "mem_inv s" "k_maps s' = k_maps s" "k_next_mid s' = k_next_mid s" "all_lists s' = all_lists s"
    "k_log s' = k_log s @ evs" "\<forall>ev \<in> set evs. is_admin ev \<or> (\<exists>pd. ev = EvReset pd)" "links_sub (k_files s) (k_files s')"
  shows "mem_inv s'"
proof -
  have "set (linked_maps own') \<subseteq> dom (k_maps s)" if "k_files s' f = Some own'" for f own'
  proof -
    have "linked_maps own' = [] \<or> (\<exists>own. k_files s f = Some own \<and> set (linked_maps own') \<subseteq> set (linked_maps own))"
      using assms(7) that by (simp add: links_sub_def)
    moreover have "set (linked_maps own) \<subseteq> dom (k_maps s)" if "k_files s f = Some own" for own
      using assms(1) that by (simp add: mem_inv_def maps_wf_def)
    ultimately show ?thesis by (elim disjE exE conjE) (simp, blast)
  qed
  then have "maps_wf s'" using assms(1-4) unfolding mem_inv_def maps_wf_def by simp
  then show ?thesis
    using links_ok_sub [OF _ assms(7)] resources_quiet_log [OF _ assms(2,5,6)] assms(1) by (simp add: mem_inv_def)
qed

lemma mem_inv_files:
  "mem_inv s \<Longrightarrow> links_sub (k_files s) fl \<Longrightarrow> mem_inv (s\<lparr>k_files := fl\<rparr>)"
  by (rule mem_inv_frame [where evs = "[]"]) (auto simp: all_lists_def)

lemma mem_inv_set_own:
  assumes "mem_inv s" "k_files s f = Some own" "linked_maps (h own) = linked_maps own"
  shows "mem_inv (set_own f h s)"
  unfolding set_own_def get_own_def using assms mem_invD(2) [OF assms(1)]
  by (intro mem_inv_files links_sub_upd) (auto simp: links_ok_def)

lemma mem_inv_set_ctrl [simp]: "mem_inv (set_ctrl c h s) = mem_inv s"
  by (simp add: mem_inv_def maps_wf_def links_ok_def resources_ok_def accounted_def all_lists_def get_map_def)

lemma mem_inv_ida [simp]: "mem_inv (s\<lparr>k_queue_group_ida := ida\<rparr>) = mem_inv s"
  by (simp add: mem_inv_def maps_wf_def links_ok_def resources_ok_def accounted_def all_lists_def get_map_def)

lemma mem_inv_set_map:
  assumes "mem_inv s" "k_maps s m \<noteq> None" "same_resources (get_map s m) (h (get_map s m))"
  shows "mem_inv (set_map m h s)"
proof -
  have "dom (k_maps (set_map m h s)) = dom (k_maps s)" using assms(2) by (auto simp: set_map_def)
  then have "maps_wf (set_map m h s)" using assms(1) by (simp add: mem_inv_def maps_wf_def all_lists_def) (simp add: set_map_def)
  then show ?thesis using resources_retag [of s m h] assms by (simp add: mem_inv_def links_ok_def set_map_def)
qed

lemma linked_unlink_eq: "linked_maps (unlink_group_maps m own) = removeAll m (linked_maps own)"
proof -
  have "concat (map (\<lambda>g. removeAll m (g_maps g)) gs) = removeAll m (concat (map g_maps gs))" for gs
    by (induction gs) simp_all
  then show ?thesis by (simp add: linked_maps_def unlink_group_maps_def comp_def)
qed

lemma mem_inv_unmap:
  assumes "mem_inv s" "k_maps s m \<noteq> None" shows "mem_inv (unmap_and_release m s)"
proof -
  have "links_ok (unmap_and_release m s)"
  proof (rule links_ok_sub [OF mem_invD(2) [OF assms(1)]])
    show "links_sub (k_files s) (k_files (unmap_and_release m s))"
      using mem_invD(2) [OF assms(1)] by (auto simp: links_sub_def links_ok_def linked_unlink_eq distinct_removeAll)
  qed
  then show ?thesis using assms resources_unmap unmap_and_release_wf by (simp add: mem_inv_def)
qed

lemma mem_inv_fold_unmap:
  "mem_inv s \<Longrightarrow> distinct ms \<Longrightarrow> set ms \<subseteq> dom (k_maps s) \<Longrightarrow> mem_inv (fold unmap_and_release ms s)"
proof (induction ms arbitrary: s)
  case (Cons m ms)
  then have "mem_inv (unmap_and_release m s)" by (intro mem_inv_unmap) auto
  moreover have "set ms \<subseteq> dom (k_maps (unmap_and_release m s))" using Cons.prems by auto
  ultimately show ?case using Cons.IH Cons.prems(2) by simp
qed simp

lemma mem_inv_purge: "mem_inv s \<Longrightarrow> mem_inv (snd (map_purge_by_owner l owner s))"
  using mem_invD(1) [of s] maps_wf_distinct [of s l] maps_wf_list_live [of s _ l]
  by (auto simp: map_purge_by_owner_eq Let_def intro!: mem_inv_fold_unmap distinct_filter)

lemma mem_inv_map_pattern:
  assumes "mem_inv s" "gup_ok e" "b \<in> builders" "map_pattern b l psz e c va n s = (r, s')"
  shows "mem_inv s'" "r = Inr m \<Longrightarrow> k_maps s' m \<noteq> None \<and> k_files s' = k_files s \<and> (\<forall>f own. k_files s f = Some own \<longrightarrow> m \<notin> set (linked_maps own))"
proof -
  have w: "maps_wf s'" "resources_ok s'"
    using map_pattern_wf [of b e, OF builders_touching [OF assms(3)] _ assms(4)] resources_map_pattern [OF _ _ assms(2-4)]
      mem_invD [OF assms(1)] by blast+
  have r: "k_maps s' m' \<noteq> None \<and> k_files s' = k_files s \<and> (\<forall>f own. k_files s f = Some own \<longrightarrow> m' \<notin> set (linked_maps own))"
    if r: "r = Inr m'" for m'
  proof -
    obtain md evs where "m' = k_next_mid s"
      "s' = insert_list l m' (s\<lparr>k_next_mid := Suc m', k_maps := (k_maps s)(m' \<mapsto> md), k_log := k_log s @ evs\<rparr>)"
      using map_pattern_ok [of b e, OF builders_touching [OF assms(3)] assms(4) [unfolded r]] by metis
    then show ?thesis using maps_wf_fresh(3) [OF mem_invD(1) [OF assms(1)]] by auto
  qed
  then show "k_maps s' m \<noteq> None \<and> k_files s' = k_files s \<and> (\<forall>f own. k_files s f = Some own \<longrightarrow> m \<notin> set (linked_maps own))"
    if "r = Inr m" using that by blast
  have "k_files s' = k_files s"
  proof (cases r)
    case (Inl err)
    then have "s' = s\<lparr>k_next_mid := k_next_mid s', k_log := k_log s'\<rparr>"
      using map_pattern_fail [of b e, OF builders_touching [OF assms(3)] mem_invD(1) [OF assms(1)]] assms(4) by blast
    then show ?thesis by (rule ssubst) simp
  qed (use r in blast)
  then show "mem_inv s'" using w mem_invD(2) [OF assms(1)] by (simp add: mem_inv_def links_ok_def)
qed

subsection \<open>Attaching and detaching\<close>

definition unlinked :: "mid \<Rightarrow> kst \<Rightarrow> bool" where
  "unlinked m s \<longleftrightarrow> k_maps s m \<noteq> None \<and> (\<forall>f own. k_files s f = Some own \<longrightarrow> m \<notin> set (linked_maps own))"

lemma mem_inv_link:
  assumes "mem_inv s" "unlinked m s" "k_files s f = Some own" "set (linked_maps own') = insert m (set (linked_maps own))"
    "distinct (linked_maps own')"
  shows "mem_inv (s\<lparr>k_files := (k_files s)(f \<mapsto> own')\<rparr>)"
proof -
  have "links_ok (s\<lparr>k_files := (k_files s)(f \<mapsto> own')\<rparr>)"
    using mem_invD(2) [OF assms(1)] assms(2-5) unfolding links_ok_def unlinked_def by auto
  moreover have "maps_wf (s\<lparr>k_files := (k_files s)(f \<mapsto> own')\<rparr>)"
    using mem_invD(1) [OF assms(1)] assms(2-4) unfolding maps_wf_def unlinked_def by (auto simp: all_lists_def)
  ultimately show ?thesis using mem_invD(3) [OF assms(1)]
    by (simp add: mem_inv_def resources_ok_def accounted_def get_map_def)
qed

lemma attach_scoped_mem:
  assumes "mem_inv s" "unlinked m s" "attach_scoped f req m s = (rc, s')" "\<And>own. k_files s f = Some own \<Longrightarrow> file_wf own"
  shows "mem_inv s'" "rc = 0 \<Longrightarrow> k_maps s' m \<noteq> None"
proof -
  have "mem_inv s' \<and> (rc = 0 \<longrightarrow> k_maps s' m \<noteq> None)"
  proof (cases "s' = s \<or> rc \<noteq> 0 \<and> s' = unmap_and_release m s")
    case True
    then show ?thesis using assms(1,2) mem_inv_unmap by (auto simp: unlinked_def)
  next
    case False
    then obtain own where own: "k_files s f = Some own"
      and r: "s' = data_map_add f m s \<or>
        (\<exists>g. find_qgroup_locked (Some own) (rq_group_id req) = Some g \<and> s' = group_map_add f (rq_group_id req) m s)"
      using assms(3) by (auto simp: attach_scoped_def split: if_splits option.splits)
    have d: "distinct (linked_maps own)" "m \<notin> set (linked_maps own)" "k_maps s m \<noteq> None"
      using mem_invD(2) [OF assms(1)] assms(2) own unfolding links_ok_def unlinked_def by blast+
    from r show ?thesis
    proof
      assume s': "s' = data_map_add f m s"
      have "mem_inv (s\<lparr>k_files := (k_files s)(f \<mapsto> own\<lparr>own_data_maps := own_data_maps own @ [m], own_nr_data_maps := own_nr_data_maps own + 1\<rparr>)\<rparr>)"
        by (rule mem_inv_link [OF assms(1,2) own]) (use d in \<open>auto simp: linked_maps_def\<close>)
      then show ?thesis using d own by (simp add: s' data_map_add_def set_own_def get_own_def)
    next
      assume "\<exists>g. find_qgroup_locked (Some own) (rq_group_id req) = Some g \<and> s' = group_map_add f (rq_group_id req) m s"
      then obtain g where g: "own_groups own = [g]" "g_group_id g = rq_group_id req" and s': "s' = group_map_add f (rq_group_id req) m s"
        using file_wf_find [OF assms(4) [OF own]] by blast
      let ?s = "set_map m (map_group_id_update (\<lambda>_. rq_group_id req)) s"
      have i: "mem_inv ?s" by (rule mem_inv_set_map [OF assms(1) d(3)]) (simp add: same_resources_def)
      have u: "unlinked m ?s" using assms(2) by (simp add: unlinked_def set_map_def)
      have o: "k_files ?s f = Some own" using own by (simp add: set_map_def)
      let ?own' = "own\<lparr>own_groups := [g\<lparr>g_maps := g_maps g @ [m], g_nr_maps := g_nr_maps g + 1\<rparr>]\<rparr>"
      have "mem_inv (?s\<lparr>k_files := (k_files ?s)(f \<mapsto> ?own')\<rparr>)"
        by (rule mem_inv_link [OF i u o]) (use d g in \<open>auto simp: linked_maps_def\<close>)
      moreover have "s' = ?s\<lparr>k_files := (k_files ?s)(f \<mapsto> ?own')\<rparr>"
        using g o by (simp add: s' group_map_add_def set_group_def set_own_def get_own_def)
      ultimately show ?thesis by (simp add: set_map_def)
    qed
  qed
  then show "mem_inv s'" "rc = 0 \<Longrightarrow> k_maps s' m \<noteq> None" by simp_all
qed

lemma linked_group_counts [simp]:
  "linked_maps (own\<lparr>own_groups := map (\<lambda>g. if P g then g\<lparr>g_nr_maps := h g\<rparr> else g) (own_groups own)\<rparr>) = linked_maps own"
  "linked_maps (own\<lparr>own_nr_data_maps := n\<rparr>) = linked_maps own" "linked_maps (own\<lparr>own_nr_groups := n'\<rparr>) = linked_maps own"
proof -
  have "(\<lambda>g. g_maps (if P g then g\<lparr>g_nr_maps := h g\<rparr> else g)) = g_maps" by auto
  then show "linked_maps (own\<lparr>own_groups := map (\<lambda>g. if P g then g\<lparr>g_nr_maps := h g\<rparr> else g) (own_groups own)\<rparr>) = linked_maps own"
    "linked_maps (own\<lparr>own_nr_data_maps := n\<rparr>) = linked_maps own" "linked_maps (own\<lparr>own_nr_groups := n'\<rparr>) = linked_maps own"
    by (simp_all add: linked_maps_def comp_def)
qed

lemma counts_mem:
  "mem_inv s \<Longrightarrow> mem_inv (detach_scoped f req s)" "k_maps (detach_scoped f req s) = k_maps s"
  "mem_inv s \<Longrightarrow> mem_inv (unmap_counts f md s)" "k_maps (unmap_counts f md s) = k_maps s"
  by (auto simp: detach_scoped_def unmap_counts_def set_group_def split: option.splits intro!: mem_inv_set_own)

lemma ioq_mem [simp]:
  "mem_inv (ioq_account c q s) = mem_inv s" "mem_inv (ioq_unaccount c q s) = mem_inv s"
  "k_maps (ioq_account c q s) = k_maps s" "k_maps (ioq_unaccount c q s) = k_maps s"
  by (simp_all add: ioq_account_def ioq_unaccount_def)

lemma attach_legacy_mem:
  assumes "mem_inv s" "k_maps s m \<noteq> None" "attach_legacy c req m s = (rc, s')"
  shows "mem_inv s'" "rc = 0 \<Longrightarrow> k_maps s' m \<noteq> None"
proof -
  have "mem_inv (set_map m (\<lambda>md. md\<lparr>map_ioq_idx := rq_ioq_idx req, map_is_cq := rq_is_cq req\<rparr>) s)"
    by (rule mem_inv_set_map [OF assms(1,2)]) (simp add: same_resources_def)
  then show "mem_inv s'" "rc = 0 \<Longrightarrow> k_maps s' m \<noteq> None"
    using assms mem_inv_unmap by (auto simp: attach_legacy_def set_map_def split: if_splits)
qed

subsection \<open>The requests\<close>

lemma map_host_mem:
  assumes "mem_inv s" "gup_ok e" "nvm_map_host_memory e c f req s = (rc, out, s')" "\<And>own. k_files s f = Some own \<Longrightarrow> file_wf own"
  shows "mem_inv s'"
proof -
  obtain r s1 where p: "map_userspace e (get_ctrl s c) (rq_vaddr_start req) (rq_n_pages req) s = (r, s1)" by fastforce
  have b: "map_user_pages \<in> builders" by (simp add: builders_def)
  note m1 = mem_inv_map_pattern [OF assms(1,2) b p [unfolded map_patterns]]
  show ?thesis
  proof (cases "copy_from_user_ok e \<and> \<not> map_request_bad req")
    case False
    then show ?thesis using assms(1,3) by (auto simp: nvm_map_host_memory_def split: if_splits)
  next
    case T: True
    show ?thesis
    proof (cases r)
      case (Inl err)
      then show ?thesis using assms(3) p m1(1) T by (simp add: nvm_map_host_memory_def)
    next
      case (Inr m)
      let ?s2 = "set_map m (map_kind_update (\<lambda>_. rq_map_kind req)) s1"
      have u: "k_maps s1 m \<noteq> None" "k_files s1 = k_files s" "unlinked m ?s2" using m1(2) [OF Inr] by (auto simp: unlinked_def set_map_def)
      have i2: "mem_inv ?s2" by (rule mem_inv_set_map [OF m1(1) u(1)]) (simp add: same_resources_def)
      obtain rc3 s3 where a: "(if is_legacy req then attach_legacy c req m ?s2 else attach_scoped f req m ?s2) = (rc3, s3)" by fastforce
      have i3: "mem_inv s3" "rc3 = 0 \<Longrightarrow> k_maps s3 m \<noteq> None"
        using a attach_legacy_mem [OF i2, of m c req rc3 s3] attach_scoped_mem [OF i2 u(3), of f req rc3 s3] assms(4) u(2,3)
        by (auto simp: unlinked_def set_map_def split: if_splits)
      have "s' = s3 \<or> rc3 = 0 \<and> s' = unmap_and_release m (if is_legacy req then ioq_unaccount c (map_is_cq (get_map s3 m) \<noteq> 0) s3 else detach_scoped f req s3)"
        using assms(3) p T a Inr by (simp add: nvm_map_host_memory_def Let_def split: if_splits)
      then show ?thesis using i3 by (auto simp: counts_mem intro!: mem_inv_unmap)
    qed
  qed
qed

lemma map_device_mem:
  assumes "mem_inv s" "gup_ok e" "nvm_map_device_memory e c f req s = (rc, out, s')" "\<And>own. k_files s f = Some own \<Longrightarrow> file_wf own"
  shows "mem_inv s'"
proof -
  obtain r s1 where p: "map_device_memory e (get_ctrl s c) (rq_vaddr_start req) (rq_n_pages req) s = (r, s1)" by fastforce
  have b: "map_gpu_memory \<in> builders" by (simp add: builders_def)
  note m1 = mem_inv_map_pattern [OF assms(1,2) b p [unfolded map_patterns]]
  show ?thesis
  proof (cases r)
    case (Inl err)
    then show ?thesis using assms(1,3) p m1(1) by (auto simp: nvm_map_device_memory_def split: if_splits)
  next
    case (Inr m)
    let ?s2 = "set_map m (map_kind_update (\<lambda>_. rq_map_kind req)) s1"
    have u: "k_maps s1 m \<noteq> None" "k_files ?s2 = k_files s" "unlinked m ?s2" using m1(2) [OF Inr] by (auto simp: unlinked_def set_map_def)
    have i2: "mem_inv ?s2" by (rule mem_inv_set_map [OF m1(1) u(1)]) (simp add: same_resources_def)
    obtain rc3 s3 where a: "attach_scoped f req m ?s2 = (rc3, s3)" by fastforce
    have i3: "mem_inv s3" "rc3 = 0 \<Longrightarrow> k_maps s3 m \<noteq> None"
      using attach_scoped_mem [OF i2 u(3) a] assms(4) u(2) by simp_all
    then have "mem_inv (unmap_and_release m (detach_scoped f req s3))" if "rc3 = 0"
      using that by (intro mem_inv_unmap) (simp_all add: counts_mem)
    then show ?thesis using assms(1,3) p a Inr i3 by (auto simp: nvm_map_device_memory_def split: if_splits)
  qed
qed

lemma map_device_queue_mem:
  assumes "mem_inv s" "gup_ok e" "nvm_map_device_queue_memory e c f req s = (rc, out, s')"
  shows "mem_inv s'"
proof -
  obtain r s1 where p: "map_device_ioqueue_memory e (get_ctrl s c) (rq_vaddr_start req) (rq_n_pages req) s = (r, s1)" by fastforce
  have b: "map_gpu_ioqueue_memory \<in> builders" by (simp add: builders_def)
  note m1 = mem_inv_map_pattern [OF assms(1,2) b p [unfolded map_patterns]]
  show ?thesis
  proof (cases r)
    case (Inl err)
    then show ?thesis using assms(1,3) p m1(1) by (auto simp: nvm_map_device_queue_memory_def split: if_splits)
  next
    case (Inr m)
    obtain rc3 s3 where a: "attach_legacy c req m s1 = (rc3, s3)" by fastforce
    have "k_maps s1 m \<noteq> None" using m1(2) [OF Inr] by blast
    note i3 = attach_legacy_mem [OF m1(1) this a]
    then have "mem_inv (unmap_and_release m (ioq_unaccount c q s3))" if "rc3 = 0" for q
      using that by (intro mem_inv_unmap) simp_all
    then show ?thesis using assms(1,3) p a Inr i3 by (auto simp: nvm_map_device_queue_memory_def split: if_splits)
  qed
qed

lemma unmap_requests_mem:
  assumes "mem_inv s"
  shows "nvm_unmap_host_memory e c f va s = (rc, s') \<Longrightarrow> mem_inv s'" "nvm_unmap_device_memory e c f va s = (rc, s') \<Longrightarrow> mem_inv s'"
    "nvm_unmap_device_queue_memory e c va s = (rc, s') \<Longrightarrow> mem_inv s'"
proof -
  have l: "k_maps s m \<noteq> None" if "map_find e l va s = Some m" for l m
  proof -
    have "m \<in> set (get_list l s)" using that by (auto simp: map_find_def find_Some_iff)
    then show ?thesis by (rule maps_wf_list_live [OF mem_invD(1) [OF assms]])
  qed
  show "nvm_unmap_host_memory e c f va s = (rc, s') \<Longrightarrow> mem_inv s'" "nvm_unmap_device_memory e c f va s = (rc, s') \<Longrightarrow> mem_inv s'"
    "nvm_unmap_device_queue_memory e c va s = (rc, s') \<Longrightarrow> mem_inv s'"
    using assms l
    by (auto simp: nvm_unmap_host_memory_def nvm_unmap_device_memory_def nvm_unmap_device_queue_memory_def Let_def counts_mem
        split: if_splits option.splits intro!: mem_inv_unmap)
qed

lemma setup_requests_mem:
  assumes "mem_inv s"
  shows "nvm_set_ioq_num e c st s = (rc, s') \<Longrightarrow> mem_inv s'" "nvm_set_share_reg e c req s = (rc, s') \<Longrightarrow> mem_inv s'"
    "nvm_clear_ioq_num c s = (rc, s') \<Longrightarrow> mem_inv s'" "nvm_set_kernel_ioq_cap e c cap s = (rc, s') \<Longrightarrow> mem_inv s'"
  using assms
  by (auto simp: nvm_set_ioq_num_def nvm_set_share_reg_def nvm_clear_ioq_num_def nvm_set_kernel_ioq_cap_def split: if_splits)

lemma admin_events_quiet: "admin_events e pd evs \<Longrightarrow> \<forall>ev \<in> set evs. is_admin ev \<or> (\<exists>pd. ev = EvReset pd)"
  by (auto simp: admin_events_def)

lemma destroy_mem:
  assumes "mem_inv s" "k_ctrls s c = Some ct" "distinct (g_maps g)" "set (g_maps g) \<subseteq> dom (k_maps s)"
  shows "mem_inv (destroy_qgroup_locked e (Some g) (Some c) s)"
proof -
  obtain dels where d: "destroy_qgroup_locked e (Some g) (Some c) s =
       (fold unmap_and_release (g_maps g)
          (s\<lparr>k_ctrls := (k_ctrls s)(c \<mapsto> ct\<lparr>ctrl_pool := free_qids (rev (alive_qids (g_queues g))) (ctrl_pool ct)\<rparr>),
             k_log := k_log s @ dels\<rparr>))
       \<lparr>k_queue_group_ida := k_queue_group_ida s - {unat (g_group_id g)}\<rparr>"
    "case live_pdev (Some c) s of None \<Rightarrow> dels = []
     | Some pd \<Rightarrow> admin_events e pd dels \<and> map ev_cmd dels = map Some (delete_cmds (rev (alive_qids (g_queues g))))"
    using destroy_qgroup_effect [OF assms(2)] .
  let ?t = "s\<lparr>k_ctrls := (k_ctrls s)(c \<mapsto> ct\<lparr>ctrl_pool := free_qids (rev (alive_qids (g_queues g))) (ctrl_pool ct)\<rparr>),
             k_log := k_log s @ dels\<rparr>"
  have "\<forall>ev \<in> set dels. is_admin ev \<or> (\<exists>pd. ev = EvReset pd)" using d(2) admin_events_quiet by (auto split: option.splits)
  then have "mem_inv ?t"
    by (intro mem_inv_frame [OF assms(1), where evs = dels]) (simp_all add: all_lists_def links_sub_refl [OF mem_invD(2) [OF assms(1)]])
  then have "mem_inv (fold unmap_and_release (g_maps g) ?t)" using assms(3,4) by (intro mem_inv_fold_unmap) simp_all
  then show ?thesis unfolding d(1) by simp
qed

lemma mem_inv_drop_group:
  assumes "mem_inv s" "k_files s f = Some own" "own_groups own = [g]" "k_ctrls s c = Some ct"
  shows "mem_inv (destroy_qgroup_locked e (Some g) (Some c) (s\<lparr>k_files := (k_files s)(f \<mapsto> own\<lparr>own_groups := [], own_nr_groups := n\<rparr>)\<rparr>))"
proof -
  have d: "distinct (linked_maps own)" "set (linked_maps own) \<subseteq> dom (k_maps s)"
    using mem_invD(1,2) [OF assms(1)] assms(2) unfolding links_ok_def maps_wf_def by blast+
  then have g: "distinct (g_maps g)" "set (g_maps g) \<subseteq> dom (k_maps s)" using assms(3) by (auto simp: linked_maps_def)
  have "mem_inv (s\<lparr>k_files := (k_files s)(f \<mapsto> own\<lparr>own_groups := [], own_nr_groups := n\<rparr>)\<rparr>)"
    using mem_invD(2) [OF assms(1)] assms(2,3) d by (intro mem_inv_files [OF assms(1)] links_sub_upd) (auto simp: linked_maps_def)
  then show ?thesis by (rule destroy_mem) (use assms(4) g in simp_all)
qed

lemma destroy_request_mem:
  assumes "mem_inv s" "k_files s f = Some own" "file_wf own" "k_ctrls s c = Some ct" "nvm_destroy_queue_group e c f gid s = (rc, s')"
  shows "mem_inv s'"
proof (cases "s' = s")
  case False
  then obtain g where g: "find_qgroup_locked (Some own) gid = Some g" and s': "s' = destroy_qgroup_locked e (Some g) (Some c)
      (set_own f (\<lambda>own. own\<lparr>own_groups := remove1 g (own_groups own), own_nr_groups := own_nr_groups own - 1\<rparr>) s)"
    using assms(2,5) by (auto simp: nvm_destroy_queue_group_def split: if_splits option.splits)
  note fg = file_wf_find [OF assms(3) g]
  show ?thesis using mem_inv_drop_group [OF assms(1,2) fg(1) assms(4), of e "own_nr_groups own - 1"] assms(2) fg(1)
    by (simp add: s' set_own_def get_own_def)
qed (use assms(1) in simp)

lemma create_request_mem:
  assumes "mem_inv s" "k_files s f = Some own" "k_ctrls s c = Some ct" "nvm_create_queue_group e c f req s = (rc, out, s')"
  shows "mem_inv s'"
proof (cases "s' = s")
  case False
  let ?id = "ida_simple_get e (k_queue_group_ida s) 1"
  let ?g = "new_qgroup (of_int ?id)"
  let ?s1 = "s\<lparr>k_queue_group_ida := insert (nat ?id) (k_queue_group_ida s)\<rparr>"
  let ?s2 = "set_own f (\<lambda>own. own\<lparr>own_groups := own_groups own @ [?g], own_nr_groups := own_nr_groups own + 1\<rparr>) ?s1"
  let ?s3 = "set_own f (\<lambda>own. own\<lparr>own_groups := remove1 ?g (own_groups own), own_nr_groups := own_nr_groups own - 1\<rparr>) ?s2"
  have r: "s' = ?s2 \<or> s' = destroy_qgroup_locked e (Some ?g) (Some c) ?s3"
    using assms(2,4) False by (auto simp: nvm_create_queue_group_def Let_def split: if_splits)
  have g: "g_maps ?g = []" by (simp add: new_qgroup_def)
  have rm: "concat (map g_maps (remove1 ?g gs)) = concat (map g_maps gs)" for gs using g by (induction gs) auto
  have i1: "mem_inv ?s1" using assms(1) by simp
  have i2: "mem_inv ?s2" by (rule mem_inv_set_own [OF i1]) (use assms(2) g in \<open>simp_all add: linked_maps_def\<close>)
  have "k_files ?s2 f = Some (own\<lparr>own_groups := own_groups own @ [?g], own_nr_groups := own_nr_groups own + 1\<rparr>)"
    using assms(2) by (simp add: set_own_def get_own_def)
  then have i3: "mem_inv ?s3" by (rule mem_inv_set_own [OF i2]) (simp add: linked_maps_def rm del: One_nat_def)
  have "mem_inv (destroy_qgroup_locked e (Some ?g) (Some c) ?s3)"
    by (rule destroy_mem [OF i3]) (use assms(3) g in \<open>simp_all add: set_own_def\<close>)
  then show ?thesis using r i2 by blast
qed (use assms(1) in simp)

lemma add_request_mem:
  assumes "mem_inv s" "k_files s f = Some own" "file_wf own" "k_ctrls s c = Some ct" "pool_ok (ctrl_pool ct)"
    "ndev_ok (snvm_ctrl_get_live_ndev (Some c) s)" "length (aq_pairs req) = 16" "nvm_add_user_queue e c f req s = (rc, outs, s')"
  shows "mem_inv s'"
proof -
  obtain cqs sqs where dq: "dev_queues (ctrl_pdev ct) (k_log s) = (cqs, sqs)" by fastforce
  have "\<exists>own' p' evs. s' = s\<lparr>k_files := (k_files s)(f \<mapsto> own'), k_ctrls := (k_ctrls s)(c \<mapsto> ct\<lparr>ctrl_pool := p'\<rparr>),
       k_log := k_log s @ evs\<rparr> \<and> linked_maps own' = linked_maps own \<and> admin_events e (ctrl_pdev ct) evs"
  proof (cases "rc = 0")
    case True
    from add_user_queue_ok_effect [OF assms(2-7) assms(8) [unfolded True] dq]
    obtain g g' p' evs where r: "own_groups own = [g]" "g_maps g' = g_maps g" "admin_events e (ctrl_pdev ct) evs"
      "s' = s\<lparr>k_files := (k_files s)(f \<mapsto> own\<lparr>own_groups := [g']\<rparr>), k_ctrls := (k_ctrls s)(c \<mapsto> ct\<lparr>ctrl_pool := p'\<rparr>),
           k_log := k_log s @ evs\<rparr>" by blast
    then show ?thesis by (intro exI [of _ "own\<lparr>own_groups := [g']\<rparr>"] exI [of _ p'] exI [of _ evs]) (simp add: linked_maps_def)
  next
    case False
    from add_user_queue_fail_effect [OF assms(2-8) False]
    obtain own' p1 evs where r: "s' = s\<lparr>k_files := (k_files s)(f \<mapsto> own'), k_ctrls := (k_ctrls s)(c \<mapsto> ct\<lparr>ctrl_pool := p1\<rparr>),
         k_log := k_log s @ evs\<rparr>" "file_view own' = file_view own" "admin_events e (ctrl_pdev ct) evs" by blast
    have lv: "linked_maps (file_view own) = linked_maps own" for own by (simp add: file_view_def linked_maps_def comp_def)
    have "linked_maps own' = linked_maps own" using arg_cong [OF r(2), of linked_maps] unfolding lv .
    then show ?thesis using r(1,3) by blast
  qed
  then obtain own' p' evs where r: "s' = s\<lparr>k_files := (k_files s)(f \<mapsto> own'), k_ctrls := (k_ctrls s)(c \<mapsto> ct\<lparr>ctrl_pool := p'\<rparr>),
       k_log := k_log s @ evs\<rparr>" "linked_maps own' = linked_maps own" "admin_events e (ctrl_pdev ct) evs" by blast
  have "distinct (linked_maps own)" using mem_invD(2) [OF assms(1)] assms(2) unfolding links_ok_def by blast
  then have ls: "links_sub (k_files s) (k_files s')"
    unfolding r(1) using links_sub_upd [OF mem_invD(2) [OF assms(1)] assms(2), of own'] r(2) by simp
  show ?thesis
    by (rule mem_inv_frame [OF assms(1) _ _ _ _ admin_events_quiet [OF r(3)] ls]) (simp_all add: r(1) all_lists_def)
qed

end
