(* ===== verification/System_Invariant.thy ===== *)
theory System_Invariant
  imports System_Memory
begin

text \<open>
  The module as a transition system: a state is reachable when the module was loaded with no device bound to it and
  any sequence of opens, requests, releases, control requests and controller resets followed, by any number of
  files on any number of controllers, as long as no controller record is removed under an open file. Each system call is one step, as the locks of \<open>pci.c\<close> order them. The theory
  states what holds in every reachable state: who owns which QID, what the hardware holds, and what memory is held.
\<close>

subsection \<open>Who owns which queue\<close>

definition own_qids :: "snvm_dev_owner \<Rightarrow> u16 list" where
  "own_qids own = concat (map (\<lambda>g. alive_qids (g_queues g)) (own_groups own))"

definition own_gids :: "snvm_dev_owner \<Rightarrow> u32 list" where
  "own_gids own = map g_group_id (own_groups own)"

lemma own_core_sel [simp]:
  "own_ctrl (own_core own) = own_ctrl own" "own_gids (own_core own) = own_gids own"
  "own_qids (own_core own) = own_qids own" "file_wf (own_core own) = file_wf own"
  by (auto simp: own_gids_def own_qids_def own_core_def group_core_def file_wf_def group_wf_def comp_def)

text \<open>The live QIDs of a controller's files.\<close>

definition qids_of :: "snvm_dev_owner option \<Rightarrow> cid \<Rightarrow> u16 set" where
  "qids_of oo c = (case oo of None \<Rightarrow> {} | Some own \<Rightarrow> if own_ctrl own = c then set (own_qids own) else {})"

definition held :: "(fid \<rightharpoonup> snvm_dev_owner) \<Rightarrow> cid \<Rightarrow> u16 set" where
  "held F c = (\<Union>f. qids_of (F f) c)"

lemma held_fun_upd: "held (F(f := oo)) c = qids_of oo c \<union> (\<Union>f' \<in> - {f}. qids_of (F f') c)"
proof -
  have "held (F(f := oo)) c = (\<Union>f' \<in> insert f (- {f}). qids_of ((F(f := oo)) f') c)"
    unfolding held_def by (rule SUP_cong) auto
  also have "\<dots> = qids_of oo c \<union> (\<Union>f' \<in> - {f}. qids_of (F f') c)" by simp
  finally show ?thesis .
qed

lemma held_split: "held F c = qids_of (F f) c \<union> (\<Union>f' \<in> - {f}. qids_of (F f') c)"
  using held_fun_upd [of F f "F f" c] by simp

lemma held_same: "qids_of oo c = qids_of (F f) c \<Longrightarrow> held (F(f := oo)) c = held F c"
  unfolding held_fun_upd held_split [of F c f] by simp

definition queues_ok :: "(fid \<rightharpoonup> snvm_dev_owner) \<Rightarrow> (cid \<rightharpoonup> pdev \<times> qid_pool) \<Rightarrow> bool" where
  "queues_ok F C \<longleftrightarrow>
     (\<forall>f o'. F f = Some o' \<longrightarrow> file_wf o' \<and> distinct (own_qids o') \<and> C (own_ctrl o') \<noteq> None) \<and>
     (\<forall>f f' o' o''. F f = Some o' \<longrightarrow> F f' = Some o'' \<longrightarrow> f \<noteq> f' \<longrightarrow> own_ctrl o' = own_ctrl o'' \<longrightarrow>
        set (own_qids o') \<inter> set (own_qids o'') = {}) \<and>
     (\<forall>c pd p. C c = Some (pd, p) \<longrightarrow> pool_ok p \<and> pool_used p = held F c)"

definition ids_ok :: "(fid \<rightharpoonup> snvm_dev_owner) \<Rightarrow> nat set \<Rightarrow> bool" where
  "ids_ok F ida \<longleftrightarrow> (\<forall>f o' i. F f = Some o' \<longrightarrow> i \<in> set (own_gids o') \<longrightarrow> unat i \<in> ida) \<and>
     (\<forall>f f' o' o''. F f = Some o' \<longrightarrow> F f' = Some o'' \<longrightarrow> f \<noteq> f' \<longrightarrow> set (own_gids o') \<inter> set (own_gids o'') = {})"

definition ctrls_ok :: "(cid \<rightharpoonup> pdev \<times> qid_pool) \<Rightarrow> cid list \<Rightarrow> cid \<Rightarrow> bool" where
  "ctrls_ok C cl n \<longleftrightarrow> distinct cl \<and> set cl = dom C \<and> (\<forall>c \<in> dom C. c < n) \<and>
     (\<forall>c c' pd p p'. C c = Some (pd, p) \<longrightarrow> C c' = Some (pd, p') \<longrightarrow> c = c')"

definition pci_ok :: "(pdev \<rightharpoonup> pci_device) \<Rightarrow> bool" where
  "pci_ok P \<longleftrightarrow> (\<forall>pd d. P pd = Some d \<longrightarrow> ndev_ok (pci_drvdata d))"

definition queue_inv :: "kst \<Rightarrow> bool" where
  "queue_inv s \<longleftrightarrow> queues_ok (files_core s) (ctrls_core s) \<and> ids_ok (files_core s) (k_queue_group_ida s) \<and>
     ctrls_ok (ctrls_core s) (k_ctrl_list s) (k_next_cid s) \<and> pci_ok (k_pci s)"

lemma queue_inv_core: "core s' = core s \<Longrightarrow> queue_inv s' = queue_inv s"
  by (simp add: queue_inv_def core_def)

text \<open>The one lemma behind every request on groups: file \<open>f\<close> and the pool of its controller change together.\<close>

lemma others_disjoint:
  assumes "queues_ok F C" "F f = Some o'"
  shows "set (own_qids o') \<inter> (\<Union>f' \<in> - {f}. qids_of (F f') (own_ctrl o')) = {}"
proof -
  have "set (own_qids o') \<inter> qids_of (F f') (own_ctrl o') = {}" if "f' \<noteq> f" for f'
  proof (cases "F f'")
    case (Some o1)
    then have "own_ctrl o1 = own_ctrl o' \<Longrightarrow> set (own_qids o') \<inter> set (own_qids o1) = {}"
      using assms that unfolding queues_ok_def by metis
    then show ?thesis using Some by (simp add: qids_of_def)
  qed (simp add: qids_of_def)
  then show ?thesis by auto
qed

lemma held_upd:
  assumes "queues_ok F C" "F f = Some o'" "own_ctrl o'' = own_ctrl o'"
  shows "held (F(f \<mapsto> o'')) c = (if c = own_ctrl o' then (held F c - set (own_qids o')) \<union> set (own_qids o'') else held F c)"
proof (cases "c = own_ctrl o'")
  case True
  then show ?thesis using others_disjoint [OF assms(1,2)] assms(2,3)
    unfolding held_fun_upd held_split [of F c f] by (auto simp: qids_of_def)
next
  case False
  then show ?thesis using assms(2,3) by (simp add: held_same qids_of_def)
qed

lemma queues_ok_upd:
  assumes "queues_ok F C" "F f = Some o'" "own_ctrl o'' = own_ctrl o'" "C (own_ctrl o') = Some (pd, p)"
    "file_wf o''" "distinct (own_qids o'')" "pool_ok p'"
    "pool_used p' = (pool_used p - set (own_qids o')) \<union> set (own_qids o'')"
    "set (own_qids o'') \<inter> (pool_used p - set (own_qids o')) = {}"
  shows "queues_ok (F(f \<mapsto> o'')) (C(own_ctrl o' \<mapsto> (pd', p')))"
proof -
  note h = held_upd [OF assms(1,2,3)]
  have u: "pool_used p = held F (own_ctrl o')" using assms(1,4) by (simp add: queues_ok_def)
  have dis: "set (own_qids o'') \<inter> set (own_qids o1) = {}" if "F f1 = Some o1" "f1 \<noteq> f" "own_ctrl o1 = own_ctrl o'" for f1 o1
  proof -
    have "set (own_qids o1) \<subseteq> held F (own_ctrl o')" using that held_split [of F _ f1] by (simp add: qids_of_def)
    moreover have "set (own_qids o1) \<inter> set (own_qids o') = {}" using assms(1,2) that unfolding queues_ok_def by metis
    ultimately show ?thesis using assms(9) unfolding u by blast
  qed
  show ?thesis unfolding queues_ok_def
  proof (intro conjI allI impI)
    fix f1 o1 assume "(F(f \<mapsto> o'')) f1 = Some o1"
    then show "file_wf o1" "distinct (own_qids o1)" "(C(own_ctrl o' \<mapsto> (pd', p'))) (own_ctrl o1) \<noteq> None"
      using assms(1,3,5,6) by (auto simp: queues_ok_def split: if_splits)
  next
    fix f1 f2 o1 o2 assume a: "(F(f \<mapsto> o'')) f1 = Some o1" "(F(f \<mapsto> o'')) f2 = Some o2" "f1 \<noteq> f2" "own_ctrl o1 = own_ctrl o2"
    consider "f1 = f" | "f2 = f" | "f1 \<noteq> f" "f2 \<noteq> f" by blast
    then show "set (own_qids o1) \<inter> set (own_qids o2) = {}"
    proof cases
      case 1 then show ?thesis using a assms(3) dis [of f2 o2] by auto
    next
      case 2 then show ?thesis using a assms(3) dis [of f1 o1] by auto
    next
      case 3 then show ?thesis using a assms(1) unfolding queues_ok_def by (metis fun_upd_other)
    qed
  next
    fix c pd1 p1 assume c: "(C(own_ctrl o' \<mapsto> (pd', p'))) c = Some (pd1, p1)"
    show "pool_ok p1" using c assms(1,7) unfolding queues_ok_def by (auto split: if_splits)
    show "pool_used p1 = held (F(f \<mapsto> o'')) c"
      using c assms(1,8) u unfolding h queues_ok_def by (auto split: if_splits)
  qed
qed

lemma held_remove:
  assumes "F f = Some o'" "own_qids o' = []" shows "held (F(f := None)) c = held F c"
  using assms by (intro held_same) (simp add: qids_of_def)

lemma queues_ok_close:
  assumes "queues_ok F C" "F f = Some o'" "own_qids o' = []" shows "queues_ok (F(f := None)) C"
  using assms(1) held_remove [of F f o'] assms(2,3) unfolding queues_ok_def by (auto split: if_splits)

lemma queues_ok_open:
  assumes "queues_ok F C" "F f = None" "own_qids o' = []" "file_wf o'" "C (own_ctrl o') \<noteq> None"
  shows "queues_ok (F(f \<mapsto> o')) C"
proof -
  have "held (F(f \<mapsto> o')) c = held F c" for c using assms(2,3) by (intro held_same) (simp add: qids_of_def)
  then show ?thesis using assms unfolding queues_ok_def by (auto split: if_splits)
qed

subsection \<open>What the hardware holds\<close>

definition pci_live :: "(pdev \<rightharpoonup> pci_device) \<Rightarrow> pdev \<Rightarrow> bool" where
  "pci_live P pd \<longleftrightarrow> (case P pd of None \<Rightarrow> False
     | Some d \<Rightarrow> pci_driver d = Some PCI_DRIVER_NAME \<and> (case pci_drvdata d of None \<Rightarrow> False | Some nd \<Rightarrow> nd_admin_q nd))"

lemma live_ndev_pci: "snvm_ctrl_get_live_ndev (Some c) s \<noteq> None \<longleftrightarrow> pci_live (k_pci s) (ctrl_pdev (get_ctrl s c))"
  by (auto simp: snvm_ctrl_get_live_ndev_def pci_live_def split: option.splits)

lemma live_ndev_ok: "pci_ok (k_pci s) \<Longrightarrow> ndev_ok (snvm_ctrl_get_live_ndev (Some c) s)"
  by (auto simp: snvm_ctrl_get_live_ndev_def pci_ok_def ndev_ok_def split: option.splits)

text \<open>The bring-up of this driver on the device creates user queues on rings registered before the bind
  (\<open>use_user_allocated\<close>, set by \<open>nvme_probe\<close>).\<close>

definition pre_registered :: "(pdev \<rightharpoonup> pci_device) \<Rightarrow> pdev \<Rightarrow> bool" where
  "pre_registered P pd \<longleftrightarrow> (case P pd of None \<Rightarrow> False
     | Some d \<Rightarrow> pci_driver d = Some PCI_DRIVER_NAME \<and> (case pci_drvdata d of None \<Rightarrow> False | Some nd \<Rightarrow> nd_use_user_allocated nd))"

text \<open>On every other controller completion and submission queues come in pairs; it holds queues only while this driver
  runs it, and then only queues whose QIDs are allocated in the pool of its controller record.\<close>

definition hw_ok :: "(cid \<rightharpoonup> pdev \<times> qid_pool) \<Rightarrow> (pdev \<rightharpoonup> pci_device) \<Rightarrow> (pdev \<Rightarrow> u16 set \<times> u16 set) \<Rightarrow> bool" where
  "hw_ok C P H \<longleftrightarrow> (\<forall>pd. \<not> pre_registered P pd \<longrightarrow> (\<exists>Q. H pd = (Q, Q) \<and>
     (Q \<noteq> {} \<longrightarrow> pci_live P pd \<and> (\<exists>c p. C c = Some (pd, p) \<and> Q \<subseteq> pool_used p))))"

definition hw_inv :: "kst \<Rightarrow> bool" where
  "hw_inv s \<longleftrightarrow> hw_ok (ctrls_core s) (k_pci s) (ctl_queues s)"

lemma hw_inv_core: "core s' = core s \<Longrightarrow> hw_inv s' = hw_inv s"
  by (simp add: hw_inv_def core_def)

lemma hw_ok_upd:
  assumes "hw_ok C P H" "C c = Some (pd, p)" "\<And>c' p''. C c' = Some (pd, p'') \<Longrightarrow> c' = c"
    and other: "\<And>pd'. pd' \<noteq> pd \<Longrightarrow> H' pd' = H pd'"
    and here: "\<And>Q. H pd = (Q, Q) \<Longrightarrow> Q \<subseteq> pool_used p \<Longrightarrow> (Q \<noteq> {} \<Longrightarrow> pci_live P pd) \<Longrightarrow>
       \<exists>Q'. H' pd = (Q', Q') \<and> Q' \<subseteq> pool_used p' \<and> (Q' \<noteq> {} \<longrightarrow> pci_live P pd)"
  shows "hw_ok (C(c \<mapsto> (pd, p'))) P H'"
  unfolding hw_ok_def
proof (intro allI impI)
  fix pd' assume "\<not> pre_registered P pd'"
  then obtain Q where q: "H pd' = (Q, Q)" "Q \<noteq> {} \<Longrightarrow> pci_live P pd'" "Q \<noteq> {} \<Longrightarrow> \<exists>c p. C c = Some (pd', p) \<and> Q \<subseteq> pool_used p"
    using assms(1) unfolding hw_ok_def by meson
  show "\<exists>Q. H' pd' = (Q, Q) \<and>
     (Q \<noteq> {} \<longrightarrow> pci_live P pd' \<and> (\<exists>c' p''. (C(c \<mapsto> (pd, p'))) c' = Some (pd', p'') \<and> Q \<subseteq> pool_used p''))"
  proof (cases "pd' = pd")
    case True
    have "Q \<subseteq> pool_used p" using q(3) assms(2,3) True by (cases "Q = {}") auto
    then obtain Q' where "H' pd = (Q', Q')" "Q' \<subseteq> pool_used p'" "Q' \<noteq> {} \<longrightarrow> pci_live P pd" using here q(1,2) True by metis
    then show ?thesis using True by (intro exI [of _ Q']) auto
  next
    case False
    have "\<exists>c' p''. (C(c \<mapsto> (pd, p'))) c' = Some (pd', p'') \<and> Q \<subseteq> pool_used p''" if "Q \<noteq> {}"
    proof -
      obtain c1 p1 where c1: "C c1 = Some (pd', p1)" "Q \<subseteq> pool_used p1" using q(3) \<open>Q \<noteq> {}\<close> by blast
      then have "c1 \<noteq> c" using assms(2) False by auto
      then show ?thesis using c1 by (intro exI [of _ c1]) simp
    qed
    then show ?thesis using q(1,2) other [OF False] by (intro exI [of _ Q]) simp
  qed
qed

lemma fold_dev_event_elsewhere:
  "admin_events e pd evs \<Longrightarrow> pd' \<noteq> pd \<Longrightarrow> fold (dev_event pd') evs q = q"
  by (induction evs arbitrary: q) (auto simp: split_paired_all)

subsection \<open>Requests on groups\<close>

text \<open>The common form of their effect: file \<open>f\<close>, the pool of its controller, and commands to that controller.\<close>

definition group_effect :: "cid \<Rightarrow> fid \<Rightarrow> snvm_dev_owner \<Rightarrow> qid_pool \<Rightarrow> kst \<Rightarrow> kst \<Rightarrow> bool" where
  "group_effect c f own' p' s s' \<longleftrightarrow> files_core s' = (files_core s)(f \<mapsto> own_core own') \<and>
     ctrls_core s' = (ctrls_core s)(c \<mapsto> (ctrl_pdev (get_ctrl s c), p')) \<and>
     k_ctrl_list s' = k_ctrl_list s \<and> k_next_cid s' = k_next_cid s \<and> k_pci s' = k_pci s \<and>
     (\<forall>pd'. pd' \<noteq> ctrl_pdev (get_ctrl s c) \<longrightarrow> ctl_queues s' pd' = ctl_queues s pd')"

lemma queue_inv_file:
  assumes "queue_inv s" "k_files s f = Some own"
  shows "file_wf own" "distinct (own_qids own)"
    "\<exists>ct. k_ctrls s (own_ctrl own) = Some ct \<and> pool_ok (ctrl_pool ct) \<and>
       ctrls_core s (own_ctrl own) = Some (ctrl_pdev ct, ctrl_pool ct) \<and> get_ctrl s (own_ctrl own) = ct \<and>
       set (own_qids own) \<subseteq> pool_used (ctrl_pool ct)"
    "files_core s f = Some (own_core own)"
proof -
  have f: "files_core s f = Some (own_core own)" using assms(2) by (simp add: files_core_def)
  then have w: "file_wf own" "distinct (own_qids own)" "ctrls_core s (own_ctrl own) \<noteq> None"
    using assms(1) unfolding queue_inv_def queues_ok_def by (metis own_core_sel)+
  then obtain ct where ct: "k_ctrls s (own_ctrl own) = Some ct" by (auto simp: ctrls_core_def)
  then have c: "ctrls_core s (own_ctrl own) = Some (ctrl_pdev ct, ctrl_pool ct)" by (simp add: ctrls_core_def ctrl_core_def)
  then have "pool_ok (ctrl_pool ct)" "pool_used (ctrl_pool ct) = held (files_core s) (own_ctrl own)"
    using assms(1) unfolding queue_inv_def queues_ok_def by metis+
  moreover have "set (own_qids own) \<subseteq> held (files_core s) (own_ctrl own)"
    using f held_split [of "files_core s" _ f] by (simp add: qids_of_def)
  ultimately show "file_wf own" "distinct (own_qids own)" "files_core s f = Some (own_core own)"
    "\<exists>ct. k_ctrls s (own_ctrl own) = Some ct \<and> pool_ok (ctrl_pool ct) \<and>
       ctrls_core s (own_ctrl own) = Some (ctrl_pdev ct, ctrl_pool ct) \<and> get_ctrl s (own_ctrl own) = ct \<and>
       set (own_qids own) \<subseteq> pool_used (ctrl_pool ct)"
    using w f ct c by (auto simp: get_ctrl_def)
qed

lemma queue_inv_group_effect:
  assumes "queue_inv s" "k_files s f = Some own" "group_effect (own_ctrl own) f own' p' s s'" "own_ctrl own' = own_ctrl own"
    "file_wf own'" "distinct (own_qids own')" "pool_ok p'"
    "pool_used p' = (pool_used (ctrl_pool (get_ctrl s (own_ctrl own))) - set (own_qids own)) \<union> set (own_qids own')"
    "set (own_qids own') \<inter> (pool_used (ctrl_pool (get_ctrl s (own_ctrl own))) - set (own_qids own)) = {}"
    and ids: "ids_ok ((files_core s)(f \<mapsto> own_core own')) (k_queue_group_ida s')"
  shows "queue_inv s'"
proof -
  let ?c = "own_ctrl own"
  obtain ct where ct: "ctrls_core s ?c = Some (ctrl_pdev ct, ctrl_pool ct)" "get_ctrl s ?c = ct"
    using queue_inv_file(3) [OF assms(1,2)] by blast
  have fc: "files_core s f = Some (own_core own)" by (rule queue_inv_file(4) [OF assms(1,2)])
  have q: "queues_ok (files_core s) (ctrls_core s)" "ctrls_ok (ctrls_core s) (k_ctrl_list s) (k_next_cid s)" "pci_ok (k_pci s)"
    using assms(1) by (simp_all add: queue_inv_def)
  have "queues_ok ((files_core s)(f \<mapsto> own_core own')) ((ctrls_core s)(own_ctrl (own_core own) \<mapsto> (ctrl_pdev ct, p')))"
    by (rule queues_ok_upd [OF q(1) fc _ _]) (use assms(4-9) ct in simp_all)
  moreover have "ctrls_ok ((ctrls_core s)(?c \<mapsto> (ctrl_pdev ct, p'))) (k_ctrl_list s) (k_next_cid s)"
    using q(2) ct(1) unfolding ctrls_ok_def by (auto split: if_splits)
  ultimately show ?thesis using assms(3) ids q(3) ct(2) by (simp add: queue_inv_def group_effect_def)
qed

lemma hw_inv_group_effect:
  assumes "queue_inv s" "hw_inv s" "k_files s f = Some own" "group_effect (own_ctrl own) f own' p' s s'"
    and here: "\<And>Q ct. k_ctrls s (own_ctrl own) = Some ct \<Longrightarrow> ctl_queues s (ctrl_pdev ct) = (Q, Q) \<Longrightarrow>
       Q \<subseteq> pool_used (ctrl_pool ct) \<Longrightarrow> (Q \<noteq> {} \<Longrightarrow> pci_live (k_pci s) (ctrl_pdev ct)) \<Longrightarrow>
       \<exists>Q'. ctl_queues s' (ctrl_pdev ct) = (Q', Q') \<and> Q' \<subseteq> pool_used p' \<and> (Q' \<noteq> {} \<longrightarrow> pci_live (k_pci s) (ctrl_pdev ct))"
  shows "hw_inv s'"
proof -
  let ?c = "own_ctrl own"
  obtain ct where ct: "k_ctrls s ?c = Some ct" "ctrls_core s ?c = Some (ctrl_pdev ct, ctrl_pool ct)" "get_ctrl s ?c = ct"
    using queue_inv_file(3) [OF assms(1,3)] by blast
  have inj: "c' = ?c" if "ctrls_core s c' = Some (ctrl_pdev ct, p'')" for c' p''
    using assms(1) ct(2) that unfolding queue_inv_def ctrls_ok_def by metis
  have "hw_ok ((ctrls_core s)(?c \<mapsto> (ctrl_pdev ct, p'))) (k_pci s) (ctl_queues s')"
    using assms(2) [unfolded hw_inv_def] ct(2)
  proof (rule hw_ok_upd)
    show "ctl_queues s' pd' = ctl_queues s pd'" if "pd' \<noteq> ctrl_pdev ct" for pd'
      using assms(4) that unfolding group_effect_def ct(3) by blast
  qed (use inj here [OF ct(1)] in blast)+
  then show ?thesis using assms(4) by (simp add: hw_inv_def group_effect_def ct(3))
qed

lemma free_qids_ok:
  assumes "pool_ok p" "set qs \<subseteq> pool_used p"
  shows "pool_ok (free_qids qs p)" "pool_used (free_qids qs p) = pool_used p - set qs"
proof -
  have "pool_ok (free_qids qs p) \<and> pool_used (free_qids qs p) = pool_used p - set qs"
  proof (cases "user_qid_bitmap p")
    case None
    then have "pool_used p = {}" by (simp add: pool_used_def)
    then show ?thesis using assms by simp
  next
    case (Some bm)
    then have "pool_wf p" using assms(1) by (simp add: pool_ok_def)
    then show ?thesis using qp.free_all [of p qs] by (simp add: pool_ok_def free_qids_def)
  qed
  then show "pool_ok (free_qids qs p)" "pool_used (free_qids qs p) = pool_used p - set qs" by simp_all
qed

lemma destroy_core:
  fixes e :: kenv and g :: snvm_qgroup
  assumes "k_ctrls s c = Some ct"
  defines "s' \<equiv> destroy_qgroup_locked e (Some g) (Some c) s" and "qs \<equiv> alive_qids (g_queues g)"
  shows "files_core s' = files_core s" "ctrls_core s' = (ctrls_core s)(c \<mapsto> (ctrl_pdev ct, free_qids (rev qs) (ctrl_pool ct)))"
    "k_ctrl_list s' = k_ctrl_list s" "k_next_cid s' = k_next_cid s" "k_pci s' = k_pci s"
    "k_queue_group_ida s' = k_queue_group_ida s - {unat (g_group_id g)}"
    "pd' \<noteq> ctrl_pdev ct \<Longrightarrow> ctl_queues s' pd' = ctl_queues s pd'"
    "deletes_succeed e \<Longrightarrow> ctl_queues s (ctrl_pdev ct) = (Q, Q) \<Longrightarrow> (Q \<noteq> {} \<Longrightarrow> pci_live (k_pci s) (ctrl_pdev ct)) \<Longrightarrow>
       ctl_queues s' (ctrl_pdev ct) = (Q - set qs, Q - set qs)"
proof -
  obtain dels where d: "s' = (fold unmap_and_release (g_maps g)
          (s\<lparr>k_ctrls := (k_ctrls s)(c \<mapsto> ct\<lparr>ctrl_pool := free_qids (rev qs) (ctrl_pool ct)\<rparr>), k_log := k_log s @ dels\<rparr>))
       \<lparr>k_queue_group_ida := k_queue_group_ida s - {unat (g_group_id g)}\<rparr>"
    "case live_pdev (Some c) s of None \<Rightarrow> dels = []
     | Some pd \<Rightarrow> admin_events e pd dels \<and> map ev_cmd dels = map Some (delete_cmds (rev qs))"
    unfolding s'_def qs_def using destroy_qgroup_effect [OF assms(1)] .
  let ?t = "s\<lparr>k_ctrls := (k_ctrls s)(c \<mapsto> ct\<lparr>ctrl_pool := free_qids (rev qs) (ctrl_pool ct)\<rparr>), k_log := k_log s @ dels\<rparr>"
  have t: "core (fold unmap_and_release (g_maps g) ?t) = core ?t" by simp
  have gc: "get_ctrl s c = ct" using assms(1) by (simp add: get_ctrl_def)
  have lv: "live_pdev (Some c) s = (if pci_live (k_pci s) (ctrl_pdev ct) then Some (ctrl_pdev ct) else None)"
    using live_ndev_pci [of c s] by (auto simp: live_pdev_def gc)
  show "files_core s' = files_core s" "ctrls_core s' = (ctrls_core s)(c \<mapsto> (ctrl_pdev ct, free_qids (rev qs) (ctrl_pool ct)))"
    "k_ctrl_list s' = k_ctrl_list s" "k_next_cid s' = k_next_cid s" "k_pci s' = k_pci s"
    "k_queue_group_ida s' = k_queue_group_ida s - {unat (g_group_id g)}"
    using t unfolding d(1) by (auto simp: core_def files_core_def ctrls_core_def ctrl_core_def fun_eq_iff)
  have h: "ctl_queues s' pd' = fold (dev_event pd') dels (ctl_queues s pd')" for pd'
    using t unfolding d(1) by (simp add: core_def ctl_queues_def fun_eq_iff dev_queues_append)
  show "ctl_queues s' pd' = ctl_queues s pd'" if "pd' \<noteq> ctrl_pdev ct"
    using d(2) fold_dev_event_elsewhere [of e "ctrl_pdev ct" dels pd' "ctl_queues s pd'"] that
    unfolding h lv by (cases "pci_live (k_pci s) (ctrl_pdev ct)") auto
  show "ctl_queues s' (ctrl_pdev ct) = (Q - set qs, Q - set qs)"
    if del: "deletes_succeed e" and q: "ctl_queues s (ctrl_pdev ct) = (Q, Q)" and l: "Q \<noteq> {} \<Longrightarrow> pci_live (k_pci s) (ctrl_pdev ct)"
  proof (cases "pci_live (k_pci s) (ctrl_pdev ct)")
    case True
    then have a: "admin_events e (ctrl_pdev ct) dels" "map ev_cmd dels = map Some (delete_cmds (rev qs))"
      using d(2) unfolding lv by auto
    have "\<forall>ev \<in> set dels. \<exists>cmd. ev = EvAdmin (ctrl_pdev ct) cmd 0"
      using delete_cmds_reply [OF a] del by (simp add: deletes_succeed_def)
    then show ?thesis unfolding h q using fold_dev_delete [OF a(2)] by simp
  next
    case False
    then show ?thesis using l d(2) unfolding h q lv by auto
  qed
qed

lemma destroy_empty_core:
  assumes "k_ctrls s c = Some ct" "alive_qids (g_queues g) = []"
  shows "core (destroy_qgroup_locked e (Some g) (Some c) s) = core (s\<lparr>k_queue_group_ida := k_queue_group_ida s - {unat (g_group_id g)}\<rparr>)"
proof -
  obtain dels where d: "destroy_qgroup_locked e (Some g) (Some c) s = (fold unmap_and_release (g_maps g)
      (s\<lparr>k_ctrls := (k_ctrls s)(c \<mapsto> ct\<lparr>ctrl_pool := free_qids (rev []) (ctrl_pool ct)\<rparr>), k_log := k_log s @ dels\<rparr>))
       \<lparr>k_queue_group_ida := k_queue_group_ida s - {unat (g_group_id g)}\<rparr>"
    "case live_pdev (Some c) s of None \<Rightarrow> dels = []
     | Some pd \<Rightarrow> admin_events e pd dels \<and> map ev_cmd dels = map Some (delete_cmds (rev []))"
    using destroy_qgroup_effect [OF assms(1), of e g] unfolding assms(2) .
  have "dels = []" using d(2) by (auto split: option.splits)
  moreover have "core (fold unmap_and_release (g_maps g) s) = core s" by simp
  ultimately show ?thesis unfolding d(1) using assms(1)
    by (simp add: fun_upd_idem core_def files_core_def ctrls_core_def ctl_queues_def)
qed

lemma own_qids_groups [simp]:
  "own_qids (own\<lparr>own_nr_groups := n\<rparr>) = own_qids own" "own_groups own = [g] \<Longrightarrow> own_qids own = alive_qids (g_queues g)"
  "own_groups own = [] \<Longrightarrow> own_qids own = []"
  by (simp_all add: own_qids_def)

lemma ids_ok_same: "ids_ok F ida \<Longrightarrow> F f = Some o' \<Longrightarrow> set (own_gids o'') \<subseteq> set (own_gids o') \<Longrightarrow> ids_ok (F(f \<mapsto> o'')) ida"
  unfolding ids_ok_def by (auto split: if_splits) blast+

lemma ids_ok_drop:
  assumes "ids_ok F ida" "F f = Some o'" "set (own_gids o') \<subseteq> {gid}" "own_gids o'' = []"
  shows "ids_ok (F(f \<mapsto> o'')) (ida - (if own_gids o' = [] then {} else {unat gid}))"
proof -
  have "unat i \<noteq> unat gid" if "F f1 = Some o1" "f1 \<noteq> f" "i \<in> set (own_gids o1)" "own_gids o' \<noteq> []" for f1 o1 i
  proof -
    have "set (own_gids o') = {gid}" using assms(3) that(4) by (cases "own_gids o'") auto
    moreover have "set (own_gids o') \<inter> set (own_gids o1) = {}" using assms(1,2) that(1,2) unfolding ids_ok_def by metis
    ultimately have "i \<noteq> gid" using that(3) by auto
    then show ?thesis by (simp add: word_unat_eq_iff)
  qed
  then show ?thesis using assms(1,4) unfolding ids_ok_def by (auto split: if_splits)
qed

text \<open>Removing the group of file \<open>f\<close> and destroying it, with whatever group counter the caller leaves.\<close>

lemma inv_drop_group:
  assumes "queue_inv s" "k_files s f = Some own" "own_groups own = [g]"
    and t: "k_files t f = Some (own\<lparr>own_groups := [], own_nr_groups := n\<rparr>)" "\<And>f'. f' \<noteq> f \<Longrightarrow> k_files t f' = k_files s f'"
      "k_ctrls t = k_ctrls s" "k_ctrl_list t = k_ctrl_list s" "k_next_cid t = k_next_cid s" "k_pci t = k_pci s"
      "k_queue_group_ida t = k_queue_group_ida s" "k_log t = k_log s"
    and s': "files_core s' = (files_core t)(f \<mapsto> own_core (own\<lparr>own_groups := [], own_nr_groups := 0\<rparr>))"
      "ctrls_core s' = ctrls_core (destroy_qgroup_locked e (Some g) (Some (own_ctrl own)) t)"
      "k_ctrl_list s' = k_ctrl_list t" "k_next_cid s' = k_next_cid t" "k_pci s' = k_pci t"
      "k_queue_group_ida s' = k_queue_group_ida t - {unat (g_group_id g)}"
      "ctl_queues s' = ctl_queues (destroy_qgroup_locked e (Some g) (Some (own_ctrl own)) t)"
  shows "queue_inv s'" "deletes_succeed e \<Longrightarrow> hw_inv s \<Longrightarrow> hw_inv s'"
proof -
  let ?c = "own_ctrl own" and ?own' = "own\<lparr>own_groups := [], own_nr_groups := 0\<rparr>" and ?qs = "alive_qids (g_queues g)"
  obtain ct where ct: "k_ctrls s ?c = Some ct" "pool_ok (ctrl_pool ct)" "get_ctrl s ?c = ct" "set (own_qids own) \<subseteq> pool_used (ctrl_pool ct)"
    using queue_inv_file(3) [OF assms(1,2)] by blast
  have ctt: "k_ctrls t ?c = Some ct" using ct(1) t(3) by simp
  let ?p = "free_qids (rev ?qs) (ctrl_pool ct)"
  note d = destroy_core [OF ctt, where e = e and g = g]
  have q: "own_qids own = ?qs" using assms(3) by simp
  have hw: "ctl_queues t = ctl_queues s" by (simp add: ctl_queues_def t(8))
  have ge: "group_effect ?c f ?own' ?p s s'"
    unfolding group_effect_def ct(3)
    using s' t d(2,7) hw by (auto simp: files_core_def ctrls_core_def fun_eq_iff)
  have fr: "pool_ok ?p" "pool_used ?p = pool_used (ctrl_pool ct) - set ?qs"
    using free_qids_ok [OF ct(2), of "rev ?qs"] ct(4) q by simp_all
  have ids: "ids_ok ((files_core s)(f \<mapsto> own_core ?own')) (k_queue_group_ida s')"
    using ids_ok_drop [of "files_core s" "k_queue_group_ida s" f "own_core own" "g_group_id g" "own_core ?own'"] assms(1,3)
      queue_inv_file(4) [OF assms(1,2)] s'(6) t(7) by (simp add: queue_inv_def own_gids_def own_core_def group_core_def)
  show "queue_inv s'"
    by (rule queue_inv_group_effect [OF assms(1,2) ge _ _ _ fr(1) _ _ ids]) (use fr(2) ct(3) q in \<open>auto simp: file_wf_def\<close>)
  show "hw_inv s'" if "deletes_succeed e" "hw_inv s"
  proof (rule hw_inv_group_effect [OF assms(1) that(2) assms(2) ge])
    fix Q ct1 assume a: "k_ctrls s ?c = Some ct1" "ctl_queues s (ctrl_pdev ct1) = (Q, Q)" "Q \<subseteq> pool_used (ctrl_pool ct1)"
      "Q \<noteq> {} \<Longrightarrow> pci_live (k_pci s) (ctrl_pdev ct1)"
    have "ct1 = ct" using a(1) ct(1) by simp
    then have "ctl_queues s' (ctrl_pdev ct) = (Q - set ?qs, Q - set ?qs)"
      using d(8) [OF that(1), of Q] a(2,4) t(6) hw s'(7) by simp
    then show "\<exists>Q'. ctl_queues s' (ctrl_pdev ct1) = (Q', Q') \<and> Q' \<subseteq> pool_used ?p \<and> (Q' \<noteq> {} \<longrightarrow> pci_live (k_pci s) (ctrl_pdev ct1))"
      using a(3,4) fr(2) \<open>ct1 = ct\<close> by (intro exI [of _ "Q - set ?qs"]) auto
  qed
qed

lemma inv_destroy_request:
  assumes "queue_inv s" "k_files s f = Some own" "nvm_destroy_queue_group e (own_ctrl own) f gid s = (rc, s')"
  shows "queue_inv s'" "deletes_succeed e \<Longrightarrow> hw_inv s \<Longrightarrow> hw_inv s'"
proof -
  have "queue_inv s' \<and> (deletes_succeed e \<longrightarrow> hw_inv s \<longrightarrow> hw_inv s')"
  proof (cases "s' = s")
    case False
    then obtain g where g: "find_qgroup_locked (Some own) gid = Some g" and s': "s' = destroy_qgroup_locked e (Some g) (Some (own_ctrl own))
        (set_own f (\<lambda>own. own\<lparr>own_groups := remove1 g (own_groups own), own_nr_groups := own_nr_groups own - 1\<rparr>) s)"
      using assms(2,3) by (auto simp: nvm_destroy_queue_group_def split: if_splits option.splits)
    have w: "file_wf own" by (rule queue_inv_file(1) [OF assms(1,2)])
    note fg = file_wf_find [OF w g]
    let ?t = "set_own f (\<lambda>own. own\<lparr>own_groups := remove1 g (own_groups own), own_nr_groups := own_nr_groups own - 1\<rparr>) s"
    obtain ct where ct: "k_ctrls ?t (own_ctrl own) = Some ct" using queue_inv_file(3) [OF assms(1,2)] by (auto simp: set_own_def)
    note d = destroy_core [OF ct, where e = e and g = g]
    have n: "own_nr_groups own - 1 = 0" using w fg(1) by (simp add: file_wf_def)
    have fl: "k_files ?t f = Some (own\<lparr>own_groups := [], own_nr_groups := 0\<rparr>)"
      using assms(2) fg(1) n by (simp add: set_own_def get_own_def)
    then have "files_core ?t = (files_core ?t)(f \<mapsto> own_core (own\<lparr>own_groups := [], own_nr_groups := 0\<rparr>))"
      by (simp add: files_core_def fun_eq_iff)
    then show ?thesis
      using inv_drop_group [OF assms(1,2) fg(1), of ?t 0 s' e] fl d(1-6) unfolding s' by (simp add: set_own_def)
  qed (use assms(1) in auto)
  then show "queue_inv s'" "deletes_succeed e \<Longrightarrow> hw_inv s \<Longrightarrow> hw_inv s'" by simp_all
qed

text \<open>Group ids come from an \<open>ida\<close>, which returns a free number from the minimum on, or a negative error.\<close>

definition ida_ok :: "kenv \<Rightarrow> bool" where
  "ida_ok e \<longleftrightarrow> (\<forall>used mn. 0 \<le> ida_simple_get e used mn \<longrightarrow>
     int mn \<le> ida_simple_get e used mn \<and> ida_simple_get e used mn < 2 ^ 31 \<and> nat (ida_simple_get e used mn) \<notin> used)"

lemma unat_of_int_u32: "0 \<le> i \<Longrightarrow> i < 2 ^ 32 \<Longrightarrow> unat (of_int i :: u32) = nat i"
proof -
  assume "0 \<le> i" "i < 2 ^ 32"
  then obtain n where "i = int n" "n < 2 ^ 32" by (cases i) auto
  then show ?thesis by (simp add: unat_of_nat take_bit_nat_eq_self)
qed

lemma ids_ok_new:
  assumes "ids_ok F ida" "F f = Some o'" "own_gids o'' = [gid]" "unat gid \<notin> ida"
  shows "ids_ok (F(f \<mapsto> o'')) (insert (unat gid) ida)"
proof -
  have "gid \<notin> set (own_gids o1)" if "F f1 = Some o1" for f1 o1 using assms(1,4) that unfolding ids_ok_def by blast
  then show ?thesis using assms(1,3) unfolding ids_ok_def by (auto split: if_splits)
qed

lemma inv_create_request:
  assumes "queue_inv s" "k_files s f = Some own" "nvm_create_queue_group e (own_ctrl own) f req s = (rc, out, s')" "ida_ok e"
  shows "queue_inv s'" "hw_inv s \<Longrightarrow> hw_inv s'"
proof -
  let ?id = "ida_simple_get e (k_queue_group_ida s) 1" and ?c = "own_ctrl own"
  let ?g = "new_qgroup (of_int ?id)"
  let ?s1 = "s\<lparr>k_queue_group_ida := insert (nat ?id) (k_queue_group_ida s)\<rparr>"
  let ?s2 = "set_own f (\<lambda>own. own\<lparr>own_groups := own_groups own @ [?g], own_nr_groups := own_nr_groups own + 1\<rparr>) ?s1"
  let ?s3 = "set_own f (\<lambda>own. own\<lparr>own_groups := remove1 ?g (own_groups own), own_nr_groups := own_nr_groups own - 1\<rparr>) ?s2"
  have w: "file_wf own" by (rule queue_inv_file(1) [OF assms(1,2)])
  obtain ct where ct: "k_ctrls s ?c = Some ct" "pool_ok (ctrl_pool ct)" "ctrls_core s ?c = Some (ctrl_pdev ct, ctrl_pool ct)"
    "get_ctrl s ?c = ct" using queue_inv_file(3) [OF assms(1,2)] by blast
  have "queue_inv s' \<and> (hw_inv s \<longrightarrow> hw_inv s')"
  proof (cases "s' = s")
    case False
    have r: "own_nr_groups own < 1" "0 \<le> ?id" "s' = ?s2 \<or> s' = destroy_qgroup_locked e (Some ?g) (Some ?c) ?s3"
      using assms(2,3) False by (auto simp: nvm_create_queue_group_def Let_def not_le not_less split: if_splits)
    have e0: "own_groups own = []" "own_nr_groups own = 0"
      using r(1) w unfolding file_wf_def by (cases "own_groups own"; auto)+
    have id: "1 \<le> ?id" "?id < 2 ^ 31" "nat ?id \<notin> k_queue_group_ida s"
      using assms(4) [unfolded ida_ok_def, rule_format, OF r(2)] by simp_all
    then have u: "unat (of_int ?id :: u32) = nat ?id" by (intro unat_of_int_u32) simp_all
    have g0: "(of_int ?id :: u32) \<noteq> 0"
    proof
      assume "(of_int ?id :: u32) = 0"
      then show False using u id(1) by simp
    qed
    let ?own' = "own\<lparr>own_groups := [?g], own_nr_groups := 1\<rparr>"
    have k2: "k_files ?s2 = (k_files s)(f \<mapsto> ?own')" using assms(2) e0 by (simp add: set_own_def get_own_def)
    have qs: "alive_qids (g_queues ?g) = []" by (simp add: new_qgroup_def zero_queue_def alive_qids_def)
    from r(3) show ?thesis
    proof
      assume s': "s' = ?s2"
      have ge: "group_effect ?c f ?own' (ctrl_pool ct) s s'"
        unfolding group_effect_def ct(4) using k2 ct(3) unfolding s'
        by (auto simp: files_core_def ctrls_core_def ctl_queues_def set_own_def fun_eq_iff)
      have ids: "ids_ok ((files_core s)(f \<mapsto> own_core ?own')) (k_queue_group_ida s')"
        using ids_ok_new [of "files_core s" "k_queue_group_ida s" f "own_core own" "own_core ?own'" "of_int ?id"] assms(1)
          queue_inv_file(4) [OF assms(1,2)] u id(3) unfolding s'
        by (simp add: queue_inv_def own_gids_def own_core_def group_core_def new_qgroup_def set_own_def)
      have "queue_inv s'"
        by (rule queue_inv_group_effect [OF assms(1,2) ge _ _ _ ct(2) _ _ ids])
          (use qs e0 ct(4) new_qgroup_wf [OF g0] in \<open>simp_all add: file_wf_def\<close>)
      moreover have "hw_inv s'" if "hw_inv s"
      proof (rule hw_inv_group_effect [OF assms(1) that assms(2) ge])
        show "\<exists>Q'. ctl_queues s' (ctrl_pdev ct1) = (Q', Q') \<and> Q' \<subseteq> pool_used (ctrl_pool ct) \<and> (Q' \<noteq> {} \<longrightarrow> pci_live (k_pci s) (ctrl_pdev ct1))"
          if "k_ctrls s ?c = Some ct1" "ctl_queues s (ctrl_pdev ct1) = (Q, Q)" "Q \<subseteq> pool_used (ctrl_pool ct1)"
            "Q \<noteq> {} \<Longrightarrow> pci_live (k_pci s) (ctrl_pdev ct1)" for Q ct1
          using that ct(1) unfolding s' by (auto simp: ctl_queues_def set_own_def)
      qed
      ultimately show ?thesis by blast
    next
      assume s': "s' = destroy_qgroup_locked e (Some ?g) (Some ?c) ?s3"
      have c3: "k_ctrls ?s3 ?c = Some ct" using ct(1) by (simp add: set_own_def)
      have "k_files ?s3 = k_files s"
        using assms(2) e0 by (simp add: set_own_def get_own_def fun_upd_idem)
      then have "core s' = core s"
        unfolding s' destroy_empty_core [OF c3 qs] using u id(3)
        by (simp add: core_def files_core_def ctrls_core_def ctl_queues_def new_qgroup_def set_own_def)
      then show ?thesis using assms(1) queue_inv_core hw_inv_core by blast
    qed
  qed (use assms(1) in simp)
  then show "queue_inv s'" "hw_inv s \<Longrightarrow> hw_inv s'" by simp_all
qed

lemma file_view_core:
  assumes "file_view own' = file_view own"
  shows "own_qids own' = own_qids own" "own_gids own' = own_gids own" "own_ctrl own' = own_ctrl own"
proof -
  have g: "map (\<lambda>g. g\<lparr>g_queues := filter uq_alive (g_queues g)\<rparr>) (own_groups own') =
      map (\<lambda>g. g\<lparr>g_queues := filter uq_alive (g_queues g)\<rparr>) (own_groups own)"
    using arg_cong [OF assms, of own_groups] by (simp add: file_view_def)
  have q: "own_qids own = concat (map (\<lambda>g. alive_qids (g_queues g)) (map (\<lambda>g. g\<lparr>g_queues := filter uq_alive (g_queues g)\<rparr>) (own_groups own)))"
    for own by (simp add: own_qids_def alive_qids_def comp_def)
  have i: "own_gids own = map g_group_id (map (\<lambda>g. g\<lparr>g_queues := filter uq_alive (g_queues g)\<rparr>) (own_groups own))" for own
    by (simp add: own_gids_def comp_def)
  show "own_qids own' = own_qids own" unfolding q g ..
  show "own_gids own' = own_gids own" unfolding i g ..
  show "own_ctrl own' = own_ctrl own" using arg_cong [OF assms, of own_ctrl] by (simp add: file_view_def)
qed

lemma group_effect_state:
  assumes "k_ctrls s c = Some ct" "s' = s\<lparr>k_files := (k_files s)(f \<mapsto> own'), k_ctrls := (k_ctrls s)(c \<mapsto> ct\<lparr>ctrl_pool := p'\<rparr>),
     k_log := k_log s @ evs\<rparr>" "admin_events e (ctrl_pdev ct) evs"
  shows "group_effect c f own' p' s s'"
proof -
  have "get_ctrl s c = ct" using assms(1) by (simp add: get_ctrl_def)
  then show ?thesis unfolding group_effect_def assms(2)
    using fold_dev_event_elsewhere [OF assms(3)]
    by (auto simp: files_core_def ctrls_core_def ctrl_core_def ctl_queues_def dev_queues_append fun_eq_iff)
qed

lemma inv_add_request:
  assumes "queue_inv s" "k_files s f = Some own" "nvm_add_user_queue e (own_ctrl own) f req s = (rc, outs, s')"
    "length (aq_pairs req) = 16"
  shows "queue_inv s'" "deletes_succeed e \<Longrightarrow> hw_inv s \<Longrightarrow> hw_inv s'"
proof -
  let ?c = "own_ctrl own"
  have w: "file_wf own" "distinct (own_qids own)" "files_core s f = Some (own_core own)" by (rule queue_inv_file [OF assms(1,2)])+
  obtain ct where ct: "k_ctrls s ?c = Some ct" "pool_ok (ctrl_pool ct)" "get_ctrl s ?c = ct" "set (own_qids own) \<subseteq> pool_used (ctrl_pool ct)"
    using queue_inv_file(3) [OF assms(1,2)] by blast
  have nd: "ndev_ok (snvm_ctrl_get_live_ndev (Some ?c) s)" using assms(1) by (intro live_ndev_ok) (simp add: queue_inv_def)
  have ids0: "ids_ok (files_core s) (k_queue_group_ida s)" using assms(1) by (simp add: queue_inv_def)
  obtain cqs sqs where dq: "dev_queues (ctrl_pdev ct) (k_log s) = (cqs, sqs)" by fastforce
  have "queue_inv s' \<and> (deletes_succeed e \<longrightarrow> hw_inv s \<longrightarrow> hw_inv s')"
  proof (cases "rc = 0")
    case True
    from add_user_queue_ok_effect [OF assms(2) w(1) ct(1,2) nd assms(4) assms(3) [unfolded True] dq]
    obtain nd' g g' qids evs p' where r: "snvm_ctrl_get_live_ndev (Some ?c) s = Some nd'" "own_groups own = [g]" "distinct qids"
      "set qids \<inter> pool_used (ctrl_pool ct) = {}"
      "s' = s\<lparr>k_files := (k_files s)(f \<mapsto> own\<lparr>own_groups := [g']\<rparr>), k_ctrls := (k_ctrls s)(?c \<mapsto> ct\<lparr>ctrl_pool := p'\<rparr>),
           k_log := k_log s @ evs\<rparr>"
      "pool_used p' = pool_used (ctrl_pool ct) \<union> set qids" "pool_wf p'" "group_wf g'"
      "alive_qids (g_queues g') = alive_qids (g_queues g) @ qids" "admin_events e (ctrl_pdev ct) evs" "g_group_id g' = g_group_id g"
      "dev_queues (ctrl_pdev ct) (k_log s') = (cqs \<union> set qids, sqs \<union> set qids)" by blast
    let ?own' = "own\<lparr>own_groups := [g']\<rparr>"
    have q: "own_qids own = alive_qids (g_queues g)" "own_qids ?own' = own_qids own @ qids" using r(2,9) by simp_all
    have ge: "group_effect ?c f ?own' p' s s'" by (rule group_effect_state [OF ct(1) r(5,10)])
    have gi: "own_gids ?own' = own_gids own" using r(2,11) by (simp add: own_gids_def)
    have ids: "ids_ok ((files_core s)(f \<mapsto> own_core ?own')) (k_queue_group_ida s')"
      using ids_ok_same [OF ids0 w(3), of "own_core ?own'"] gi unfolding r(5) by simp
    have "queue_inv s'"
      by (rule queue_inv_group_effect [OF assms(1,2) ge _ _ _ _ _ _ ids])
        (use w(1,2) r(2,3,4,6,7,8) q(2) ct(3,4) in \<open>auto simp: file_wf_def pool_ok_def\<close>)
    moreover have lv: "pci_live (k_pci s) (ctrl_pdev ct)" using live_ndev_pci [of ?c s] r(1) ct(3) by simp
    have "hw_inv s'" if "hw_inv s"
      by (rule hw_inv_group_effect [OF assms(1) that assms(2) ge])
        (use r(6,12) dq ct(1) lv in \<open>auto simp: ctl_queues_def\<close>)
    ultimately show ?thesis by blast
  next
    case False
    from add_user_queue_fail_effect [OF assms(2) w(1) ct(1,2) nd assms(4,3) False]
    obtain own' p1 evs where r: "s' = s\<lparr>k_files := (k_files s)(f \<mapsto> own'), k_ctrls := (k_ctrls s)(?c \<mapsto> ct\<lparr>ctrl_pool := p1\<rparr>),
         k_log := k_log s @ evs\<rparr>" "file_wf own'" "file_view own' = file_view own" "pool_ok p1"
      "pool_used p1 = pool_used (ctrl_pool ct)" "admin_events e (ctrl_pdev ct) evs" "dev_unchanged e (ctrl_pdev ct) p1 evs" by blast
    note v = file_view_core [OF r(3)]
    have ge: "group_effect ?c f own' p1 s s'" by (rule group_effect_state [OF ct(1) r(1,6)])
    have ids: "ids_ok ((files_core s)(f \<mapsto> own_core own')) (k_queue_group_ida s')"
      using ids_ok_same [OF ids0 w(3), of "own_core own'"] v(2) unfolding r(1) by simp
    have "queue_inv s'"
      by (rule queue_inv_group_effect [OF assms(1,2) ge v(3) r(2) _ r(4) _ _ ids]) (use v(1) w(2) r(5) ct(3,4) in auto)
    moreover have "hw_inv s'" if "deletes_succeed e" "hw_inv s"
    proof (rule hw_inv_group_effect [OF assms(1) that(2) assms(2) ge])
      fix Q ct1 assume a: "k_ctrls s ?c = Some ct1" "ctl_queues s (ctrl_pdev ct1) = (Q, Q)" "Q \<subseteq> pool_used (ctrl_pool ct1)"
        "Q \<noteq> {} \<Longrightarrow> pci_live (k_pci s) (ctrl_pdev ct1)"
      have "ct1 = ct" using a(1) ct(1) by simp
      moreover have "(pool_range p1 - pool_used p1) \<inter> (Q \<union> Q) = {}" using a(3) r(5) \<open>ct1 = ct\<close> by auto
      then have "fold (dev_event (ctrl_pdev ct)) evs (Q, Q) = (Q, Q)" using r(7) that(1) unfolding dev_unchanged_def by blast
      ultimately show "\<exists>Q'. ctl_queues s' (ctrl_pdev ct1) = (Q', Q') \<and> Q' \<subseteq> pool_used p1 \<and> (Q' \<noteq> {} \<longrightarrow> pci_live (k_pci s) (ctrl_pdev ct1))"
        using a(2,3,4) r(1,5) by (intro exI [of _ Q]) (simp add: ctl_queues_def dev_queues_append)
    qed
    ultimately show ?thesis by blast
  qed
  then show "queue_inv s'" "deletes_succeed e \<Longrightarrow> hw_inv s \<Longrightarrow> hw_inv s'" by simp_all
qed

subsection \<open>Opening and releasing a file\<close>

lemma files_coreD: "files_core s f = Some o' \<Longrightarrow> \<exists>own. k_files s f = Some own \<and> own_core own = o'"
  by (auto simp: files_core_def)

text \<open>Pass 0 of the release: the groups.\<close>

lemma inv_release_groups:
  fixes e :: kenv
  assumes "queue_inv s" "mem_inv s" "k_files s f = Some own"
  defines "s2 \<equiv> set_own f (\<lambda>own. own\<lparr>own_nr_groups := 0\<rparr>) (release_groups e (own_ctrl own) f (own_groups own) s)"
  shows "queue_inv s2" "mem_inv s2" "deletes_succeed e \<Longrightarrow> hw_inv s \<Longrightarrow> hw_inv s2"
    "files_core s2 = (files_core s)(f \<mapsto> own_core (own\<lparr>own_groups := [], own_nr_groups := 0\<rparr>))" "k_ctrls s2 (own_ctrl own) \<noteq> None"
proof -
  have w: "file_wf own" by (rule queue_inv_file(1) [OF assms(1,3)])
  obtain ct where ct: "k_ctrls s (own_ctrl own) = Some ct" using queue_inv_file(3) [OF assms(1,3)] by blast
  have "queue_inv s2 \<and> mem_inv s2 \<and> (deletes_succeed e \<longrightarrow> hw_inv s \<longrightarrow> hw_inv s2) \<and>
    files_core s2 = (files_core s)(f \<mapsto> own_core (own\<lparr>own_groups := [], own_nr_groups := 0\<rparr>)) \<and> k_ctrls s2 (own_ctrl own) \<noteq> None"
  proof (cases "own_groups own")
    case Nil
    then have n: "own_nr_groups own = 0" "own\<lparr>own_groups := [], own_nr_groups := 0\<rparr> = own" using w by (simp_all add: file_wf_def)
    have s2: "s2 = s" unfolding s2_def using Nil assms(3) n by (simp add: set_own_def get_own_def fun_upd_idem)
    show ?thesis unfolding s2 n(2) using assms(1-3) ct by (simp add: files_core_def fun_eq_iff)
  next
    case (Cons g gs)
    then have g: "own_groups own = [g]" using w by (simp add: file_wf_def)
    let ?t = "s\<lparr>k_files := (k_files s)(f \<mapsto> own\<lparr>own_groups := [], own_nr_groups := own_nr_groups own\<rparr>)\<rparr>"
    let ?d = "destroy_qgroup_locked e (Some g) (Some (own_ctrl own)) ?t"
    have s2: "s2 = set_own f (\<lambda>own. own\<lparr>own_nr_groups := 0\<rparr>) ?d"
      unfolding s2_def g using assms(3) g by (simp add: set_own_def get_own_def)
    have ctt: "k_ctrls ?t (own_ctrl own) = Some ct" using ct by simp
    note d = destroy_core [OF ctt, where e = e and g = g]
    have "files_core ?d f = Some (own_core (own\<lparr>own_groups := [], own_nr_groups := own_nr_groups own\<rparr>))"
      unfolding d(1) by (simp add: files_core_def)
    then obtain o1 where o1: "k_files ?d f = Some o1" "own_core o1 = own_core (own\<lparr>own_groups := [], own_nr_groups := own_nr_groups own\<rparr>)"
      using files_coreD by blast
    have oc: "own_core (o1\<lparr>own_nr_groups := 0\<rparr>) = own_core (own\<lparr>own_groups := [], own_nr_groups := 0\<rparr>)"
      using o1(2) by (cases o1; cases own) (auto simp: own_core_def)
    have f2: "files_core s2 = (files_core ?d)(f \<mapsto> own_core (own\<lparr>own_groups := [], own_nr_groups := 0\<rparr>))"
      unfolding s2 using o1(1) oc by (simp add: files_core_def set_own_def get_own_def fun_eq_iff)
    have c2: "ctrls_core s2 = ctrls_core ?d" "k_ctrl_list s2 = k_ctrl_list ?t" "k_next_cid s2 = k_next_cid ?t" "k_pci s2 = k_pci ?t"
      "k_queue_group_ida s2 = k_queue_group_ida ?t - {unat (g_group_id g)}" "ctl_queues s2 = ctl_queues ?d" "k_ctrls s2 = k_ctrls ?d"
      using d(3-6) unfolding s2 by (simp_all add: set_own_def ctrls_core_def ctl_queues_def)
    have q: "queue_inv s2" "deletes_succeed e \<Longrightarrow> hw_inv s \<Longrightarrow> hw_inv s2"
      by (rule inv_drop_group [OF assms(1,3) g, of ?t "own_nr_groups own" s2 e]; (use f2 c2 d(1) in simp))+
    have "mem_inv ?d" by (rule mem_inv_drop_group [OF assms(2,3) g ct])
    then have "mem_inv s2" unfolding s2 by (rule mem_inv_set_own) (use o1(1) in simp_all)
    moreover have "k_ctrls s2 (own_ctrl own) \<noteq> None" using fun_cong [OF d(2), of "own_ctrl own"] unfolding c2(7) by (auto simp: ctrls_core_def)
    moreover have "files_core s2 = (files_core s)(f \<mapsto> own_core (own\<lparr>own_groups := [], own_nr_groups := 0\<rparr>))"
      unfolding f2 d(1) by (simp add: files_core_def fun_eq_iff)
    ultimately show ?thesis using q by simp
  qed
  then show "queue_inv s2" "mem_inv s2" "deletes_succeed e \<Longrightarrow> hw_inv s \<Longrightarrow> hw_inv s2"
    "files_core s2 = (files_core s)(f \<mapsto> own_core (own\<lparr>own_groups := [], own_nr_groups := 0\<rparr>))" "k_ctrls s2 (own_ctrl own) \<noteq> None" by simp_all
qed

text \<open>Passes 1 to 3: the data maps, the maps of the owner, the counters.\<close>

lemma release_parts:
  fixes e :: kenv
  assumes "queue_inv s" "mem_inv s" "k_files s f = Some own"
  defines "s2 \<equiv> set_own f (\<lambda>own. own\<lparr>own_nr_groups := 0\<rparr>) (release_groups e (own_ctrl own) f (own_groups own) s)"
  obtains s8 where "snvm_dev_release e f s = s8\<lparr>k_files := (k_files s8)(f := None)\<rparr>" "core s8 = core s2" "mem_inv s8"
    "mem_inv (set_own f (\<lambda>own. own\<lparr>own_nr_data_maps := 0\<rparr>) (fold unmap_and_release (own_data_maps (get_own s2 f)) s2))"
proof -
  note r = inv_release_groups [OF assms(1-3), where e = e, folded s2_def]
  let ?c = "own_ctrl own" and ?o = "own_owner own"
  obtain o2 where o2: "k_files s2 f = Some o2" using files_coreD [of s2 f] r(4) by auto
  let ?s3 = "fold unmap_and_release (own_data_maps (get_own s2 f)) s2"
  have "distinct (linked_maps o2)" "set (linked_maps o2) \<subseteq> dom (k_maps s2)"
    using mem_invD(1,2) [OF r(2)] o2 unfolding links_ok_def maps_wf_def by blast+
  then have m3: "mem_inv ?s3" using o2 r(2) by (intro mem_inv_fold_unmap) (simp_all add: get_own_def linked_maps_def)
  have c3: "core ?s3 = core s2" by simp
  have "k_files ?s3 f \<noteq> None" using core_files_ctrls(2) [OF c3] o2 by simp
  then obtain o3 where o3: "k_files ?s3 f = Some o3" by blast
  let ?s4 = "set_own f (\<lambda>own. own\<lparr>own_nr_data_maps := 0\<rparr>) ?s3"
  have m4: "mem_inv ?s4" by (rule mem_inv_set_own [OF m3 o3]) simp
  have c4: "core ?s4 = core s2" using core_set_own [OF o3, of "\<lambda>own. own\<lparr>own_nr_data_maps := 0\<rparr>"] by (simp add: cores)
  let ?s5 = "snd (map_purge_by_owner HostList ?o ?s4)"
  let ?s6 = "snd (map_purge_by_owner DeviceList ?o ?s5)"
  let ?s7 = "snd (map_purge_by_owner DeviceQueueList ?o ?s6)"
  have m5: "mem_inv ?s5" "mem_inv ?s6" "mem_inv ?s7" using m4 by (simp_all add: mem_inv_purge)
  have c7: "core ?s7 = core s2" using c4 m4 m5 by (simp add: mem_invD(1))
  have k7: "k_ctrls ?s7 ?c \<noteq> None" by (rule ctrl_kept [OF c7 r(5)])
  let ?h = "apply_rollback (rollback_ioq ?o ?s4) (rollback_cq ?o ?s4)"
  have c8: "core (set_ctrl ?c ?h ?s7) = core s2"
    using core_set_ctrl [OF k7, of ?h] c7 by (simp add: apply_rollback_def cores)
  have m8: "mem_inv (set_ctrl ?c ?h ?s7)" using m5(3) by simp
  have "snvm_dev_release e f s = (set_ctrl ?c ?h ?s7)\<lparr>k_files := (k_files (set_ctrl ?c ?h ?s7))(f := None)\<rparr>"
    using assms(3) unfolding s2_def by (simp add: snvm_dev_release_def Let_def)
  then show ?thesis using that c8 m8 m4 by blast
qed

lemma inv_release:
  assumes "queue_inv s" "mem_inv s" "k_files s f = Some own"
  shows "queue_inv (snvm_dev_release e f s)" "mem_inv (snvm_dev_release e f s)"
    "deletes_succeed e \<Longrightarrow> hw_inv s \<Longrightarrow> hw_inv (snvm_dev_release e f s)"
proof -
  note r = inv_release_groups [OF assms, where e = e]
  let ?s2 = "set_own f (\<lambda>own. own\<lparr>own_nr_groups := 0\<rparr>) (release_groups e (own_ctrl own) f (own_groups own) s)"
  let ?own' = "own\<lparr>own_groups := [], own_nr_groups := 0\<rparr>"
  obtain s8 where s8: "snvm_dev_release e f s = s8\<lparr>k_files := (k_files s8)(f := None)\<rparr>" "core s8 = core ?s2" "mem_inv s8"
    using release_parts [OF assms] .
  have q8: "queue_inv s8" "deletes_succeed e \<Longrightarrow> hw_inv s \<Longrightarrow> hw_inv s8"
    using r(1,3) queue_inv_core [OF s8(2)] hw_inv_core [OF s8(2)] by simp_all
  have f8: "files_core s8 f = Some (own_core ?own')" using s8(2) r(4) by (simp add: core_def)
  have fc: "files_core (snvm_dev_release e f s) = (files_core s8)(f := None)" unfolding s8(1) by (simp add: files_core_def fun_eq_iff)
  have "queues_ok ((files_core s8)(f := None)) (ctrls_core s8)"
    by (rule queues_ok_close [OF q8(1) [unfolded queue_inv_def, THEN conjunct1] f8]) simp
  moreover have "ids_ok ((files_core s8)(f := None)) (k_queue_group_ida s8)"
    using q8(1) unfolding queue_inv_def ids_ok_def by (auto split: if_splits)
  ultimately show "queue_inv (snvm_dev_release e f s)"
    using q8(1) unfolding queue_inv_def fc unfolding s8(1) by (simp add: ctrls_core_def)
  show "hw_inv (snvm_dev_release e f s)" if "deletes_succeed e" "hw_inv s"
    using q8(2) [OF that] unfolding s8(1) by (simp add: hw_inv_def ctrls_core_def ctl_queues_def)
  show "mem_inv (snvm_dev_release e f s)"
    unfolding s8(1) using mem_invD(2) [OF s8(3)] by (intro mem_inv_files [OF s8(3)]) (auto simp: links_sub_def links_ok_def)
qed

lemma inv_open:
  assumes "queue_inv s" "mem_inv s" "k_files s f = None" "snvm_dev_open e i f s = (rc, s')"
  shows "queue_inv s'" "mem_inv s'" "hw_inv s \<Longrightarrow> hw_inv s'"
proof -
  have "queue_inv s' \<and> mem_inv s' \<and> (hw_inv s \<longrightarrow> hw_inv s')"
  proof (cases "s' = s")
    case False
    then obtain c where c: "ctrl_find_by_inode i s = Some c" and s': "s' = s\<lparr>k_files := (k_files s)(f \<mapsto> new_owner e c)\<rparr>"
      using assms(4) by (auto simp: snvm_dev_open_def split: option.splits if_splits)
    have "c \<in> set (k_ctrl_list s)" using c by (auto simp: ctrl_find_by_inode_def find_Some_iff)
    then have cd: "ctrls_core s c \<noteq> None" using assms(1) by (auto simp: queue_inv_def ctrls_ok_def)
    have fc: "files_core s' = (files_core s)(f \<mapsto> own_core (new_owner e c))" unfolding s' by (simp add: files_core_def fun_eq_iff)
    have f0: "files_core s f = None" using assms(3) by (simp add: files_core_def)
    have o: "own_groups (new_owner e c) = []" "own_ctrl (new_owner e c) = c" "file_wf (new_owner e c)" "linked_maps (new_owner e c) = []"
      by (simp_all add: new_owner_def file_wf_def linked_maps_def)
    have "queues_ok (files_core s') (ctrls_core s)"
      unfolding fc by (rule queues_ok_open [OF assms(1) [unfolded queue_inv_def, THEN conjunct1] f0]) (use o cd in simp_all)
    moreover have "ids_ok (files_core s') (k_queue_group_ida s)"
      unfolding fc using assms(1) o(1) unfolding queue_inv_def ids_ok_def by (auto simp: own_gids_def own_core_def split: if_splits)
    ultimately have "queue_inv s'" using assms(1) unfolding queue_inv_def by (simp add: s' ctrls_core_def)
    moreover have "mem_inv s'" unfolding s' using mem_invD(2) [OF assms(2)] o(4)
      by (intro mem_inv_files [OF assms(2)]) (auto simp: links_sub_def links_ok_def)
    ultimately show ?thesis by (simp add: hw_inv_def s' ctrls_core_def ctl_queues_def)
  qed (use assms(1,2) in simp)
  then show "queue_inv s'" "mem_inv s'" "hw_inv s \<Longrightarrow> hw_inv s'" by simp_all
qed

end
