(* ===== verification/System_Control.thy ===== *)
theory System_Control
  imports System_Invariant
begin

text \<open>
  The control requests keep the invariants of \<open>System_Invariant\<close> and \<open>System_Memory\<close>: binding, unbinding and
  resetting change PCI devices only, and a controller record comes and goes with its pool unused.
\<close>

subsection \<open>Steps on PCI devices\<close>

text \<open>Only PCI devices, the registration flag and resets; a device that is no longer live, or no longer brought up with
  registered rings, has been reset.\<close>

definition pci_kept :: "(pdev \<rightharpoonup> pci_device) \<Rightarrow> (pdev \<rightharpoonup> pci_device) \<Rightarrow> pdev \<Rightarrow> bool" where
  "pci_kept P P' pd \<longleftrightarrow> (pci_live P pd \<longrightarrow> pci_live P' pd) \<and> (pre_registered P pd \<longrightarrow> pre_registered P' pd)"

lemma pci_kept_refl [simp]: "pci_kept P P pd"
  by (simp add: pci_kept_def)

definition pci_step :: "kst \<Rightarrow> kst \<Rightarrow> bool" where
  "pci_step s s' \<longleftrightarrow> (\<exists>P r evs. s' = s\<lparr>k_pci := P, k_registered := r, k_log := k_log s @ evs\<rparr> \<and>
       (\<forall>ev \<in> set evs. \<exists>pd. ev = EvReset pd) \<and> dom P = dom (k_pci s) \<and> (pci_ok (k_pci s) \<longrightarrow> pci_ok P)) \<and>
     (\<forall>pd. ctl_queues s' pd = ({}, {}) \<or> ctl_queues s' pd = ctl_queues s pd \<and> pci_kept (k_pci s) (k_pci s') pd)"

lemma pci_step_refl [simp]: "pci_step s s"
  unfolding pci_step_def by (intro conjI exI [of _ "k_pci s"] exI [of _ "k_registered s"] exI [of _ "[]"]) auto

lemma ctl_queues_reset: "\<forall>ev \<in> set evs. \<exists>pd. ev = EvReset pd \<Longrightarrow> fold (dev_event pd) evs ({}, {}) = ({}, {})"
  by (induction evs) auto

lemma pci_step_trans:
  assumes "pci_step s s'" "pci_step s' s''" shows "pci_step s s''"
proof -
  obtain P r evs where a: "s' = s\<lparr>k_pci := P, k_registered := r, k_log := k_log s @ evs\<rparr>" "\<forall>ev \<in> set evs. \<exists>pd. ev = EvReset pd"
    "dom P = dom (k_pci s)" "pci_ok (k_pci s) \<longrightarrow> pci_ok P" using assms(1) unfolding pci_step_def by blast
  obtain P' r' evs' where b: "s'' = s'\<lparr>k_pci := P', k_registered := r', k_log := k_log s' @ evs'\<rparr>" "\<forall>ev \<in> set evs'. \<exists>pd. ev = EvReset pd"
    "dom P' = dom (k_pci s')" "pci_ok (k_pci s') \<longrightarrow> pci_ok P'" using assms(2) unfolding pci_step_def by blast
  have "s'' = s\<lparr>k_pci := P', k_registered := r', k_log := k_log s @ (evs @ evs')\<rparr>" unfolding b(1) a(1) by simp
  moreover have "\<forall>ev \<in> set (evs @ evs'). \<exists>pd. ev = EvReset pd" using a(2) b(2) by auto
  moreover have "dom P' = dom (k_pci s)" "pci_ok (k_pci s) \<longrightarrow> pci_ok P'" using a b(3,4) by simp_all
  moreover have "ctl_queues s'' pd = ({}, {}) \<or> ctl_queues s'' pd = ctl_queues s pd \<and> pci_kept (k_pci s) (k_pci s'') pd" for pd
  proof (cases "ctl_queues s' pd = ({}, {})")
    case True
    have "ctl_queues s'' pd = fold (dev_event pd) evs' (ctl_queues s' pd)" unfolding b(1) by (simp add: ctl_queues_def dev_queues_append)
    then show ?thesis using True ctl_queues_reset [OF b(2)] by simp
  next
    case False
    have "ctl_queues s' pd = ctl_queues s pd \<and> pci_kept (k_pci s) (k_pci s') pd"
      using assms(1) False unfolding pci_step_def by blast
    moreover have "ctl_queues s'' pd = ({}, {}) \<or> ctl_queues s'' pd = ctl_queues s' pd \<and> pci_kept (k_pci s') (k_pci s'') pd"
      using assms(2) unfolding pci_step_def by blast
    ultimately show ?thesis by (auto simp: pci_kept_def)
  qed
  ultimately show ?thesis unfolding pci_step_def by blast
qed

lemma pci_step_inv:
  assumes "pci_step s s'"
  shows "queue_inv s \<Longrightarrow> queue_inv s'" "mem_inv s \<Longrightarrow> mem_inv s'" "hw_inv s \<Longrightarrow> hw_inv s'"
    "dom (k_pci s') = dom (k_pci s)" "k_files s' = k_files s" "k_ctrls s' = k_ctrls s" "k_ctrl_list s' = k_ctrl_list s"
proof -
  obtain P r evs where a: "s' = s\<lparr>k_pci := P, k_registered := r, k_log := k_log s @ evs\<rparr>" "\<forall>ev \<in> set evs. \<exists>pd. ev = EvReset pd"
    "dom P = dom (k_pci s)" "pci_ok (k_pci s) \<longrightarrow> pci_ok P" using assms unfolding pci_step_def by blast
  show "queue_inv s'" if "queue_inv s" using that a(4) by (simp add: queue_inv_def a(1) files_core_def ctrls_core_def)
  show "mem_inv s'" if "mem_inv s"
    using that links_sub_refl [OF mem_invD(2) [OF that]] a(2)
    by (intro mem_inv_frame [OF that, where evs = evs]) (simp_all add: a(1) all_lists_def)
  show "dom (k_pci s') = dom (k_pci s)" "k_files s' = k_files s" "k_ctrls s' = k_ctrls s" "k_ctrl_list s' = k_ctrl_list s"
    using a(3) by (simp_all add: a(1))
  have cc: "ctrls_core s' = ctrls_core s" by (simp add: a(1) ctrls_core_def)
  show "hw_inv s'" if hw: "hw_inv s"
    unfolding hw_inv_def hw_ok_def cc
  proof (intro allI impI)
    fix pd assume np: "\<not> pre_registered (k_pci s') pd"
    have q: "\<exists>Q. ctl_queues s pd = (Q, Q) \<and> (Q \<noteq> {} \<longrightarrow> pci_live (k_pci s) pd \<and> (\<exists>c p. ctrls_core s c = Some (pd, p) \<and> Q \<subseteq> pool_used p))"
      if "\<not> pre_registered (k_pci s) pd" using hw that unfolding hw_inv_def hw_ok_def by blast
    have "ctl_queues s' pd = ({}, {}) \<or> ctl_queues s' pd = ctl_queues s pd \<and> pci_kept (k_pci s) (k_pci s') pd"
      using assms unfolding pci_step_def by blast
    then show "\<exists>Q. ctl_queues s' pd = (Q, Q) \<and> (Q \<noteq> {} \<longrightarrow> pci_live (k_pci s') pd \<and> (\<exists>c p. ctrls_core s c = Some (pd, p) \<and> Q \<subseteq> pool_used p))"
      using q np by (auto simp: pci_kept_def)
  qed
qed

text \<open>A change of one device that keeps it live or happens while it is not.\<close>

lemma pci_step_set:
  assumes "k_pci s pd = Some d" "ndev_ok (pci_drvdata d) \<longrightarrow> ndev_ok (pci_drvdata (h d))"
    "pci_kept (k_pci s) [pd \<mapsto> h d] pd"
  shows "pci_step s (set_pci pd h s)"
proof -
  have e: "set_pci pd h s = s\<lparr>k_pci := (k_pci s)(pd \<mapsto> h d), k_registered := k_registered s, k_log := k_log s @ []\<rparr>"
    using assms(1) by (simp add: set_pci_def get_pci_def)
  have "pci_ok (k_pci s) \<longrightarrow> pci_ok ((k_pci s)(pd \<mapsto> h d))" using assms(1,2) by (auto simp: pci_ok_def)
  moreover have "dom ((k_pci s)(pd \<mapsto> h d)) = dom (k_pci s)" using assms(1) by auto
  ultimately show ?thesis unfolding pci_step_def using e assms(3)
    by (intro conjI exI [of _ "(k_pci s)(pd \<mapsto> h d)"] exI [of _ "k_registered s"] exI [of _ "[]"])
      (auto simp: ctl_queues_def pci_kept_def pci_live_def pre_registered_def)
qed

text \<open>A change of one device followed by its reset.\<close>

lemma pci_step_reset:
  assumes "k_pci s pd = Some d" "ndev_ok (pci_drvdata d) \<longrightarrow> ndev_ok (pci_drvdata (h d))"
  shows "pci_step s (log_event (EvReset pd) (set_pci pd h s))"
proof -
  let ?s = "log_event (EvReset pd) (set_pci pd h s)"
  have e: "?s = s\<lparr>k_pci := (k_pci s)(pd \<mapsto> h d), k_registered := k_registered s, k_log := k_log s @ [EvReset pd]\<rparr>"
    using assms(1) by (simp add: set_pci_def get_pci_def log_event_def)
  have "pci_ok (k_pci s) \<longrightarrow> pci_ok ((k_pci s)(pd \<mapsto> h d))" using assms(1,2) by (auto simp: pci_ok_def)
  moreover have "dom ((k_pci s)(pd \<mapsto> h d)) = dom (k_pci s)" using assms(1) by auto
  moreover have "ctl_queues ?s pd' = ({}, {}) \<or> ctl_queues ?s pd' = ctl_queues s pd' \<and> pci_kept (k_pci s) (k_pci ?s) pd'" for pd'
  proof (cases "pd' = pd")
    case True
    obtain a b where "dev_queues pd (k_log s) = (a, b)" by fastforce
    then show ?thesis unfolding e using True by (simp add: ctl_queues_def dev_queues_append)
  next
    case False
    obtain a b where "dev_queues pd' (k_log s) = (a, b)" by fastforce
    then show ?thesis unfolding e using False by (simp add: ctl_queues_def dev_queues_append pci_kept_def pci_live_def pre_registered_def)
  qed
  ultimately show ?thesis unfolding pci_step_def
    by (intro conjI exI [of _ "(k_pci s)(pd \<mapsto> h d)"] exI [of _ "k_registered s"] exI [of _ "[EvReset pd]"]) (use e in simp_all)
qed

subsection \<open>Bind and unbind\<close>

lemma probe_dev_ok: "ndev_ok (Some (probe_dev pe ct))"
  by (simp add: ndev_ok_def probe_dev_def probe_setup_snapshot_def probe_user_budget_def zero_nvme_dev_def Let_def)

lemma k_pci_set_pci [simp]:
  "k_pci (set_pci pd h s) = (k_pci s)(pd \<mapsto> h (get_pci s pd))" "get_pci (set_pci pd h s) pd = h (get_pci s pd)"
  "k_pci (log_event ev s) = k_pci s" "get_pci (log_event ev s) pd = get_pci s pd"
  by (simp_all add: set_pci_def get_pci_def log_event_def)

lemma set_pci_set_pci: "set_pci pd h (set_pci pd h' s) = set_pci pd (\<lambda>d. h (h' d)) s"
  by (simp add: set_pci_def get_pci_def)

lemma set_pci_log: "set_pci pd h (log_event ev s) = log_event ev (set_pci pd h s)"
  by (simp add: set_pci_def get_pci_def log_event_def)

lemma core_probe_step:
  assumes "k_pci s pd = Some d" "pci_driver d = None" "core_probe pe pd s = (rc, s')"
  shows "pci_step s s'"
proof -
  have nl: "pci_kept (k_pci s) P pd" for P using assms(1,2) by (simp add: pci_kept_def pci_live_def pre_registered_def)
  have f: "pci_step s (set_pci pd (\<lambda>d. h (pci_drvdata_update (\<lambda>_. nd) d)) s)" if "ndev_ok nd" "\<And>d. pci_drvdata (h d) = None" for h nd
    by (rule pci_step_set [OF assms(1)]) (use that nl in \<open>simp_all add: ndev_ok_def\<close>)
  have g: "pci_step s (log_event (EvReset pd) (set_pci pd (\<lambda>d. d\<lparr>pci_drvdata := Some (probe_dev pe ct),
       pci_driver := Some PCI_DRIVER_NAME, pci_enabled := True\<rparr>) s))" for ct
    by (rule pci_step_reset [OF assms(1)]) (use probe_dev_ok in simp)
  have n: "pci_step s (set_pci pd (\<lambda>d. d\<lparr>pci_drvdata := None\<rparr>) s)"
    by (rule pci_step_set [OF assms(1)]) (use nl in \<open>simp_all add: ndev_ok_def\<close>)
  show ?thesis using assms(3) g n f
    by (auto simp: core_probe_def nvme_probe_def Let_def set_pci_log set_pci_set_pci split: option.splits if_splits)
qed

lemma device_release_driver_step:
  assumes "k_pci s pd = Some d" shows "pci_step s (device_release_driver pd s)"
proof (cases "pci_driver d = Some PCI_DRIVER_NAME")
  case True
  have "pci_step s (log_event (EvReset pd) (set_pci pd (\<lambda>d. d\<lparr>pci_enabled := False, pci_driver := None, pci_drvdata := None\<rparr>) s))"
    by (rule pci_step_reset [OF assms]) (simp add: ndev_ok_def)
  then show ?thesis using True assms
    by (simp add: device_release_driver_def nvme_remove_def get_pci_def set_pci_log set_pci_set_pci)
next
  case False
  then show ?thesis using assms
    by (auto simp: device_release_driver_def get_pci_def ndev_ok_def pci_kept_def pci_live_def pre_registered_def intro!: pci_step_set)
qed

lemma disable_step: "k_pci s pd = Some d \<Longrightarrow> pci_step s (disable_if_enabled pd s)"
  by (auto simp: disable_if_enabled_def pci_kept_def pci_live_def pre_registered_def intro!: pci_step_set split: option.splits)

lemma pci_step_dom: "pci_step s s' \<Longrightarrow> k_pci s pd \<noteq> None \<Longrightarrow> k_pci s' pd \<noteq> None"
  using pci_step_inv(4) by (metis domIff)

lemma register_fold_step:
  "pci_step s (fold (\<lambda>pd s. if k_pci s pd \<noteq> None \<and> snvme_matches (get_pci s pd) then snd (core_probe pe pd s) else s) bus s)"
proof (induction bus arbitrary: s)
  case (Cons pd bus)
  let ?s1 = "if k_pci s pd \<noteq> None \<and> snvme_matches (get_pci s pd) then snd (core_probe pe pd s) else s"
  have "pci_step s ?s1"
  proof (cases "k_pci s pd \<noteq> None \<and> snvme_matches (get_pci s pd)")
    case True
    then obtain d where "k_pci s pd = Some d" "pci_driver d = None" by (auto simp: snvme_matches_def get_pci_def)
    then show ?thesis using True core_probe_step [of s pd d pe] by (metis prod.collapse)
  qed auto
  then show ?case using Cons.IH [of ?s1] pci_step_trans by (metis (no_types, lifting) fold_simps(2))
qed simp

lemma registered_step: "pci_step s (s\<lparr>k_registered := r\<rparr>)"
  unfolding pci_step_def by (intro conjI exI [of _ "k_pci s"] exI [of _ r] exI [of _ "[]"]) (auto simp: ctl_queues_def)

lemma register_driver_step: "register_driver pe bus s = (rc, s') \<Longrightarrow> pci_step s s'"
  by (auto simp: register_driver_def snvm_register_driver_def simp del: not_None_eq split: if_splits
      intro: register_fold_step pci_step_trans [OF register_fold_step registered_step])

lemma set_override_step: "k_pci s pd = Some d \<Longrightarrow> pci_step s (set_pci pd (\<lambda>d. d\<lparr>pci_driver_override := oo\<rparr>) s)"
  by (rule pci_step_set) (auto simp: pci_kept_def pci_live_def pre_registered_def split: option.splits)

lemma rebind_step:
  assumes "snvm_rebind_driver pe bus (Some pd) s = (rc, s')" "k_pci s pd \<noteq> None"
  shows "pci_step s s'"
proof -
  let ?s1 = "if pci_driver (get_pci s pd) \<noteq> None then device_release_driver pd (disable_if_enabled pd s) else s"
  obtain ret s2 where r: "register_driver pe bus ?s1 = (ret, s2)" by fastforce
  obtain d where d: "k_pci s pd = Some d" using assms(2) by blast
  have "pci_step s ?s1"
  proof -
    have a: "pci_step s (disable_if_enabled pd s)" using disable_step [OF d] .
    then obtain d' where "k_pci (disable_if_enabled pd s) pd = Some d'" using pci_step_dom assms(2) by blast
    then show ?thesis using pci_step_trans [OF a device_release_driver_step] by simp
  qed
  then have s2: "pci_step s s2" using register_driver_step [OF r] pci_step_trans by blast
  then obtain d2 where d2: "k_pci s2 pd = Some d2" using pci_step_dom assms(2) by blast
  note ov = set_override_step [OF d2]
  let ?s3 = "set_pci pd (\<lambda>d. d\<lparr>pci_driver_override := Some PCI_DRIVER_NAME\<rparr>) s2"
  have "pci_step s2 s3" if "device_attach pe pd ?s3 = (ret', s3)" for ret' s3
  proof (cases "snvme_matches (get_pci ?s3 pd)")
    case True
    have "k_pci ?s3 pd = Some (get_pci ?s3 pd)" "pci_driver (get_pci ?s3 pd) = None" using True by (simp_all add: snvme_matches_def)
    moreover have "core_probe pe pd ?s3 = (fst (core_probe pe pd ?s3), s3)"
      using \<open>device_attach pe pd ?s3 = (ret', s3)\<close> True by (auto simp: device_attach_def split: prod.splits if_splits)
    ultimately have "pci_step ?s3 s3" by (rule core_probe_step)
    then show ?thesis using pci_step_trans [OF ov] by blast
  next
    case False
    then show ?thesis using that ov by (auto simp: device_attach_def)
  qed
  then have "pci_step s2 s'" using assms(1) r ov [of None]
    by (auto simp: snvm_rebind_driver_def Let_def split: if_splits prod.splits)
  then show ?thesis using s2 pci_step_trans by blast
qed

lemma unbind_step:
  assumes "snvm_unbind_driver (Some pd) s = (rc, s')" "k_pci s pd \<noteq> None"
  shows "pci_step s s'"
proof -
  obtain d where d: "k_pci s pd = Some d" using assms(2) by blast
  have a: "pci_step s (disable_if_enabled pd s)" using disable_step [OF d] .
  then obtain d' where "k_pci (disable_if_enabled pd s) pd = Some d'" using pci_step_dom assms(2) by blast
  then have "pci_step s (device_release_driver pd (disable_if_enabled pd s))" using pci_step_trans [OF a device_release_driver_step] by simp
  then show ?thesis using assms(1) by (auto simp: snvm_unbind_driver_def split: option.splits if_splits)
qed

subsection \<open>Controller records\<close>

definition new_ctrl :: "kenv \<Rightarrow> pdev \<Rightarrow> int \<Rightarrow> ctrl" where
  "new_ctrl e pd number = \<lparr>ctrl_pdev = pd, ctrl_number = number, ctrl_name = ''ssnvme'' @ dec_string number,
     ctrl_chrdev = False, ctrl_on_host = uninit_u32 e, ctrl_ioq_num = 0, ctrl_cq_num = 0, ctrl_ioq_map_num = 0,
     ctrl_use_sreg = 0, ctrl_setup = empty_setup, ctrl_pool = empty_pool\<rparr>"

lemma ctrl_get_eq:
  "ctrl_get e pd number s = (if \<not> kmalloc_ok e A_ctrl then (Inl (- ENOMEM), s)
     else (Inr (k_next_cid s), s\<lparr>k_next_cid := Suc (k_next_cid s), k_ctrls := (k_ctrls s)(k_next_cid s \<mapsto> new_ctrl e pd number),
        k_ctrl_list := k_ctrl_list s @ [k_next_cid s]\<rparr>))"
  by (simp add: ctrl_get_def new_ctrl_def Let_def)

lemma ctrl_put_eq:
  "ctrl_put (Some c) s = s\<lparr>k_ctrl_list := remove1 c (k_ctrl_list s), k_ctrls := (k_ctrls s)(c := None)\<rparr>"
  by (simp add: ctrl_put_def Let_def ctrl_chrdev_remove_def set_ctrl_def get_ctrl_def)

lemma cid_fresh: "queue_inv s \<Longrightarrow> ctrls_core s (k_next_cid s) = None"
  unfolding queue_inv_def ctrls_ok_def by (meson domIff less_irrefl)

lemma held_no_file:
  assumes "\<And>f own. k_files s f = Some own \<Longrightarrow> own_ctrl own \<noteq> c" shows "held (files_core s) c = {}"
  using assms by (auto simp: held_def qids_of_def files_core_def split: option.splits if_splits)

lemma files_no_fresh:
  "queue_inv s \<Longrightarrow> k_files s f = Some own \<Longrightarrow> own_ctrl own \<noteq> k_next_cid s"
  using queue_inv_file(3) [of s f own] cid_fresh [of s] by auto

lemma find_by_pci_dev_none:
  assumes "queue_inv s" "ctrl_find_by_pci_dev pd s = None" "ctrls_core s c = Some (pd', p)" shows "pd' \<noteq> pd"
proof -
  obtain ct where ct: "k_ctrls s c = Some ct" "pd' = ctrl_pdev ct" using assms(3) by (auto simp: ctrls_core_def ctrl_core_def)
  have "c \<in> set (k_ctrl_list s)" using assms(1,3) unfolding queue_inv_def ctrls_ok_def by (metis domIff option.distinct(1))
  then have "ctrl_pdev (get_ctrl s c) \<noteq> pd" using assms(2) by (auto simp: ctrl_find_by_pci_dev_def find_None_iff)
  then show ?thesis using ct by (simp add: get_ctrl_def)
qed

text \<open>A new record for a device that has none, whatever its flags and numbers.\<close>

lemma inv_add_ctrl:
  assumes "queue_inv s" "ctrl_find_by_pci_dev pd s = None" "ctrl_pdev ct = pd" "ctrl_pool ct = empty_pool"
    "s' = s\<lparr>k_chrdev_minor_ida := ida, k_next_cid := Suc (k_next_cid s), k_ctrls := (k_ctrls s)(k_next_cid s \<mapsto> ct),
        k_ctrl_list := k_ctrl_list s @ [k_next_cid s]\<rparr>"
  shows "queue_inv s'" "mem_inv s \<Longrightarrow> mem_inv s'" "hw_inv s \<Longrightarrow> hw_inv s'"
proof -
  let ?c = "k_next_cid s"
  have fr: "ctrls_core s ?c = None" by (rule cid_fresh [OF assms(1)])
  have cc: "ctrls_core s' = (ctrls_core s)(?c \<mapsto> (pd, empty_pool))" "files_core s' = files_core s"
    unfolding assms(5) by (simp_all add: ctrls_core_def files_core_def ctrl_core_def assms(3,4) fun_eq_iff)
  have q: "queues_ok (files_core s) (ctrls_core s)" "ctrls_ok (ctrls_core s) (k_ctrl_list s) (k_next_cid s)"
    using assms(1) by (simp_all add: queue_inv_def)
  have "held (files_core s) ?c = {}" by (rule held_no_file) (use files_no_fresh [OF assms(1)] in simp)
  then have "queues_ok (files_core s') (ctrls_core s')"
    using q(1) unfolding cc queues_ok_def by (auto simp: empty_pool_def pool_ok_def pool_used_def)
  moreover have "ctrls_ok (ctrls_core s') (k_ctrl_list s') (k_next_cid s')"
  proof -
    have l: "k_ctrl_list s' = k_ctrl_list s @ [?c]" "k_next_cid s' = Suc ?c" unfolding assms(5) by simp_all
    show ?thesis using q(2) fr find_by_pci_dev_none [OF assms(1,2)] unfolding cc l ctrls_ok_def
      by (auto simp: less_Suc_eq domIff split: if_splits)
  qed
  ultimately show "queue_inv s'" using assms(1) unfolding queue_inv_def by (simp add: assms(5) files_core_def)
  show "mem_inv s'" if "mem_inv s"
    using that unfolding assms(5)
    by (simp add: mem_inv_def maps_wf_def links_ok_def resources_ok_def accounted_def all_lists_def get_map_def)
  show "hw_inv s'" if "hw_inv s"
  proof -
    have h: "ctl_queues s' = ctl_queues s" "k_pci s' = k_pci s" unfolding assms(5) by (simp_all add: ctl_queues_def)
    have "\<exists>c' p. ((ctrls_core s)(?c \<mapsto> (pd, empty_pool))) c' = Some (pd', p) \<and> Q \<subseteq> pool_used p"
      if "ctrls_core s c' = Some (pd', p)" "Q \<subseteq> pool_used p" for c' pd' p Q
      using that fr by (intro exI [of _ c'] exI [of _ p]) auto
    then show ?thesis using \<open>hw_inv s\<close> unfolding hw_inv_def hw_ok_def cc h by meson
  qed
qed

text \<open>Dropping a record no open file refers to.\<close>

lemma inv_drop_ctrl:
  assumes "queue_inv s" "\<And>f own. k_files s f = Some own \<Longrightarrow> own_ctrl own \<noteq> c"
    "s' = s\<lparr>k_ctrl_list := remove1 c (k_ctrl_list s), k_ctrls := (k_ctrls s)(c := None), k_chrdev_minor_ida := ida\<rparr>"
  shows "queue_inv s'" "mem_inv s \<Longrightarrow> mem_inv s'" "hw_inv s \<Longrightarrow> hw_inv s'"
proof -
  have cc: "ctrls_core s' = (ctrls_core s)(c := None)" "files_core s' = files_core s"
    unfolding assms(3) by (simp_all add: ctrls_core_def files_core_def fun_eq_iff)
  have q: "queues_ok (files_core s) (ctrls_core s)" "ctrls_ok (ctrls_core s) (k_ctrl_list s) (k_next_cid s)"
    using assms(1) by (simp_all add: queue_inv_def)
  have nf: "own_ctrl o' \<noteq> c" if "files_core s f = Some o'" for f o' using files_coreD [OF that] assms(2) by force
  have "queues_ok (files_core s') (ctrls_core s')" using q(1) nf unfolding cc queues_ok_def by auto
  moreover have "ctrls_ok (ctrls_core s') (k_ctrl_list s') (k_next_cid s')"
  proof -
    have l: "k_ctrl_list s' = remove1 c (k_ctrl_list s)" "k_next_cid s' = k_next_cid s" unfolding assms(3) by simp_all
    show ?thesis using q(2) unfolding cc l ctrls_ok_def by (auto split: if_splits)
  qed
  ultimately show "queue_inv s'" using assms(1) unfolding queue_inv_def by (simp add: assms(3) files_core_def)
  show "mem_inv s'" if "mem_inv s"
    using that unfolding assms(3)
    by (simp add: mem_inv_def maps_wf_def links_ok_def resources_ok_def accounted_def all_lists_def get_map_def)
  have "held (files_core s) c = {}" by (rule held_no_file) (rule assms(2))
  then have e: "pool_used p = {}" if "ctrls_core s c = Some (pd, p)" for pd p
    using q(1) that unfolding queues_ok_def by blast
  show "hw_inv s'" if "hw_inv s"
  proof -
    have h: "ctl_queues s' = ctl_queues s" "k_pci s' = k_pci s" unfolding assms(3) by (simp_all add: ctl_queues_def)
    have "\<exists>c' p. ((ctrls_core s)(c := None)) c' = Some (pd', p) \<and> Q \<subseteq> pool_used p"
      if "ctrls_core s c' = Some (pd', p)" "Q \<subseteq> pool_used p" "Q \<noteq> {}" for c' pd' p Q
      using that e [of pd' p] by (intro exI [of _ c'] exI [of _ p]) auto
    then show ?thesis using \<open>hw_inv s\<close> unfolding hw_inv_def hw_ok_def cc h by meson
  qed
qed

lemma minor_inv [simp]:
  "queue_inv (s\<lparr>k_chrdev_minor_ida := ida\<rparr>) = queue_inv s" "mem_inv (s\<lparr>k_chrdev_minor_ida := ida\<rparr>) = mem_inv s"
  "hw_inv (s\<lparr>k_chrdev_minor_ida := ida\<rparr>) = hw_inv s"
  by (simp_all add: queue_inv_def hw_inv_def files_core_def ctrls_core_def ctl_queues_def mem_inv_def maps_wf_def links_ok_def
      resources_ok_def accounted_def all_lists_def get_map_def)

text \<open>The outcomes of creating a character device.\<close>

lemma chrdev_create_cases:
  assumes "snvm_chrdev_create e pd cls s = (rc, s')"
  obtains ida where "rc \<noteq> 0 \<or> ida = k_chrdev_minor_ida s" "s' = s\<lparr>k_chrdev_minor_ida := ida\<rparr>"
  | ct ida where "rc = 0" "ctrl_pdev ct = pd" "ctrl_pool ct = empty_pool" "ctrl_number ct = ida_simple_get e (k_chrdev_minor_ida s) 0"
      "ctrl_chrdev ct" "ida = insert (nat (ctrl_number ct)) (k_chrdev_minor_ida s)" "0 \<le> ctrl_number ct"
      "s' = s\<lparr>k_chrdev_minor_ida := ida, k_next_cid := Suc (k_next_cid s), k_ctrls := (k_ctrls s)(k_next_cid s \<mapsto> ct),
        k_ctrl_list := k_ctrl_list s @ [k_next_cid s]\<rparr>"
  | ct ida s1 where "rc \<noteq> 0" "ctrl_pdev ct = pd" "ctrl_pool ct = empty_pool"
      "s1 = s\<lparr>k_chrdev_minor_ida := insert (nat (ida_simple_get e (k_chrdev_minor_ida s) 0)) (k_chrdev_minor_ida s), k_next_cid := Suc (k_next_cid s), k_ctrls := (k_ctrls s)(k_next_cid s \<mapsto> ct),
        k_ctrl_list := k_ctrl_list s @ [k_next_cid s]\<rparr>"
      "s' = (ctrl_put (Some (k_next_cid s)) s1)\<lparr>k_chrdev_minor_ida := ida\<rparr>"
      "ida = k_chrdev_minor_ida s1 - {nat (ida_simple_get e (k_chrdev_minor_ida s) 0)}"
proof -
  let ?minor = "ida_simple_get e (k_chrdev_minor_ida s) 0"
  let ?ida = "insert (nat ?minor) (k_chrdev_minor_ida s)"
  let ?ct = "new_ctrl e pd ?minor"
  let ?s2 = "s\<lparr>k_chrdev_minor_ida := ?ida, k_next_cid := Suc (k_next_cid s), k_ctrls := (k_ctrls s)(k_next_cid s \<mapsto> ?ct),
        k_ctrl_list := k_ctrl_list s @ [k_next_cid s]\<rparr>"
  have n: "ctrl_pdev ?ct = pd" "ctrl_pool ?ct = empty_pool" "ctrl_number ?ct = ?minor" "\<not> ctrl_chrdev ?ct" by (simp_all add: new_ctrl_def)
  consider "s' = s" "rc \<noteq> 0 \<or> True" | "s' = s\<lparr>k_chrdev_minor_ida := ?ida\<rparr>" "rc \<noteq> 0"
    | "pci_class (get_pci s pd) = cls" "0 \<le> ?minor" "kmalloc_ok e A_ctrl"
    using assms by (auto simp: snvm_chrdev_create_def ctrl_get_eq Let_def split: if_splits)
  then show ?thesis
  proof cases
    case 1 then show ?thesis using that(1) [of "k_chrdev_minor_ida s"] by simp
  next
    case 2 then show ?thesis using that(1) [of ?ida] by simp
  next
    case 3
    have r: "(case ctrl_chrdev_create e (k_next_cid s) ?s2 of (err, s3) \<Rightarrow>
       if err \<noteq> 0 then (err, (ctrl_put (Some (k_next_cid s)) s3)\<lparr>k_chrdev_minor_ida := k_chrdev_minor_ida (ctrl_put (Some (k_next_cid s)) s3) - {nat ?minor}\<rparr>)
       else (0, s3)) = (rc, s')"
      using assms 3 by (simp add: snvm_chrdev_create_def ctrl_get_eq Let_def case_prod_unfold cong: if_cong)
    have g: "get_ctrl ?s2 (k_next_cid s) = ?ct" by (simp add: get_ctrl_def)
    show ?thesis
    proof (cases "cdev_add_rc e = 0 \<and> device_create_rc e = 0")
      case True
      let ?ct' = "?ct\<lparr>ctrl_chrdev := True\<rparr>"
      have "rc = 0" "s' = s\<lparr>k_chrdev_minor_ida := ?ida, k_next_cid := Suc (k_next_cid s), k_ctrls := (k_ctrls s)(k_next_cid s \<mapsto> ?ct'),
        k_ctrl_list := k_ctrl_list s @ [k_next_cid s]\<rparr>"
        using r True g n(4) by (auto simp: ctrl_chrdev_create_def set_ctrl_def)
      then show ?thesis using that(2) [of ?ct' ?ida] n 3(2) by simp
    next
      case False
      then have "rc \<noteq> 0" "s' = (ctrl_put (Some (k_next_cid s)) ?s2)\<lparr>k_chrdev_minor_ida := k_chrdev_minor_ida ?s2 - {nat ?minor}\<rparr>"
        using r g n(4) by (auto simp: ctrl_chrdev_create_def ctrl_put_eq split: if_splits)
      then show ?thesis using that(3) [of ?ct ?s2] n by blast
    qed
  qed
qed

lemma chrdev_create_inv:
  assumes "queue_inv s" "ctrl_find_by_pci_dev pd s = None" "snvm_chrdev_create e pd cls s = (rc, s')"
  shows "queue_inv s'" "mem_inv s \<Longrightarrow> mem_inv s'" "hw_inv s \<Longrightarrow> hw_inv s'"
proof -
  have "queue_inv s' \<and> (mem_inv s \<longrightarrow> mem_inv s') \<and> (hw_inv s \<longrightarrow> hw_inv s')"
    using assms(3)
  proof (cases rule: chrdev_create_cases)
    case (2 ct ida)
    show ?thesis using inv_add_ctrl [OF assms(1,2) 2(2,3,8)] by blast
  next
    case (3 ct ida s1)
    note a = inv_add_ctrl [OF assms(1,2) 3(2,3,4)]
    have "k_files s1 = k_files s" unfolding 3(4) by simp
    then have nf: "own_ctrl own \<noteq> k_next_cid s" if "k_files s1 f = Some own" for f own using files_no_fresh [OF assms(1)] that by simp
    have d: "s' = s1\<lparr>k_ctrl_list := remove1 (k_next_cid s) (k_ctrl_list s1), k_ctrls := (k_ctrls s1)(k_next_cid s := None), k_chrdev_minor_ida := ida\<rparr>"
      using 3(5) by (simp add: ctrl_put_eq)
    have "queue_inv s'" "mem_inv s1 \<Longrightarrow> mem_inv s'" "hw_inv s1 \<Longrightarrow> hw_inv s'"
      by (rule inv_drop_ctrl [OF a(1) _ d]; use nf in blast)+
    then show ?thesis using a by blast
  qed (use assms(1) in simp)
  then show "queue_inv s'" "mem_inv s \<Longrightarrow> mem_inv s'" "hw_inv s \<Longrightarrow> hw_inv s'" by simp_all
qed

end
