(* ===== verification/System_Steps.thy ===== *)
theory System_Steps
  imports System_Control
begin

text \<open>
  The transition system of the whole module and the properties of its reachable states.
\<close>

subsection \<open>Steps\<close>

text \<open>\<open>get_user_pages\<close> and the id allocator behave as documented.\<close>

definition env_ok :: "kenv \<Rightarrow> bool" where
  "env_ok e \<longleftrightarrow> gup_ok e \<and> ida_ok e"

text \<open>The array of queue pairs in \<open>struct nvm_ioctl_add_user_queue\<close> has 16 elements.\<close>

fun request_ok :: "dev_request \<Rightarrow> bool" where
  "request_ok (Add_User_Queue req) = (length (aq_pairs req) = 16)"
| "request_ok _ = True"

text \<open>What the bring-up sends for user queues: nothing unless it uses rings registered before the bind, and then any
  commands with any outcome, as \<open>nvme_create_io_queues_mix\<close> sends them for the rings it finds.\<close>

definition bringup_commands :: "pdev \<Rightarrow> nvme_dev \<Rightarrow> kevent list \<Rightarrow> bool" where
  "bringup_commands pd nd evs \<longleftrightarrow> (\<forall>ev \<in> set evs. \<exists>cmd rc. ev = EvAdmin pd cmd rc) \<and> (nd_use_user_allocated nd \<or> evs = [])"

text \<open>A file descriptor carries the inode of the controller it was opened on. A reset, started by the probe or by the
  error handling of the driver, disables the controller, leaves some new device state, and brings the controller up
  again; it may give up the registered rings but never takes them up, which only a probe does.\<close>

inductive sys_step :: "(kenv \<Rightarrow> bool) \<Rightarrow> kst \<Rightarrow> kst \<Rightarrow> bool" for E where
  open_file: "E e \<Longrightarrow> k_files s f = None \<Longrightarrow> snvm_dev_open e i f s = (rc, s') \<Longrightarrow> sys_step E s s'"
| request: "E e \<Longrightarrow> k_files s f = Some own \<Longrightarrow> request_ok req \<Longrightarrow> snvm_dev_map_ioctl e (own_ctrl own) f req s = (rc, out, s') \<Longrightarrow>
    sys_step E s s'"
| release_file: "E e \<Longrightarrow> k_files s f = Some own \<Longrightarrow> sys_step E s (snvm_dev_release e f s)"
| control: "E e \<Longrightarrow> (\<And>pd. get_dev addr = Some pd \<Longrightarrow> k_pci s pd \<noteq> None) \<Longrightarrow>
    snvm_ioctl e pe bus get_dev left req addr s = (rc, out, s') \<Longrightarrow> sys_step E s s'"
| reset: "k_pci s pd = Some d \<Longrightarrow> pci_driver d = Some PCI_DRIVER_NAME \<Longrightarrow> ndev_ok (Some nd) \<Longrightarrow>
    (nd_use_user_allocated nd \<Longrightarrow> pre_registered (k_pci s) pd) \<Longrightarrow> bringup_commands pd nd evs \<Longrightarrow>
    sys_step E s (log_events evs (log_event (EvReset pd) (set_pci pd (\<lambda>d. d\<lparr>pci_drvdata := Some nd\<rparr>) s)))"

text \<open>The devices on the bus when the module is loaded are not driven by it.\<close>

definition loaded :: "(pdev \<rightharpoonup> pci_device) \<Rightarrow> kst" where
  "loaded P = kst_init\<lparr>k_pci := P\<rparr>"

definition foreign :: "(pdev \<rightharpoonup> pci_device) \<Rightarrow> bool" where
  "foreign P \<longleftrightarrow> (\<forall>pd d. P pd = Some d \<longrightarrow> pci_driver d \<noteq> Some PCI_DRIVER_NAME \<and> pci_drvdata d = None)"

text \<open>\<open>SNVM_CHRDEV_REMOVE\<close> frees the controller record without looking for open files. A file open on it then refers to
  freed memory, and what its later requests and its release do is undefined. The runs considered are those in which
  this does not happen: every open file keeps its controller record.\<close>

definition files_have_ctrl :: "kst \<Rightarrow> bool" where
  "files_have_ctrl s \<longleftrightarrow> (\<forall>f own. k_files s f = Some own \<longrightarrow> k_ctrls s (own_ctrl own) \<noteq> None)"

inductive reachable :: "(kenv \<Rightarrow> bool) \<Rightarrow> kst \<Rightarrow> bool" for E where
  init: "foreign P \<Longrightarrow> reachable E (loaded P)"
| step: "reachable E s \<Longrightarrow> sys_step E s s' \<Longrightarrow> files_have_ctrl s' \<Longrightarrow> reachable E s'"

subsection \<open>Every step keeps the invariants\<close>

definition sys_inv :: "kst \<Rightarrow> bool" where
  "sys_inv s \<longleftrightarrow> queue_inv s \<and> mem_inv s"

lemma request_mem:
  assumes "mem_inv s" "gup_ok e" "dev_request_handler e c f req s = (rc, out, s')" "\<not> group_request req" "k_files s f = Some own"
    "file_wf own"
  shows "mem_inv s'"
proof -
  have w: "file_wf own'" if "k_files s f = Some own'" for own' using assms(5,6) that by simp
  note m = map_host_mem [OF assms(1,2) _ w] map_device_mem [OF assms(1,2) _ w] map_device_queue_mem [OF assms(1,2)]
    unmap_requests_mem [OF assms(1)] setup_requests_mem [OF assms(1)] assms(1)
  show ?thesis using assms(1,3,4) by (cases req) (auto simp: reply_def no_reply_def split: prod.splits intro: m)
qed

lemma request_inv:
  assumes "sys_inv s" "env_ok e" "k_files s f = Some own" "request_ok req" "dev_request_handler e (own_ctrl own) f req s = (rc, out, s')"
  shows "sys_inv s'" "deletes_succeed e \<Longrightarrow> hw_inv s \<Longrightarrow> hw_inv s'"
proof -
  have q: "queue_inv s" "mem_inv s" "gup_ok e" "ida_ok e" using assms(1,2) by (simp_all add: sys_inv_def env_ok_def)
  have w: "file_wf own" by (rule queue_inv_file(1) [OF q(1) assms(3)])
  obtain ct where ct: "k_ctrls s (own_ctrl own) = Some ct" "pool_ok (ctrl_pool ct)" using queue_inv_file(3) [OF q(1) assms(3)] by blast
  have nd: "ndev_ok (snvm_ctrl_get_live_ndev (Some (own_ctrl own)) s)" using q(1) by (intro live_ndev_ok) (simp add: queue_inv_def)
  have "queue_inv s' \<and> mem_inv s' \<and> (deletes_succeed e \<longrightarrow> hw_inv s \<longrightarrow> hw_inv s')"
  proof (cases "group_request req")
    case False
    have c: "core s' = core s" using core_request [OF assms(5) False] ct(1) by simp
    have "queue_inv s'" "hw_inv s' = hw_inv s" using q(1) queue_inv_core [OF c] hw_inv_core [OF c] by simp_all
    moreover have "mem_inv s'" by (rule request_mem [OF q(2,3) assms(5) False assms(3) w])
    ultimately show ?thesis by blast
  next
    case True
    then consider r where "req = Create_Queue_Group r" | g where "req = Destroy_Queue_Group g" | r where "req = Add_User_Queue r"
      by (cases req) auto
    then show ?thesis
    proof cases
      case (1 r)
      then obtain o1 where r: "nvm_create_queue_group e (own_ctrl own) f r s = (rc, o1, s')"
        using assms(5) by (auto simp: reply_def split: prod.splits)
      show ?thesis using inv_create_request [OF q(1) assms(3) r q(4)] create_request_mem [OF q(2) assms(3) ct(1) r] by simp
    next
      case (2 g)
      then have r: "nvm_destroy_queue_group e (own_ctrl own) f g s = (rc, s')" using assms(5) by (auto simp: no_reply_def split: prod.splits)
      show ?thesis using inv_destroy_request [OF q(1) assms(3) r] destroy_request_mem [OF q(2) assms(3) w ct(1) r] by simp
    next
      case (3 r)
      then obtain o1 where r: "nvm_add_user_queue e (own_ctrl own) f r s = (rc, o1, s')" and l: "length (aq_pairs r) = 16"
        using assms(4,5) by (auto simp: reply_def split: prod.splits)
      show ?thesis using inv_add_request [OF q(1) assms(3) r l] add_request_mem [OF q(2) assms(3) w ct nd l r] by simp
    qed
  qed
  then show "sys_inv s'" "deletes_succeed e \<Longrightarrow> hw_inv s \<Longrightarrow> hw_inv s'" by (simp_all add: sys_inv_def)
qed

lemma control_inv:
  assumes "sys_inv s" "\<And>pd. get_dev addr = Some pd \<Longrightarrow> k_pci s pd \<noteq> None"
    "req = Chrdev_Remove \<Longrightarrow> files_have_ctrl s'"
    "snvm_ioctl e pe bus get_dev left req addr s = (rc, out, s')"
  shows "sys_inv s' \<and> (hw_inv s \<longrightarrow> hw_inv s')"
proof (cases "copy_from_user_ok e \<and> get_dev addr \<noteq> None")
  case False
  then have "s' = s" using assms(4)
    by (cases "copy_from_user_ok e"; cases req)
      (simp_all add: snvm_ioctl_def snvm_rebind_driver_def snvm_unbind_driver_def snvm_chrdev_helper_def)
  then show ?thesis using assms(1) by simp
next
  case True
  then obtain pd where pd: "get_dev addr = Some pd" "k_pci s pd \<noteq> None" "copy_from_user_ok e" using assms(2) by blast
  have st: "sys_inv s' \<and> (hw_inv s \<longrightarrow> hw_inv s')" if "pci_step s s'"
    using assms(1) pci_step_inv [OF that] by (simp add: sys_inv_def)
  show ?thesis
  proof (cases req)
    case Device_Bind
    then show ?thesis using assms(4) pd rebind_step [of pe bus pd s] st by (auto simp: snvm_ioctl_def split: prod.splits)
  next
    case Device_Unbind
    then show ?thesis using assms(4) pd unbind_step [of pd s] st by (auto simp: snvm_ioctl_def split: prod.splits)
  next
    case Chrdev_Create
    then obtain rc1 a1 where h: "snvm_chrdev_helper e get_dev addr True s = (rc1, a1, s')"
      using assms(4) pd by (auto simp: snvm_ioctl_def split: prod.splits if_splits)
    show ?thesis
    proof (cases "ctrl_find_by_pci_dev pd s")
      case None
      obtain rc2 where "snvm_chrdev_create e pd PCI_CLASS_STORAGE_EXPRESS s = (rc2, s')"
        using h pd None by (auto simp: snvm_chrdev_helper_def split: prod.splits if_splits)
      then show ?thesis using chrdev_create_inv [OF _ None] assms(1) by (auto simp: sys_inv_def)
    next
      case (Some c)
      then show ?thesis using h pd assms(1) by (simp add: snvm_chrdev_helper_def)
    qed
  next
    case Chrdev_Remove
    then obtain rc1 a1 where h: "snvm_chrdev_helper e get_dev addr False s = (rc1, a1, s')"
      using assms(4) pd by (auto simp: snvm_ioctl_def split: prod.splits if_splits)
    show ?thesis
    proof (cases "ctrl_find_by_pci_dev pd s")
      case None
      then show ?thesis using h pd assms(1) by (simp add: snvm_chrdev_helper_def)
    next
      case (Some c)
      obtain ida where s': "s' = s\<lparr>k_ctrl_list := remove1 c (k_ctrl_list s), k_ctrls := (k_ctrls s)(c := None), k_chrdev_minor_ida := ida\<rparr>"
        using h pd Some by (auto simp: snvm_chrdev_helper_def ctrl_put_eq Let_def)
      have nf: "own_ctrl own \<noteq> c" if "k_files s f = Some own" for f own
        using assms(3) [OF Chrdev_Remove] that unfolding s' files_have_ctrl_def by force
      have q: "queue_inv s" using assms(1) by (simp add: sys_inv_def)
      have "queue_inv s'" "mem_inv s \<Longrightarrow> mem_inv s'" "hw_inv s \<Longrightarrow> hw_inv s'"
        by (rule inv_drop_ctrl [OF q _ s']; use nf in blast)+
      then show ?thesis using assms(1) by (simp add: sys_inv_def)
    qed
  next
    case Unknown_Control
    then show ?thesis using assms(1,4) pd by (simp add: snvm_ioctl_def)
  qed
qed

lemma find_self: "x \<in> set xs \<Longrightarrow> List.find (\<lambda>y. y = x) xs = Some x"
  by (induction xs) auto

lemma ioctl_inv:
  assumes "sys_inv s" "env_ok e" "k_files s f = Some own" "request_ok req" "snvm_dev_map_ioctl e (own_ctrl own) f req s = (rc, out, s')"
  shows "sys_inv s'" "deletes_succeed e \<Longrightarrow> hw_inv s \<Longrightarrow> hw_inv s'"
proof -
  have q: "queue_inv s" using assms(1) by (simp add: sys_inv_def)
  then have "set (k_ctrl_list s) = dom (ctrls_core s)" by (simp add: queue_inv_def ctrls_ok_def)
  then have "own_ctrl own \<in> set (k_ctrl_list s)" using queue_inv_file(3) [OF q assms(3)] by auto
  then have "ctrl_find_by_inode (own_ctrl own) s = Some (own_ctrl own)"
    unfolding ctrl_find_by_inode_def by (rule find_self)
  then have "dev_request_handler e (own_ctrl own) f req s = (rc, out, s')" using assms(5) by (simp add: snvm_dev_map_ioctl_def)
  from request_inv [OF assms(1-4) this] show "sys_inv s'" "deletes_succeed e \<Longrightarrow> hw_inv s \<Longrightarrow> hw_inv s'" .
qed

text \<open>The commands of a bring-up go to one controller, and only to one that uses registered rings.\<close>

lemma bringup_elsewhere:
  "\<forall>ev \<in> set evs. \<exists>cmd rc. ev = EvAdmin pd cmd rc \<Longrightarrow> pd' \<noteq> pd \<Longrightarrow> fold (dev_event pd') evs q = q"
  by (induction evs arbitrary: q) (auto simp: split_paired_all)

lemma reset_inv:
  assumes "sys_inv s" "k_pci s pd = Some d" "pci_driver d = Some PCI_DRIVER_NAME" "ndev_ok (Some nd)" "bringup_commands pd nd evs"
  defines "s' \<equiv> log_events evs (log_event (EvReset pd) (set_pci pd (\<lambda>d. d\<lparr>pci_drvdata := Some nd\<rparr>) s))"
  shows "sys_inv s'" "hw_inv s \<Longrightarrow> hw_inv s'"
proof -
  let ?t = "log_event (EvReset pd) (set_pci pd (\<lambda>d. d\<lparr>pci_drvdata := Some nd\<rparr>) s)"
  have "pci_step s ?t" by (rule pci_step_reset [OF assms(2)]) (use assms(4) in simp)
  note t = pci_step_inv [OF this]
  have b: "\<forall>ev \<in> set evs. \<exists>cmd rc. ev = EvAdmin pd cmd rc" "nd_use_user_allocated nd \<or> evs = []"
    using assms(5) by (simp_all add: bringup_commands_def)
  have f: "k_files s' = k_files ?t" "k_ctrls s' = k_ctrls ?t" "k_pci s' = k_pci ?t" "k_log s' = k_log ?t @ evs"
    "k_queue_group_ida s' = k_queue_group_ida ?t" "k_ctrl_list s' = k_ctrl_list ?t" "k_next_cid s' = k_next_cid ?t"
    "k_maps s' = k_maps ?t" "k_next_mid s' = k_next_mid ?t" "all_lists s' = all_lists ?t"
    by (simp_all add: s'_def log_events_def all_lists_def)
  have c: "ctrls_core s' = ctrls_core ?t" "files_core s' = files_core ?t" by (simp_all add: ctrls_core_def files_core_def f)
  have "queue_inv s'" using t(1) assms(1) unfolding sys_inv_def queue_inv_def c f(3,5-7) by blast
  moreover have "mem_inv s'"
  proof -
    have m: "mem_inv ?t" using t(2) assms(1) by (simp add: sys_inv_def)
    show ?thesis
      by (rule mem_inv_frame [OF m f(8,9,10,4)]) (use b(1) f(1) links_sub_refl [OF mem_invD(2) [OF m]] in auto)
  qed
  ultimately show "sys_inv s'" by (simp add: sys_inv_def)
  show "hw_inv s'" if "hw_inv s"
  proof -
    have "ctl_queues s' pd' = ctl_queues ?t pd'" if "\<not> pre_registered (k_pci ?t) pd'" for pd'
    proof (cases "pd' = pd")
      case True
      have "\<not> nd_use_user_allocated nd" using that assms(2,3) True by (simp add: pre_registered_def get_pci_def)
      then show ?thesis using b(2) f(4) by (simp add: ctl_queues_def)
    next
      case False
      then show ?thesis using bringup_elsewhere [OF b(1) False] by (simp add: ctl_queues_def f(4) dev_queues_append)
    qed
    then show ?thesis using t(3) [OF that] unfolding hw_inv_def hw_ok_def c f(3) by simp
  qed
qed

lemma step_inv:
  assumes "sys_step E s s'" "sys_inv s" "\<And>e. E e \<Longrightarrow> env_ok e" "files_have_ctrl s'"
  shows "sys_inv s' \<and> ((\<forall>e. E e \<longrightarrow> deletes_succeed e) \<longrightarrow> hw_inv s \<longrightarrow> hw_inv s')"
  using assms(1)
proof cases
  case (open_file e f i rc)
  then show ?thesis using inv_open [of s f e i rc s'] assms(2) by (simp add: sys_inv_def)
next
  case (request e f own req rc out)
  then show ?thesis using ioctl_inv [OF assms(2) assms(3) [OF request(1)] request(2-4)] by blast
next
  case (release_file e f own)
  then show ?thesis using inv_release [of s f own e] assms(2) by (simp add: sys_inv_def)
next
  case (control e get_dev addr pe bus left req rc out)
  then show ?thesis using control_inv [OF assms(2) _ assms(4), of get_dev addr e pe bus left req rc out] by blast
next
  case (reset pd d nd evs)
  then show ?thesis using reset_inv [OF assms(2) reset(2-4,6)] by simp
qed

lemma loaded_inv: "foreign P \<Longrightarrow> sys_inv (loaded P)" "hw_inv (loaded P)"
proof -
  show "hw_inv (loaded P)" by (auto simp: hw_inv_def hw_ok_def ctl_queues_def dev_queues_def loaded_def kst_init_def)
  show "sys_inv (loaded P)" if "foreign P"
    using that by (auto simp: sys_inv_def queue_inv_def queues_ok_def ids_ok_def ctrls_ok_def pci_ok_def files_core_def ctrls_core_def
        loaded_def kst_init_def foreign_def ndev_ok_def mem_inv_def maps_wf_def links_ok_def resources_ok_def accounted_def all_lists_def)
qed

lemma reachable_inv:
  assumes "reachable E s" "\<And>e. E e \<Longrightarrow> env_ok e"
  shows "sys_inv s" "(\<And>e. E e \<Longrightarrow> deletes_succeed e) \<Longrightarrow> hw_inv s"
proof -
  have "sys_inv s \<and> ((\<forall>e. E e \<longrightarrow> deletes_succeed e) \<longrightarrow> hw_inv s)"
    using assms(1)
  proof induction
    case (init P) then show ?case using loaded_inv by blast
  next
    case (step s s') then show ?case using step_inv [OF step(2) _ assms(2) step(3)] by blast
  qed
  then show "sys_inv s" "(\<And>e. E e \<Longrightarrow> deletes_succeed e) \<Longrightarrow> hw_inv s" by simp_all
qed

text \<open>Only a removal can take a controller record from an open file: every other step prolongs a run.\<close>

lemma sys_inv_files: "sys_inv s \<Longrightarrow> files_have_ctrl s"
  using queue_inv_file(3) by (fastforce simp: sys_inv_def files_have_ctrl_def)

lemma reachable_prolong:
  assumes "reachable E s" "\<And>e. E e \<Longrightarrow> env_ok e"
  shows "E e \<Longrightarrow> k_files s f = None \<Longrightarrow> reachable E (snd (snvm_dev_open e i f s))"
    "E e \<Longrightarrow> k_files s f = Some own \<Longrightarrow> request_ok req \<Longrightarrow> reachable E (snd (snd (snvm_dev_map_ioctl e (own_ctrl own) f req s)))"
    "E e \<Longrightarrow> k_files s f = Some own \<Longrightarrow> reachable E (snvm_dev_release e f s)"
    "E e \<Longrightarrow> (\<And>pd. get_dev addr = Some pd \<Longrightarrow> k_pci s pd \<noteq> None) \<Longrightarrow> creq \<noteq> Chrdev_Remove \<Longrightarrow>
       reachable E (snd (snd (snvm_ioctl e pe bus get_dev left creq addr s)))"
    "k_pci s pd = Some d \<Longrightarrow> pci_driver d = Some PCI_DRIVER_NAME \<Longrightarrow> ndev_ok (Some nd) \<Longrightarrow>
       (nd_use_user_allocated nd \<Longrightarrow> pre_registered (k_pci s) pd) \<Longrightarrow> bringup_commands pd nd evs \<Longrightarrow>
       reachable E (log_events evs (log_event (EvReset pd) (set_pci pd (\<lambda>d. d\<lparr>pci_drvdata := Some nd\<rparr>) s)))"
proof -
  note inv = reachable_inv(1) [OF assms]
  have q: "queue_inv s" "mem_inv s" using inv by (simp_all add: sys_inv_def)
  note go = reachable.step [OF assms(1) _ sys_inv_files]
  show "reachable E (snd (snvm_dev_open e i f s))" if "E e" "k_files s f = None"
  proof -
    obtain rc s' where o: "snvm_dev_open e i f s = (rc, s')" by fastforce
    have "sys_inv s'" using inv_open [OF q that(2) o] by (simp add: sys_inv_def)
    then show ?thesis using go [OF open_file [of E, OF that o]] o by simp
  qed
  show "reachable E (snd (snd (snvm_dev_map_ioctl e (own_ctrl own) f req s)))" if "E e" "k_files s f = Some own" "request_ok req"
  proof -
    obtain rc out s' where r: "snvm_dev_map_ioctl e (own_ctrl own) f req s = (rc, out, s')" using prod_cases3 by blast
    show ?thesis using go [OF request [of E, OF that r] ioctl_inv(1) [OF inv assms(2) [OF that(1)] that(2,3) r]] r by simp
  qed
  show "reachable E (snvm_dev_release e f s)" if "E e" "k_files s f = Some own"
    using go [OF release_file [of E, OF that]] inv_release [OF q that(2), of e] by (simp add: sys_inv_def)
  show "reachable E (snd (snd (snvm_ioctl e pe bus get_dev left creq addr s)))"
    if "E e" "\<And>pd. get_dev addr = Some pd \<Longrightarrow> k_pci s pd \<noteq> None" "creq \<noteq> Chrdev_Remove"
  proof -
    obtain rc out s' where r: "snvm_ioctl e pe bus get_dev left creq addr s = (rc, out, s')" using prod_cases3 by blast
    have "sys_inv s'" using control_inv [OF inv that(2) _ r] that(3) by blast
    then show ?thesis using go [OF control [of E, OF that(1,2) r]] r by simp
  qed
  show "reachable E (log_events evs (log_event (EvReset pd) (set_pci pd (\<lambda>d. d\<lparr>pci_drvdata := Some nd\<rparr>) s)))"
    if "k_pci s pd = Some d" "pci_driver d = Some PCI_DRIVER_NAME" "ndev_ok (Some nd)"
      "nd_use_user_allocated nd \<Longrightarrow> pre_registered (k_pci s) pd" "bringup_commands pd nd evs"
    by (rule go [OF reset [OF that] reset_inv(1) [OF inv that(1-3,5)]])
qed

text \<open>A removal can: it succeeds whatever files are open on the controller, and leaves them without a record.\<close>

lemma remove_under_open_file:
  assumes "reachable E s" "\<And>e. E e \<Longrightarrow> env_ok e" "k_files s f = Some own" "k_ctrls s (own_ctrl own) = Some ct"
    "E e" "copy_from_user_ok e" "get_dev addr = Some (ctrl_pdev ct)" "k_pci s (ctrl_pdev ct) \<noteq> None"
  shows "\<exists>s'. snvm_ioctl e pe bus get_dev left Chrdev_Remove addr s = (0, None, s') \<and> sys_step E s s' \<and>
    k_files s' f = Some own \<and> \<not> files_have_ctrl s'"
proof -
  let ?c = "own_ctrl own"
  have q: "queue_inv s" using reachable_inv(1) [OF assms(1,2)] by (simp add: sys_inv_def)
  have c: "ctrls_core s ?c = Some (ctrl_pdev ct, ctrl_pool ct)" using assms(4) by (simp add: ctrls_core_def ctrl_core_def)
  obtain c' where c': "ctrl_find_by_pci_dev (ctrl_pdev ct) s = Some c'"
    using find_by_pci_dev_none [OF q _ c] by (cases "ctrl_find_by_pci_dev (ctrl_pdev ct) s") auto
  have m: "c' \<in> set (k_ctrl_list s)" "ctrl_pdev (get_ctrl s c') = ctrl_pdev ct"
    using c' by (auto simp: ctrl_find_by_pci_dev_def find_Some_iff)
  then obtain ct' where ct': "k_ctrls s c' = Some ct'"
    using q by (fastforce simp: queue_inv_def ctrls_ok_def ctrls_core_def)
  then have "ctrls_core s c' = Some (ctrl_pdev ct, ctrl_pool ct')" using m(2) by (simp add: ctrls_core_def ctrl_core_def get_ctrl_def)
  then have e: "c' = ?c" using q c unfolding queue_inv_def ctrls_ok_def by blast
  obtain s' where s': "snvm_ioctl e pe bus get_dev left Chrdev_Remove addr s = (0, None, s')"
    "k_files s' = k_files s" "k_ctrls s' ?c = None"
    using assms(6,7) c' by (simp add: snvm_ioctl_def snvm_chrdev_helper_def ctrl_put_eq Let_def e)
  have "sys_step E s s'" by (rule control [of E, OF assms(5) _ s'(1)]) (use assms(7,8) in simp)
  then show ?thesis using s' assms(3) by (auto simp: files_have_ctrl_def)
qed

end
