(* ===== verification/System_Claims.thy ===== *)
theory System_Claims
  imports System_Steps
begin

text \<open>
  Properties of the whole module: exclusive ownership of QIDs, what the controllers hold, what the release of a file
  takes back, and what unloading leaves.
\<close>

subsection \<open>A run\<close>

text \<open>One controller: create its character device, bind it, let it come up, open a file, create a group, map two
  rings into it, add a queue pair.\<close>

definition env_run :: kenv where
  "env_run = env_ex\<lparr>ida_simple_get := (\<lambda>used mn. if mn \<notin> used \<and> int mn < 0x80000000 then int mn else - ENOSPC)\<rparr>"

definition pe_run :: probe_env where
  "pe_run = \<lparr>write_queues = 0, poll_queues = 0, num_possible_cpus = 4, quirk_shared_tags = False, pe_alloc_dev = True,
     pe_alloc_queues = True, nvme_dev_map_rc = 0, setup_prp_pools_rc = 0, pe_alloc_mempool = True, init_ctrl_rc = 0,
     pci_register_driver_rc = 0, pe_alloc_override = True, device_attach_rc = (\<lambda>_. 0)\<rparr>"

definition bus_run :: "pdev \<rightharpoonup> pci_device" where
  "bus_run = [1 \<mapsto> pci_ex\<lparr>pci_driver := None, pci_drvdata := None, pci_enabled := False\<rparr>]"

definition addr_run :: pci_device_addr where
  "addr_run = \<lparr>pa_domain = 0, pa_bus = 1, pa_slot = 0, pa_func = 0\<rparr>"

definition run_control :: "control_request \<Rightarrow> kst \<Rightarrow> kst" where
  "run_control req s = snd (snd (snvm_ioctl env_run pe_run [] (\<lambda>_. Some 1) 0 req addr_run s))"

definition run_request :: "dev_request \<Rightarrow> kst \<Rightarrow> kst" where
  "run_request req s = snd (snd (snvm_dev_map_ioctl env_run 0 0 req s))"

definition ring_run :: "u64 \<Rightarrow> u8 \<Rightarrow> nvm_ioctl_map" where
  "ring_run va kind = \<lparr>rq_vaddr_start = va, rq_n_pages = 1, rq_ioq_idx = -1, rq_is_cq = 0, rq_group_id = 1, rq_map_kind = kind,
     rq_reserved0 = [0, 0, 0]\<rparr>"

definition add_run :: nvm_ioctl_add_user_queue where
  "add_run = \<lparr>aq_group_id = 1, aq_nr_pairs = 1, aq_flags = 0, aq_reserved = [0],
     aq_pairs = replicate 16 \<lparr>in_sq_vaddr = 0x2000, in_cq_vaddr = 0x3000\<rparr>\<rparr>"

definition run_up :: kst where
  "run_up = log_event (EvReset 1) (set_pci 1 (\<lambda>d. d\<lparr>pci_drvdata := Some nd_ex\<rparr>)
     (run_control Device_Bind (run_control Chrdev_Create (loaded bus_run))))"

definition run_open :: kst where
  "run_open = snd (snvm_dev_open env_run 0 0 run_up)"

definition run_group :: kst where
  "run_group = run_request (Create_Queue_Group \<lparr>qg_group_id = 0, qg_flags = 0, qg_max_queues = 0, qg_reserved = [0]\<rparr>) run_open"

definition run_sq :: kst where
  "run_sq = run_request (Map_Host_Memory (ring_run 0x2000 NVM_MAP_KIND_RING_SQ)) run_group"

definition run_cq :: kst where
  "run_cq = run_request (Map_Host_Memory (ring_run 0x3000 NVM_MAP_KIND_RING_CQ)) run_sq"

definition run_added :: kst where
  "run_added = run_request (Add_User_Queue add_run) run_cq"

lemma run_up_live: "map_option pci_driver (k_pci (run_control Device_Bind (run_control Chrdev_Create (loaded bus_run))) 1) = Some (Some PCI_DRIVER_NAME)"
  by code_simp

lemma run_s1: "k_pci (run_control Chrdev_Create (loaded bus_run)) 1 \<noteq> None"
  by code_simp

lemma run_up_file: "k_files run_up 0 = None"
  by code_simp

lemma run_files:
  "map_option own_ctrl (k_files run_open 0) = Some 0" "map_option own_ctrl (k_files run_group 0) = Some 0"
  "map_option own_ctrl (k_files run_sq 0) = Some 0" "map_option own_ctrl (k_files run_cq 0) = Some 0"
  by code_simp+

lemma run_added_state:
  "(map_option (\<lambda>own. (own_qids own, own_ctrl own)) (k_files run_added 0), map_option ctrl_pdev (k_ctrls run_added 0)) =
   (Some ([3], 0), Some 1)"
  by code_simp

definition safe_env :: "kenv \<Rightarrow> bool" where
  "safe_env e \<longleftrightarrow> env_ok e \<and> deletes_succeed e"

lemma qids_of_files:
  "q \<in> qids_of (files_core s f) c \<longleftrightarrow> (\<exists>own. k_files s f = Some own \<and> own_ctrl own = c \<and> q \<in> set (own_qids own))"
  by (auto simp: qids_of_def files_core_def split: option.splits)

lemma env_run_ok: "env_ok env_run" "safe_env env_run"
  by (auto simp: safe_env_def env_ok_def gup_ok_def ida_ok_def deletes_succeed_def env_run_def env_ex_def)

lemma run_control_reachable:
  assumes "reachable E s" "\<And>e. E e \<Longrightarrow> env_ok e" "E env_run" "req \<noteq> Chrdev_Remove" "k_pci s 1 \<noteq> None"
  shows "reachable E (run_control req s)"
  unfolding run_control_def by (rule reachable_prolong(4) [OF assms(1-3)]) (use assms(4,5) in simp_all)

lemma run_request_reachable:
  assumes "reachable E s" "\<And>e. E e \<Longrightarrow> env_ok e" "E env_run" "map_option own_ctrl (k_files s 0) = Some 0" "request_ok req"
  shows "reachable E (run_request req s)"
proof -
  obtain own where "k_files s 0 = Some own" "own_ctrl own = 0" using assms(4) by auto
  then show ?thesis using reachable_prolong(2) [OF assms(1-3), of 0 own req] assms(5) by (simp add: run_request_def)
qed

lemma run_reachable:
  assumes "\<And>e. E e \<Longrightarrow> env_ok e" "E env_run" shows "reachable E run_added" "reachable E run_up"
proof -
  let ?s1 = "run_control Chrdev_Create (loaded bus_run)"
  have p: "k_pci (loaded bus_run) 1 \<noteq> None" by (simp add: loaded_def bus_run_def)
  have f: "foreign bus_run" by (simp add: foreign_def bus_run_def)
  have ct: "reachable E (run_control req s)" if "reachable E s" "req \<noteq> Chrdev_Remove" "k_pci s 1 \<noteq> None" for req s
    by (rule run_control_reachable [OF that(1) assms that(2,3)])
  have r1: "reachable E ?s1" by (rule ct [OF reachable.init [OF f]]) (use p in simp_all)
  have r2: "reachable E (run_control Device_Bind ?s1)" by (rule ct [OF r1]) (use run_s1 in simp_all)
  obtain d where d: "k_pci (run_control Device_Bind ?s1) 1 = Some d" "pci_driver d = Some PCI_DRIVER_NAME" using run_up_live by auto
  have n: "ndev_ok (Some nd_ex)" "\<not> nd_use_user_allocated nd_ex" by (simp_all add: ndev_ok_def nd_ex_def)
  have r3: "reachable E run_up" unfolding run_up_def
    using reachable_prolong(5) [OF r2 assms(1) d n(1), of "[]"] n(2) by (simp add: bringup_commands_def)
  have r4: "reachable E run_open" unfolding run_open_def by (rule reachable_prolong(1) [OF r3 assms run_up_file])
  have st: "reachable E (run_request req s)" if "reachable E s" "map_option own_ctrl (k_files s 0) = Some 0" "request_ok req" for req s
    by (rule run_request_reachable [OF that(1) assms that(2,3)])
  have "reachable E run_group" unfolding run_group_def by (rule st [OF r4 run_files(1)]) simp
  then have "reachable E run_sq" unfolding run_sq_def by (rule st [OF _ run_files(2)]) simp
  then have "reachable E run_cq" unfolding run_cq_def by (rule st [OF _ run_files(3)]) simp
  then show "reachable E run_added" unfolding run_added_def by (rule st [OF _ run_files(4)]) (simp add: add_run_def)
  show "reachable E run_up" by (rule r3)
qed

lemma run_reachable_env:
  "reachable env_ok run_added" "reachable safe_env run_added" "reachable env_ok run_up"
  by (rule run_reachable; use env_run_ok in \<open>simp add: safe_env_def\<close>)+

subsection \<open>Properties\<close>

text \<open>C1. In every reachable state each user QID of a controller belongs to at most one open file: the live queues of a
  file have distinct QIDs, two files open on the same controller have none in common, and the QIDs marked used in
  the pool of a controller are exactly those of the live queues of its open files. This holds after any sequence of
  opens, requests (failing or not), releases, binds, unbinds, resets, and creations and removals of controllers, with
  one restriction on the removals: no controller record is removed while a file is open on it. \<open>SNVM_CHRDEV_REMOVE\<close>
  does not check for that, and after such a removal the file refers to freed memory.\<close>

theorem reachable_qids_exclusive:
  assumes "reachable env_ok s"
  shows "(\<forall>f own. k_files s f = Some own \<longrightarrow> distinct (own_qids own)) \<and>
    (\<forall>f f' own own'. k_files s f = Some own \<and> k_files s f' = Some own' \<and> f \<noteq> f' \<and> own_ctrl own = own_ctrl own' \<longrightarrow>
       set (own_qids own) \<inter> set (own_qids own') = {}) \<and>
    (\<forall>c ct. k_ctrls s c = Some ct \<longrightarrow> pool_used (ctrl_pool ct) =
       {q. \<exists>f own. k_files s f = Some own \<and> own_ctrl own = c \<and> q \<in> set (own_qids own)})"
proof -
  have q: "queue_inv s" using reachable_inv(1) [OF assms] by (simp add: sys_inv_def)
  then have qo: "queues_ok (files_core s) (ctrls_core s)" by (simp add: queue_inv_def)
  have h: "held (files_core s) c = {q. \<exists>f own. k_files s f = Some own \<and> own_ctrl own = c \<and> q \<in> set (own_qids own)}" for c
    by (auto simp: held_def qids_of_files) blast
  show ?thesis
  proof (intro conjI allI impI)
    fix f own assume "k_files s f = Some own"
    then show "distinct (own_qids own)" by (rule queue_inv_file(2) [OF q])
  next
    fix f f' own own' assume a: "k_files s f = Some own \<and> k_files s f' = Some own' \<and> f \<noteq> f' \<and> own_ctrl own = own_ctrl own'"
    then have f: "files_core s f = Some (own_core own)" "files_core s f' = Some (own_core own')" by (simp_all add: files_core_def)
    have "\<forall>f f' o' o''. files_core s f = Some o' \<longrightarrow> files_core s f' = Some o'' \<longrightarrow> f \<noteq> f' \<longrightarrow> own_ctrl o' = own_ctrl o'' \<longrightarrow>
        set (own_qids o') \<inter> set (own_qids o'') = {}" using qo unfolding queues_ok_def by blast
    from this [rule_format, OF f] show "set (own_qids own) \<inter> set (own_qids own') = {}" using a by simp
  next
    fix c ct assume "k_ctrls s c = Some ct"
    then have c: "ctrls_core s c = Some (ctrl_pdev ct, ctrl_pool ct)" by (simp add: ctrls_core_def ctrl_core_def)
    show "pool_used (ctrl_pool ct) = {q. \<exists>f own. k_files s f = Some own \<and> own_ctrl own = c \<and> q \<in> set (own_qids own)}"
      using qo c unfolding queues_ok_def h by blast
  qed
qed

theorem reachable_qids_exclusive_witness:
  "\<exists>own ct. k_files run_added 0 = Some own \<and> own_qids own = [3] \<and> k_ctrls run_added 0 = Some ct \<and> pool_used (ctrl_pool ct) \<supseteq> {3}"
proof -
  obtain own ct where o: "k_files run_added 0 = Some own" "own_qids own = [3]" "own_ctrl own = 0" "k_ctrls run_added 0 = Some ct"
    using run_added_state by auto
  moreover have e: "pool_used (ctrl_pool ct) = {q. \<exists>f own. k_files run_added f = Some own \<and> own_ctrl own = 0 \<and> q \<in> set (own_qids own)}"
    by (rule reachable_qids_exclusive [OF run_reachable_env(1), THEN conjunct2, THEN conjunct2, rule_format, OF o(4)])
  have "3 \<in> set (own_qids own)" using o(2) by simp
  then have "3 \<in> pool_used (ctrl_pool ct)" unfolding e using o(1,3) by blast
  ultimately show ?thesis by auto
qed

text \<open>C2. If the controllers carry out the delete commands they are sent, then in every reachable state the I/O queues a
  controller holds for user space are paired, completion and submission side alike, and each of them is a live queue of
  exactly one open file. In particular such a controller on which no file is open holds no user queue. This is for
  controllers whose bring-up did not take over rings registered before the bind (\<open>use_user_allocated\<close>, the legacy
  flow): the queues created for those belong to no group and to no file. As in every run considered, no controller
  record is removed while a file is open on it.\<close>

theorem reachable_controller_queues_owned:
  assumes "reachable safe_env s" "\<not> pre_registered (k_pci s) pd" "dev_queues pd (k_log s) = (cqs, sqs)"
  shows "cqs = sqs \<and> (\<forall>q \<in> sqs. \<exists>!f. \<exists>own ct. k_files s f = Some own \<and> k_ctrls s (own_ctrl own) = Some ct \<and>
    ctrl_pdev ct = pd \<and> q \<in> set (own_qids own))"
proof -
  have e: "env_ok e" "deletes_succeed e" if "safe_env e" for e using that by (simp_all add: safe_env_def)
  have inv: "queue_inv s" "hw_inv s"
    using reachable_inv(1) [OF assms(1) e(1)] reachable_inv(2) [OF assms(1) e(1) e(2)] by (simp_all add: sys_inv_def)
  have qo: "queues_ok (files_core s) (ctrls_core s)" "ctrls_ok (ctrls_core s) (k_ctrl_list s) (k_next_cid s)"
    using inv(1) by (simp_all add: queue_inv_def)
  obtain Q where Q: "ctl_queues s pd = (Q, Q)"
    "Q \<noteq> {} \<longrightarrow> pci_live (k_pci s) pd \<and> (\<exists>c p. ctrls_core s c = Some (pd, p) \<and> Q \<subseteq> pool_used p)"
    using inv(2) assms(2) unfolding hw_inv_def hw_ok_def by blast
  have cs: "cqs = Q" "sqs = Q" using assms(3) Q(1) by (simp_all add: ctl_queues_def)
  have "\<exists>!f. \<exists>own ct. k_files s f = Some own \<and> k_ctrls s (own_ctrl own) = Some ct \<and> ctrl_pdev ct = pd \<and> q \<in> set (own_qids own)"
    if "q \<in> Q" for q
  proof -
    obtain c p where c: "ctrls_core s c = Some (pd, p)" "Q \<subseteq> pool_used p" using Q(2) \<open>q \<in> Q\<close> by blast
    moreover have "pool_used p = held (files_core s) c" using qo(1) c(1) by (simp add: queues_ok_def)
    ultimately have "q \<in> held (files_core s) c" using \<open>q \<in> Q\<close> by blast
    then obtain f where f: "q \<in> qids_of (files_core s f) c" unfolding held_def by blast
    then obtain own where own: "k_files s f = Some own" "own_ctrl own = c" "q \<in> set (own_qids own)"
      by (auto simp: qids_of_def files_core_def split: option.splits if_splits)
    obtain ct where ct: "k_ctrls s c = Some ct" "ctrl_pdev ct = pd" using c(1) by (auto simp: ctrls_core_def ctrl_core_def)
    have u: "f' = f" if a: "k_files s f' = Some own'" "k_ctrls s (own_ctrl own') = Some ct'" "ctrl_pdev ct' = pd" "q \<in> set (own_qids own')"
      for f' own' ct'
    proof (rule ccontr)
      assume "f' \<noteq> f"
      have "ctrls_core s (own_ctrl own') = Some (pd, ctrl_pool ct')" using a(2,3) by (simp add: ctrls_core_def ctrl_core_def)
      moreover have "\<forall>c c' pd p p'. ctrls_core s c = Some (pd, p) \<longrightarrow> ctrls_core s c' = Some (pd, p') \<longrightarrow> c = c'"
        using qo(2) unfolding ctrls_ok_def by blast
      ultimately have "own_ctrl own' = c" using c(1) by blast
      moreover have "files_core s f = Some (own_core own)" "files_core s f' = Some (own_core own')" using own(1) a(1) by (simp_all add: files_core_def)
      moreover have "\<forall>f f' o' o''. files_core s f = Some o' \<longrightarrow> files_core s f' = Some o'' \<longrightarrow> f \<noteq> f' \<longrightarrow> own_ctrl o' = own_ctrl o'' \<longrightarrow>
        set (own_qids o') \<inter> set (own_qids o'') = {}" using qo(1) unfolding queues_ok_def by blast
      ultimately have "set (own_qids (own_core own')) \<inter> set (own_qids (own_core own)) = {}"
        using \<open>f' \<noteq> f\<close> own(2) by (metis own_core_sel(1))
      then show False using own(3) a(4) by auto
    qed
    show ?thesis
    proof (rule ex1I [of _ f])
      show "\<exists>own ct. k_files s f = Some own \<and> k_ctrls s (own_ctrl own) = Some ct \<and> ctrl_pdev ct = pd \<and> q \<in> set (own_qids own)"
        using own ct by blast
    qed (use u in blast)
  qed
  then show ?thesis unfolding cs by blast
qed

lemma run_added_log:
  "k_log run_added = [EvReset 1, EvReset 1, EvPinPage 0, EvDmaMap 1 0 65536, EvPinPage 0, EvDmaMap 1 0 65536,
     EvAdmin 1 (CreateCQ 65536 3 1023 1 0) 0, EvAdmin 1 (CreateSQ 65536 3 1023 1 3) 0]"
  by code_simp

lemma run_added_plain: "\<not> pre_registered (k_pci run_added) 1"
  by code_simp

theorem reachable_controller_queues_owned_witness:
  "\<exists>!f. \<exists>own ct. k_files run_added f = Some own \<and> k_ctrls run_added (own_ctrl own) = Some ct \<and> ctrl_pdev ct = 1 \<and> 3 \<in> set (own_qids own)"
proof -
  obtain cqs sqs where d: "dev_queues 1 (k_log run_added) = (cqs, sqs)" by fastforce
  then have q: "3 \<in> sqs" by (auto simp: run_added_log dev_queues_def)
  show ?thesis
    by (rule bspec [OF conjunct2 [OF reachable_controller_queues_owned [OF run_reachable_env(2) run_added_plain d]] q])
qed

end
