(* ===== verification/System_Release.thy ===== *)
theory System_Release
  imports System_Claims
begin

text \<open>
  What the release of a file takes back, and what unloading the module leaves.
\<close>

subsection \<open>Descriptors after a series of releases\<close>

lemma fold_unmap_lists: "get_list l (fold unmap_and_release ms s) = fold remove1 ms (get_list l s)"
  by (induction ms arbitrary: s) auto

lemma set_fold_remove1: "distinct xs \<Longrightarrow> set (fold remove1 ms xs) = set xs - set ms \<and> distinct (fold remove1 ms xs)"
  by (induction ms arbitrary: xs) auto

lemma fold_unmap_links:
  "k_files (fold unmap_and_release ms s) f = map_option (fold unlink_group_maps ms) (k_files s f)"
  by (induction ms arbitrary: s) (simp_all add: option.map_comp comp_def option.map_id0)

lemma fold_unlink_data: "set (own_data_maps (fold unlink_group_maps ms own)) = set (own_data_maps own) - set ms"
  by (induction ms arbitrary: own) (auto simp: unlink_group_maps_def)

lemma purge_maps:
  fixes l :: glist and t :: task
  assumes "mem_inv s"
  defines "s' \<equiv> snd (map_purge_by_owner l t s)"
  shows "k_maps s' m = (if m \<in> set (get_list l s) \<and> purge_match t (get_map s m) then None else k_maps s m)"
    "k_maps s' m \<noteq> None \<Longrightarrow> m \<in> set (get_list l' s) \<Longrightarrow> m \<in> set (get_list l' s')"
proof -
  let ?ms = "filter (\<lambda>m. purge_match t (get_map s m)) (get_list l s)"
  have s': "s' = fold unmap_and_release ?ms s"
    unfolding s'_def by (simp add: map_purge_by_owner_eq Let_def maps_wf_distinct mem_invD(1) [OF assms(1)])
  show k: "k_maps s' m = (if m \<in> set (get_list l s) \<and> purge_match t (get_map s m) then None else k_maps s m)" unfolding s' by simp
  show "m \<in> set (get_list l' s')" if "k_maps s' m \<noteq> None" "m \<in> set (get_list l' s)"
  proof -
    have "m \<notin> set ?ms" using that(1) k by auto
    then show ?thesis unfolding s' fold_unmap_lists using set_fold_remove1 [of "get_list l' s"] that(2)
        maps_wf_distinct [OF mem_invD(1) [OF assms(1)]] by auto
  qed
qed

lemma live_on_list: "mem_inv s \<Longrightarrow> k_maps s m \<noteq> None \<Longrightarrow> \<exists>l. m \<in> set (get_list l s)"
proof -
  assume "mem_inv s" "k_maps s m \<noteq> None"
  then have "m \<in> set (all_lists s)" by (auto simp: mem_inv_def maps_wf_def)
  then show ?thesis unfolding all_lists_def by (metis Un_iff get_list.simps set_append)
qed

lemma purge_all_maps:
  fixes s :: kst and t :: task
  assumes "mem_inv s"
  defines "s5 \<equiv> snd (map_purge_by_owner HostList t s)"
  defines "s6 \<equiv> snd (map_purge_by_owner DeviceList t s5)"
  defines "s7 \<equiv> snd (map_purge_by_owner DeviceQueueList t s6)"
  shows "k_maps s7 m = (if k_maps s m \<noteq> None \<and> purge_match t (get_map s m) then None else k_maps s m)"
proof -
  have m: "mem_inv s5" "mem_inv s6" using assms(1) unfolding s5_def s6_def by (simp_all add: mem_inv_purge)
  have p5: "k_maps s5 m = (if m \<in> set (get_list HostList s) \<and> purge_match t (get_map s m) then None else k_maps s m)"
    and p6: "k_maps s6 m = (if m \<in> set (get_list DeviceList s5) \<and> purge_match t (get_map s5 m) then None else k_maps s5 m)"
    and p7: "k_maps s7 m = (if m \<in> set (get_list DeviceQueueList s6) \<and> purge_match t (get_map s6 m) then None else k_maps s6 m)"
    using purge_maps(1) [OF assms(1), of HostList t m] purge_maps(1) [OF m(1), of DeviceList t m]
      purge_maps(1) [OF m(2), of DeviceQueueList t m] unfolding s5_def s6_def s7_def by simp_all
  have l: "k_maps s6 m \<noteq> None \<Longrightarrow> m \<in> set (get_list DeviceQueueList s5) \<Longrightarrow> m \<in> set (get_list DeviceQueueList s6)"
    "k_maps s5 m \<noteq> None \<Longrightarrow> m \<in> set (get_list l' s) \<Longrightarrow> m \<in> set (get_list l' s5)" for l'
    using purge_maps(2) [OF m(1)] purge_maps(2) [OF assms(1)] unfolding s5_def s6_def by blast+
  show ?thesis
  proof (cases "k_maps s m")
    case None
    then show ?thesis using p5 p6 p7 by simp
  next
    case (Some md)
    then obtain l0 where l0: "m \<in> set (get_list l0 s)" using live_on_list [OF assms(1)] by blast
    show ?thesis
    proof (cases "purge_match t md")
      case True
      have "k_maps s7 m = None"
      proof (rule ccontr)
        assume n7: "k_maps s7 m \<noteq> None"
        then have n: "k_maps s6 m = Some md" "k_maps s5 m = Some md" using Some p5 p6 p7 by (auto split: if_splits)
        then have g: "get_map s m = md" "get_map s5 m = md" "get_map s6 m = md" using Some by (simp_all add: get_map_def)
        then have "m \<notin> set (get_list HostList s)" "m \<notin> set (get_list DeviceList s5)" "m \<notin> set (get_list DeviceQueueList s6)"
          using n n7 True Some p5 p6 p7 by auto
        then show False using l0 l(1) l(2) [of DeviceList] l(2) [of DeviceQueueList] n by (cases l0) auto
      qed
      then show ?thesis using Some True by (simp add: get_map_def)
    next
      case False
      then have "k_maps s5 m = Some md" using p5 Some by (simp add: get_map_def)
      then have "k_maps s6 m = Some md" using p6 False by (simp add: get_map_def)
      then have "k_maps s7 m = Some md" using p7 False by (simp add: get_map_def)
      then show ?thesis using Some False by (simp add: get_map_def)
    qed
  qed
qed

subsection \<open>The release of a file\<close>

lemma release_groups_maps:
  fixes e :: kenv
  assumes "queue_inv s" "k_files s f = Some own"
  defines "s2 \<equiv> set_own f (\<lambda>own. own\<lparr>own_nr_groups := 0\<rparr>) (release_groups e (own_ctrl own) f (own_groups own) s)"
  shows "k_maps s2 m = (if m \<in> set (concat (map g_maps (own_groups own))) then None else k_maps s m)"
    "get_map s2 m = (if m \<in> set (concat (map g_maps (own_groups own))) then get_map s2 m else get_map s m)"
    "set (own_data_maps (get_own s2 f)) = set (own_data_maps own) - set (concat (map g_maps (own_groups own)))"
proof -
  have w: "file_wf own" by (rule queue_inv_file(1) [OF assms(1,2)])
  obtain ct where ct: "k_ctrls s (own_ctrl own) = Some ct" using queue_inv_file(3) [OF assms(1,2)] by blast
  have "k_maps s2 m = (if m \<in> set (concat (map g_maps (own_groups own))) then None else k_maps s m) \<and>
    set (own_data_maps (get_own s2 f)) = set (own_data_maps own) - set (concat (map g_maps (own_groups own)))"
  proof (cases "own_groups own")
    case Nil
    then show ?thesis unfolding s2_def using assms(2) by (simp add: set_own_def get_own_def)
  next
    case (Cons g gs)
    then have g: "own_groups own = [g]" using w by (simp add: file_wf_def)
    let ?t = "s\<lparr>k_files := (k_files s)(f \<mapsto> own\<lparr>own_groups := []\<rparr>)\<rparr>"
    have ctt: "k_ctrls ?t (own_ctrl own) = Some ct" using ct by simp
    obtain dels where d: "destroy_qgroup_locked e (Some g) (Some (own_ctrl own)) ?t = (fold unmap_and_release (g_maps g)
          (?t\<lparr>k_ctrls := (k_ctrls ?t)(own_ctrl own \<mapsto> ct\<lparr>ctrl_pool := free_qids (rev (alive_qids (g_queues g))) (ctrl_pool ct)\<rparr>),
             k_log := k_log ?t @ dels\<rparr>))
       \<lparr>k_queue_group_ida := k_queue_group_ida ?t - {unat (g_group_id g)}\<rparr>"
      using destroy_qgroup_effect [OF ctt, of e g] .
    have s2: "s2 = set_own f (\<lambda>own. own\<lparr>own_nr_groups := 0\<rparr>) (destroy_qgroup_locked e (Some g) (Some (own_ctrl own)) ?t)"
      unfolding s2_def g using assms(2) g by (simp add: set_own_def get_own_def)
    show ?thesis unfolding s2 d g by (simp add: set_own_def get_own_def fold_unmap_links fold_unlink_data)
  qed
  then show "k_maps s2 m = (if m \<in> set (concat (map g_maps (own_groups own))) then None else k_maps s m)"
    "set (own_data_maps (get_own s2 f)) = set (own_data_maps own) - set (concat (map g_maps (own_groups own)))"
    "get_map s2 m = (if m \<in> set (concat (map g_maps (own_groups own))) then get_map s2 m else get_map s m)"
    by (simp_all add: get_map_def)
qed

lemma release_maps:
  assumes "queue_inv s" "mem_inv s" "k_files s f = Some own"
  shows "k_maps (snvm_dev_release e f s) m =
    (if m \<in> set (linked_maps own) \<or> k_maps s m \<noteq> None \<and> purge_match (own_owner own) (get_map s m) then None else k_maps s m)"
proof -
  let ?s2 = "set_own f (\<lambda>own. own\<lparr>own_nr_groups := 0\<rparr>) (release_groups e (own_ctrl own) f (own_groups own) s)"
  let ?s4 = "set_own f (\<lambda>own. own\<lparr>own_nr_data_maps := 0\<rparr>) (fold unmap_and_release (own_data_maps (get_own ?s2 f)) ?s2)"
  obtain s8 where m4: "mem_inv ?s4" using release_parts [OF assms] by blast
  note g = release_groups_maps [OF assms(1,3), where e = e]
  have k4: "k_maps ?s4 m = (if m \<in> set (linked_maps own) then None else k_maps s m)"
    using g(1,3) by (auto simp: linked_maps_def set_own_def)
  have "k_maps (snvm_dev_release e f s) m = (if k_maps ?s4 m \<noteq> None \<and> purge_match (own_owner own) (get_map ?s4 m) then None else k_maps ?s4 m)"
    using purge_all_maps [OF m4, of "own_owner own" m] assms(3) by (simp add: snvm_dev_release_def Let_def)
  then show ?thesis using k4 by (auto simp: get_map_def)
qed

subsection \<open>Properties\<close>

text \<open>C9. Releasing a file in a reachable state takes back exactly what it should and one thing more. The file is gone;
  the QIDs of its queues are free again in the pool of its controller and no others; the queues of every other file are
  untouched. Of the descriptors, those linked into the file's groups and data list are released, and besides them every
  ungrouped descriptor of the same owning process, including data maps made through another file of that process which
  is still open.\<close>

theorem snvm_dev_release_reclaims:
  assumes "reachable env_ok s" "k_files s f = Some own" "k_ctrls s (own_ctrl own) = Some ct"
  shows "let s' = snvm_dev_release e f s in k_files s' f = None \<and>
    (\<forall>m. k_maps s' m = (if m \<in> set (linked_maps own) \<or> k_maps s m \<noteq> None \<and> map_owner (get_map s m) = own_owner own \<and> map_group_id (get_map s m) = 0
       then None else k_maps s m)) \<and>
    (\<forall>f'. f' \<noteq> f \<longrightarrow> map_option own_qids (k_files s' f') = map_option own_qids (k_files s f')) \<and>
    pool_used (ctrl_pool (get_ctrl s' (own_ctrl own))) = pool_used (ctrl_pool ct) - set (own_qids own)"
proof -
  let ?s' = "snvm_dev_release e f s" and ?c = "own_ctrl own"
  let ?s2 = "set_own f (\<lambda>own. own\<lparr>own_nr_groups := 0\<rparr>) (release_groups e (own_ctrl own) f (own_groups own) s)"
  have inv: "queue_inv s" "mem_inv s" using reachable_inv(1) [OF assms(1)] by (simp_all add: sys_inv_def)
  note r = inv_release_groups [OF inv assms(2), where e = e]
  obtain s8 where s8: "?s' = s8\<lparr>k_files := (k_files s8)(f := None)\<rparr>" "core s8 = core ?s2" using release_parts [OF inv assms(2)] by blast
  have fc: "files_core ?s' = (files_core s)(f := None)"
    using s8(2) r(4) unfolding s8(1) by (auto simp: core_def files_core_def fun_eq_iff)
  have q': "queue_inv ?s'" by (rule inv_release(1) [OF inv assms(2)])
  have "map_option own_qids (k_files ?s' f') = map_option own_qids (k_files s f')" if "f' \<noteq> f" for f'
  proof -
    have "map_option own_qids (files_core ?s' f') = map_option own_qids (files_core s f')" using that by (simp add: fc)
    then show ?thesis by (simp add: files_core_def option.map_comp comp_def)
  qed
  moreover have "pool_used (ctrl_pool (get_ctrl ?s' ?c)) = pool_used (ctrl_pool ct) - set (own_qids own)"
  proof -
    have "k_ctrls ?s' ?c \<noteq> None" using ctrl_kept [OF s8(2) r(5)] unfolding s8(1) by simp
    then obtain ct' where ct': "k_ctrls ?s' ?c = Some ct'" by blast
    then have "ctrls_core ?s' ?c = Some (ctrl_pdev ct', ctrl_pool ct')" "ctrls_core s ?c = Some (ctrl_pdev ct, ctrl_pool ct)"
      using assms(3) by (simp_all add: ctrls_core_def ctrl_core_def)
    then have u: "pool_used (ctrl_pool ct') = held (files_core ?s') ?c" "pool_used (ctrl_pool ct) = held (files_core s) ?c"
      using q' inv(1) by (simp_all add: queue_inv_def queues_ok_def)
    have f: "files_core s f = Some (own_core own)" by (rule queue_inv_file(4) [OF inv(1) assms(2)])
    have "set (own_qids own) \<inter> (\<Union>f' \<in> - {f}. qids_of (files_core s f') ?c) = {}"
      using others_disjoint [OF inv(1) [unfolded queue_inv_def, THEN conjunct1] f] by simp
    moreover have "held (files_core s) ?c = set (own_qids own) \<union> (\<Union>f' \<in> - {f}. qids_of (files_core s f') ?c)"
      unfolding held_split [of "files_core s" ?c f] using f by (simp add: qids_of_def)
    moreover have "held (files_core ?s') ?c = (\<Union>f' \<in> - {f}. qids_of (files_core s f') ?c)"
      unfolding fc held_fun_upd by (simp add: qids_of_def)
    ultimately show ?thesis using u ct' by (auto simp: get_ctrl_def)
  qed
  ultimately show ?thesis using release_maps [OF inv assms(2), of e] unfolding Let_def purge_match_def by (simp add: s8(1))
qed

theorem snvm_dev_release_reclaims_witness:
  "\<exists>own ct. k_files run_added 0 = Some own \<and> k_ctrls run_added 0 = Some ct \<and> k_files (snvm_dev_release env_run 0 run_added) 0 = None \<and>
     pool_used (ctrl_pool (get_ctrl (snvm_dev_release env_run 0 run_added) 0)) = pool_used (ctrl_pool ct) - {3}"
proof -
  obtain own ct where o: "k_files run_added 0 = Some own" "own_qids own = [3]" "own_ctrl own = 0" "k_ctrls run_added (own_ctrl own) = Some ct"
    using run_added_state by auto
  from snvm_dev_release_reclaims [OF run_reachable_env(1) o(1,4), of env_run]
  show ?thesis using o by (intro exI [of _ own] exI [of _ ct]) (simp add: Let_def)
qed

subsection \<open>Rings registered before the bind\<close>

text \<open>The legacy flow: create the character device, open it, declare two rings, map a completion and a submission ring
  outside any group, ask for them to be used, bind. The bring-up then creates the queue pair 3 on them.\<close>

definition legacy_ring :: "u64 \<Rightarrow> int \<Rightarrow> nvm_ioctl_map" where
  "legacy_ring va is_cq = \<lparr>rq_vaddr_start = va, rq_n_pages = 1, rq_ioq_idx = 0, rq_is_cq = is_cq, rq_group_id = 0, rq_map_kind = 0,
     rq_reserved0 = [0, 0, 0]\<rparr>"

definition legacy_open :: kst where
  "legacy_open = snd (snvm_dev_open env_run 0 0 (run_control Chrdev_Create (loaded bus_run)))"

definition legacy_num :: kst where
  "legacy_num = run_request (Set_Ioq_Num \<lparr>st_ioq_num = 2, st_flags = 1, st_cap_kernel_ioq = 0, st_nr_write = 0, st_nr_poll = 0,
     st_nr_groups = 0, st_reserved = [], st_groups = []\<rparr>) legacy_open"

definition legacy_cq :: kst where
  "legacy_cq = run_request (Map_Host_Memory (legacy_ring 0x2000 1)) legacy_num"

definition legacy_sq :: kst where
  "legacy_sq = run_request (Map_Host_Memory (legacy_ring 0x3000 0)) legacy_cq"

definition legacy_share :: kst where
  "legacy_share = run_request (Set_Share_Reg ((legacy_ring 0 0)\<lparr>rq_ioq_idx := 1\<rparr>)) legacy_sq"

definition legacy_bound :: kst where
  "legacy_bound = run_control Device_Bind legacy_share"

definition legacy_nd :: nvme_dev where
  "legacy_nd = nd_ex\<lparr>nd_use_user_allocated := True, nd_user_start_qid := 3, nd_online_user_queues := 1, nd_nr_user_use_cq := 1\<rparr>"

definition legacy_cmds :: "kevent list" where
  "legacy_cmds = [EvAdmin 1 (CreateCQ 65536 3 1023 1 0) 0, EvAdmin 1 (CreateSQ 65536 3 1023 1 3) 0]"

definition legacy_up :: kst where
  "legacy_up = log_events legacy_cmds (log_event (EvReset 1) (set_pci 1 (\<lambda>d. d\<lparr>pci_drvdata := Some legacy_nd\<rparr>) legacy_bound))"

lemma legacy_closed: "k_files (run_control Chrdev_Create (loaded bus_run)) 0 = None"
  by code_simp

lemma legacy_files:
  "map_option own_ctrl (k_files legacy_open 0) = Some 0" "map_option own_ctrl (k_files legacy_num 0) = Some 0"
  "map_option own_ctrl (k_files legacy_cq 0) = Some 0" "map_option own_ctrl (k_files legacy_sq 0) = Some 0"
  by code_simp+

lemma legacy_share_pci: "k_pci legacy_share 1 \<noteq> None"
  by code_simp

lemma legacy_bound_pci:
  "map_option pci_driver (k_pci legacy_bound 1) = Some (Some PCI_DRIVER_NAME)" "pre_registered (k_pci legacy_bound) 1"
  by code_simp+

lemma legacy_up_state:
  "(map_option (\<lambda>own. (own_groups own, own_owner own)) (k_files legacy_up 0),
    map (\<lambda>m. map_option (\<lambda>md. (map_owner md, map_group_id md, map_addrs md)) (k_maps legacy_up m)) [0, 1]) =
   (Some ([], current env_run), [Some (current env_run, 0, [65536]), Some (current env_run, 0, [65536])])"
  by code_simp

lemma legacy_reachable: "reachable env_ok legacy_up"
proof -
  have st: "reachable env_ok (run_request req s)"
    if "reachable env_ok s" "map_option own_ctrl (k_files s 0) = Some 0" "request_ok req" for req s
    by (rule run_request_reachable [OF that(1) _ env_run_ok(1) that(2,3)]) simp
  have ct: "reachable env_ok (run_control req s)" if "reachable env_ok s" "req \<noteq> Chrdev_Remove" "k_pci s 1 \<noteq> None" for req s
    by (rule run_control_reachable [OF that(1) _ env_run_ok(1) that(2,3)]) simp
  have f: "foreign bus_run" "k_pci (loaded bus_run) 1 \<noteq> None" by (simp_all add: foreign_def bus_run_def loaded_def)
  have "reachable env_ok (run_control Chrdev_Create (loaded bus_run))" by (rule ct [OF reachable.init [OF f(1)] _ f(2)]) simp
  from reachable_prolong(1) [OF this _ env_run_ok(1) legacy_closed] have "reachable env_ok legacy_open" unfolding legacy_open_def by simp
  then have "reachable env_ok legacy_num" unfolding legacy_num_def by (rule st [OF _ legacy_files(1)]) simp
  then have "reachable env_ok legacy_cq" unfolding legacy_cq_def by (rule st [OF _ legacy_files(2)]) simp
  then have "reachable env_ok legacy_sq" unfolding legacy_sq_def by (rule st [OF _ legacy_files(3)]) simp
  then have "reachable env_ok legacy_share" unfolding legacy_share_def by (rule st [OF _ legacy_files(4)]) simp
  then have b: "reachable env_ok legacy_bound" unfolding legacy_bound_def by (rule ct [OF _ _ legacy_share_pci]) simp
  obtain d where d: "k_pci legacy_bound 1 = Some d" "pci_driver d = Some PCI_DRIVER_NAME" using legacy_bound_pci(1) by auto
  show ?thesis unfolding legacy_up_def
    by (rule reachable_prolong(5) [OF b _ d]) (use legacy_bound_pci(2) in \<open>simp_all add: ndev_ok_def legacy_nd_def nd_ex_def bringup_commands_def legacy_cmds_def\<close>)
qed

text \<open>C26. The queues that the bring-up created on rings registered before the bind outlive their owner. Releasing a file
  that has no queue group, in any reachable state, unmaps every ungrouped ring of its process, yet no controller loses
  a queue by it: what each controller holds is what it held before. The controller goes on using rings whose
  memory has been unmapped and unpinned.\<close>

theorem release_keeps_registered_queues:
  assumes "reachable env_ok s" "k_files s f = Some own" "own_groups own = []"
  shows "let s' = snvm_dev_release e f s in k_files s' f = None \<and>
    (\<forall>m. k_maps s m \<noteq> None \<and> map_owner (get_map s m) = own_owner own \<and> map_group_id (get_map s m) = 0 \<longrightarrow> k_maps s' m = None) \<and>
    (\<forall>pd. dev_queues pd (k_log s') = dev_queues pd (k_log s))"
proof -
  have inv: "queue_inv s" "mem_inv s" using reachable_inv(1) [OF assms(1)] by (simp_all add: sys_inv_def)
  let ?s2 = "set_own f (\<lambda>own. own\<lparr>own_nr_groups := 0\<rparr>) (release_groups e (own_ctrl own) f (own_groups own) s)"
  obtain s8 where s8: "snvm_dev_release e f s = s8\<lparr>k_files := (k_files s8)(f := None)\<rparr>" "core s8 = core ?s2"
    using release_parts [OF inv assms(2)] by blast
  have "ctl_queues s8 = ctl_queues ?s2" using s8(2) by (simp add: core_def)
  then have "dev_queues pd (k_log s8) = dev_queues pd (k_log s)" for pd
    using assms(3) by (simp add: ctl_queues_def fun_eq_iff set_own_def)
  then show ?thesis using release_maps [OF inv assms(2), of e] by (simp add: s8(1) purge_match_def)
qed

theorem release_keeps_registered_queues_witness:
  "dev_queues 1 (k_log legacy_up) = ({3}, {3}) \<and> k_maps legacy_up 0 \<noteq> None \<and>
   k_files (snvm_dev_release env_run 0 legacy_up) 0 = None \<and> k_maps (snvm_dev_release env_run 0 legacy_up) 0 = None \<and>
   dev_queues 1 (k_log (snvm_dev_release env_run 0 legacy_up)) = ({3}, {3})"
proof -
  obtain own md where o: "k_files legacy_up 0 = Some own" "own_groups own = []" "own_owner own = current env_run"
    "k_maps legacy_up 0 = Some md" "map_owner md = current env_run" "map_group_id md = 0" using legacy_up_state by auto
  obtain a b where "dev_queues 1 (k_log legacy_bound) = (a, b)" by fastforce
  then have d: "dev_queues 1 (k_log legacy_up) = ({3}, {3})"
    by (simp add: legacy_up_def legacy_cmds_def log_events_def log_event_def set_pci_def dev_queues_append)
  from release_keeps_registered_queues [OF legacy_reachable o(1,2), of env_run]
  show ?thesis using d o by (simp add: Let_def get_map_def)
qed

subsection \<open>Unloading\<close>

lemma clear_map_list_inv:
  "mem_inv s \<Longrightarrow> length (get_list l s) \<le> n \<Longrightarrow> let s' = snd (clear_map_list l n s) in
     mem_inv s' \<and> get_list l s' = [] \<and> core s' = core s \<and> (\<forall>l'. set (get_list l' s') \<subseteq> set (get_list l' s))"
proof (induction l n s rule: clear_map_list.induct)
  case (1 l s)
  then show ?case by simp
next
  case (2 l n s)
  show ?case
  proof (cases "get_list l s")
    case Nil
    then show ?thesis using 2 by simp
  next
    case (Cons m ms)
    let ?t = "unmap_and_release m s"
    have "k_maps s m \<noteq> None" using maps_wf_list_live [OF mem_invD(1) [OF 2(2)], of m l] Cons by simp
    then have "mem_inv ?t" "length (get_list l ?t) \<le> n" using mem_inv_unmap [OF 2(2)] 2(3) Cons by simp_all
    from 2(1) [OF Cons this] show ?thesis using Cons
      by (auto simp: Let_def case_prod_unfold dest: set_mp [OF set_remove1_subset])
  qed
qed

lemma clear_maps_inv:
  assumes "mem_inv s" shows "mem_inv (clear_maps s)" "core (clear_maps s) = core s" "all_lists (clear_maps s) = []"
proof -
  let ?s1 = "snd (clear_map_list DeviceList (length (k_device_list s)) s)"
  let ?s2 = "snd (clear_map_list DeviceQueueList (length (k_device_queue_list ?s1)) ?s1)"
  let ?s3 = "snd (clear_map_list HostList (length (k_host_list ?s2)) ?s2)"
  note i1 = clear_map_list_inv [OF assms order_refl, of DeviceList, unfolded Let_def]
  then have 1: "mem_inv ?s1" "get_list DeviceList ?s1 = []" "core ?s1 = core s" by simp_all
  note i2 = clear_map_list_inv [OF 1(1) order_refl, of DeviceQueueList, unfolded Let_def]
  then have 2: "mem_inv ?s2" "get_list DeviceQueueList ?s2 = []" "core ?s2 = core ?s1" by simp_all
  have l2: "set (get_list l' ?s2) \<subseteq> set (get_list l' ?s1)" for l'
    using i2 [THEN conjunct2, THEN conjunct2, THEN conjunct2, THEN spec, of l'] by simp
  note i3 = clear_map_list_inv [OF 2(1) order_refl, of HostList, unfolded Let_def]
  then have 3: "mem_inv ?s3" "get_list HostList ?s3 = []" "core ?s3 = core ?s2" by simp_all
  have l3: "set (get_list l' ?s3) \<subseteq> set (get_list l' ?s2)" for l'
    using i3 [THEN conjunct2, THEN conjunct2, THEN conjunct2, THEN spec, of l'] by simp
  have c: "clear_maps s = ?s3" by (simp add: clear_maps_def Let_def)
  show "mem_inv (clear_maps s)" "core (clear_maps s) = core s" using 1 2 3 c by simp_all
  show "all_lists (clear_maps s) = []"
    using 1(2) 2(2) 3(2) l2 [of DeviceList] l3 [of DeviceList] l3 [of DeviceQueueList] unfolding c all_lists_def by simp
qed

lemma unregister_step: "pci_step s (snvm_unregister_driver bus s)"
  unfolding snvm_unregister_driver_def
proof (induction bus arbitrary: s)
  case (Cons pd bus)
  let ?h = "\<lambda>pd s. if k_pci s pd \<noteq> None \<and> pci_driver (get_pci s pd) = Some PCI_DRIVER_NAME then device_release_driver pd s else s"
  have "pci_step s (?h pd s)" using device_release_driver_step by (cases "k_pci s pd") auto
  then have "pci_step s (fold ?h bus (?h pd s))" by (rule pci_step_trans [OF _ Cons.IH])
  then show ?case by simp
qed simp

lemma pci_step_lists: "pci_step s s' \<Longrightarrow> all_lists s' = all_lists s"
  unfolding pci_step_def by (auto simp: all_lists_def)

lemma clear_ctrl_list_inv:
  "queue_inv s \<Longrightarrow> mem_inv s \<Longrightarrow> k_files s = Map.empty \<Longrightarrow> length (k_ctrl_list s) \<le> n \<Longrightarrow> let s' = snd (clear_ctrl_list n s) in
     queue_inv s' \<and> mem_inv s' \<and> k_ctrl_list s' = [] \<and> all_lists s' = all_lists s"
proof (induction n s rule: clear_ctrl_list.induct)
  case (1 s)
  then show ?case by simp
next
  case (2 n s)
  show ?case
  proof (cases "k_ctrl_list s")
    case Nil
    then show ?thesis using 2 by simp
  next
    case (Cons c cs)
    let ?t = "ctrl_put (Some c) s"
    have t: "?t = s\<lparr>k_ctrl_list := remove1 c (k_ctrl_list s), k_ctrls := (k_ctrls s)(c := None), k_chrdev_minor_ida := k_chrdev_minor_ida s\<rparr>"
      by (simp add: ctrl_put_eq)
    have i: "queue_inv ?t" "mem_inv s \<Longrightarrow> mem_inv ?t" by (rule inv_drop_ctrl [OF 2(2) _ t]; use 2(4) in simp)+
    have "k_files ?t = Map.empty" "length (k_ctrl_list ?t) \<le> n" "all_lists ?t = all_lists s" using 2(4,5) Cons by (simp_all add: t all_lists_def)
    from 2(1) [OF Cons i(1) i(2) [OF 2(3)] this(1,2)] this(3) show ?thesis using Cons by (simp add: Let_def case_prod_unfold)
  qed
qed

text \<open>C10. Unloading the module with no file open, from any reachable state, leaves nothing behind: the three lists and
  the descriptor heap are empty, every page that was pinned has been unpinned as often and every dma-buf reference
  dropped, and all controller records and minor numbers are gone.\<close>

theorem nvme_exit_returns_everything:
  assumes "reachable env_ok s" "k_files s = Map.empty"
  shows "let s' = nvme_exit bus s in k_maps s' = Map.empty \<and> all_lists s' = [] \<and> k_ctrls s' = Map.empty \<and> k_chrdev_minor_ida s' = {} \<and>
    (\<forall>p. log_sum (pin_delta p) (k_log s') = 0) \<and> (\<forall>b. log_sum (buf_delta b) (k_log s') = 0)"
proof -
  have inv: "queue_inv s" "mem_inv s" using reachable_inv(1) [OF assms(1)] by (simp_all add: sys_inv_def)
  let ?c1 = "clear_maps s" and ?c2 = "clear_maps (clear_maps s)" and ?s1 = "clean_driver bus (clear_maps s)"
  note m1 = clear_maps_inv [OF inv(2)]
  note m2 = clear_maps_inv [OF m1(1)]
  have q2: "queue_inv ?c2" using inv(1) queue_inv_core [OF m1(2)] queue_inv_core [OF m2(2)] by simp
  have "files_core ?c2 = files_core s" using m1(2) m2(2) by (simp add: core_def)
  then have f2: "k_files ?c2 = Map.empty" using assms(2) by (auto simp: files_core_def fun_eq_iff)
  have st: "pci_step ?c2 ?s1" using unregister_step by (simp add: clean_driver_def Let_def)
  have i: "queue_inv ?s1" "mem_inv ?s1" "k_files ?s1 = Map.empty" "all_lists ?s1 = []"
    using pci_step_inv(1,2,5) [OF st] q2 m2(1) f2 pci_step_lists [OF st] m2(3) by simp_all
  let ?s2 = "snd (clear_ctrl_list (length (k_ctrl_list ?s1)) ?s1)"
  have e: "queue_inv ?s2" "mem_inv ?s2" "k_ctrl_list ?s2 = []" "all_lists ?s2 = []"
    using clear_ctrl_list_inv [OF i(1-3) order_refl] i(4) by (simp_all add: Let_def)
  have "dom (k_maps ?s2) = {}" using e(2,4) by (simp add: mem_inv_def maps_wf_def)
  then have k: "k_maps ?s2 = Map.empty" by (simp only: dom_eq_empty_conv)
  have "dom (ctrls_core ?s2) = {}" using e(1,3) by (simp add: queue_inv_def ctrls_ok_def)
  then have c: "k_ctrls ?s2 = Map.empty" by (auto simp: ctrls_core_def fun_eq_iff dom_def)
  have r: "log_sum (pin_delta p) (k_log ?s2) = 0" "log_sum (buf_delta b) (k_log ?s2) = 0" for p b
    using mem_invD(3) [OF e(2)] k by (simp_all add: resources_ok_def accounted_def)
  have "nvme_exit bus s = ?s2\<lparr>k_chrdev_minor_ida := {}\<rparr>" by (simp add: nvme_exit_def Let_def)
  then show ?thesis using k c r e(4) by (simp add: Let_def all_lists_def)
qed

lemma run_control_files:
  assumes "req = Chrdev_Create \<or> req = Device_Bind" "k_pci s 1 \<noteq> None" shows "k_files (run_control req s) = k_files s"
  using assms(1)
proof
  assume r: "req = Device_Bind"
  obtain rc s' where "snvm_rebind_driver pe_run [] (Some 1) s = (rc, s')" by fastforce
  then show ?thesis using pci_step_inv(5) [OF rebind_step [OF _ assms(2)]] r by (simp add: run_control_def snvm_ioctl_def env_run_def env_ex_def)
next
  assume r: "req = Chrdev_Create"
  obtain rc s' where c: "snvm_chrdev_create env_run 1 PCI_CLASS_STORAGE_EXPRESS s = (rc, s')" by fastforce
  then have "k_files s' = k_files s" by (cases rule: chrdev_create_cases) (simp_all add: ctrl_put_eq)
  then show ?thesis using r c
    by (auto simp: run_control_def snvm_ioctl_def snvm_chrdev_helper_def env_run_def env_ex_def split: option.splits)
qed

lemma run_up_files: "k_files run_up = Map.empty"
proof -
  have "k_pci (loaded bus_run) 1 \<noteq> None" by (simp add: loaded_def bus_run_def)
  then show ?thesis unfolding run_up_def using run_control_files [OF disjI1 [OF refl]] run_control_files [OF disjI2 [OF refl] run_s1]
    by (simp add: set_pci_def loaded_def kst_init_def)
qed

theorem nvme_exit_returns_everything_witness:
  "k_ctrls run_up 0 \<noteq> None \<and> k_ctrls (nvme_exit [1] run_up) = Map.empty"
proof -
  have "k_ctrls run_up 0 \<noteq> None" by code_simp
  then show ?thesis using nvme_exit_returns_everything [OF run_reachable_env(3) run_up_files, of "[1]"] by (simp add: Let_def)
qed

end
