(* ===== verification/Control_Claims.thy ===== *)
theory Control_Claims
  imports System_Claims
begin

text \<open>
  Properties of the control requests: creating and removing a character device, and binding a device that has none.
\<close>

lemma find_append: "List.find P xs = None \<Longrightarrow> List.find P (xs @ ys) = List.find P ys"
  by (induction xs) auto

text \<open>C30. \<open>SNVM_CHRDEV_CREATE\<close> is idempotent and \<open>SNVM_CHRDEV_REMOVE\<close> undoes it: in a reachable state, after the
  character device of a controller without one has been created, creating it again reports the same minor number and
  changes nothing, and removing it gives back the minor number and leaves the state as it was before the creation
  but for the counter of controller identities.\<close>

theorem chrdev_create_remove:
  assumes "reachable env_ok s" "env_ok e" "get_dev addr = Some pd" "ctrl_find_by_pci_dev pd s = None"
    "snvm_chrdev_helper e get_dev addr True s = (0, a, s1)"
  shows "a = report_minor (ida_simple_get e (k_chrdev_minor_ida s) 0) \<and>
    snvm_chrdev_helper e' get_dev addr True s1 = (0, a, s1) \<and>
    snvm_chrdev_helper e' get_dev addr False s1 = (0, addr, s\<lparr>k_next_cid := Suc (k_next_cid s)\<rparr>)"
proof -
  let ?c = "k_next_cid s" and ?minor = "ida_simple_get e (k_chrdev_minor_ida s) 0"
  have inv: "queue_inv s" using reachable_inv(1) [OF assms(1)] by (simp add: sys_inv_def)
  have "set (k_ctrl_list s) = dom (ctrls_core s)" using inv by (simp add: queue_inv_def ctrls_ok_def)
  then have nc: "?c \<notin> set (k_ctrl_list s)" "k_ctrls s ?c = None" using cid_fresh [OF inv] by (auto simp: ctrls_core_def)
  obtain rc where cr: "snvm_chrdev_create e pd PCI_CLASS_STORAGE_EXPRESS s = (rc, s1)" "rc = 0"
    and a: "a = report_minor (ctrl_number (get_ctrl s1 (the (ctrl_find_by_pci_dev pd s1))))"
    using assms(3-5) by (auto simp: snvm_chrdev_helper_def split: prod.splits if_splits)
  from cr(1) show ?thesis
  proof (cases rule: chrdev_create_cases)
    case (2 ct ida)
    have fr: "nat ?minor \<notin> k_chrdev_minor_ida s" using assms(2) 2(4,7) unfolding env_ok_def ida_ok_def by metis
    have g: "get_ctrl s1 ?c = ct" "\<And>c. c \<in> set (k_ctrl_list s) \<Longrightarrow> get_ctrl s1 c = get_ctrl s c"
      using nc(1) unfolding 2(8) by (auto simp: get_ctrl_def)
    have "List.find (\<lambda>c. ctrl_pdev (get_ctrl s1 c) = pd) (k_ctrl_list s) = None"
      using assms(4) find_cong_set [of "k_ctrl_list s" "\<lambda>c. ctrl_pdev (get_ctrl s1 c) = pd" "\<lambda>c. ctrl_pdev (get_ctrl s c) = pd"] g(2)
      by (simp add: ctrl_find_by_pci_dev_def)
    moreover have "k_ctrl_list s1 = k_ctrl_list s @ [?c]" by (simp add: 2(8))
    ultimately have f: "ctrl_find_by_pci_dev pd s1 = Some ?c" using g(1) 2(2) by (simp add: ctrl_find_by_pci_dev_def find_append)
    have m: "a = report_minor ?minor" using a f g(1) 2(4) by simp
    have "snvm_chrdev_helper e' get_dev addr False s1 = (0, addr, s\<lparr>k_next_cid := Suc ?c\<rparr>)"
      using assms(3) f g(1) fr nc 2(4,6) unfolding snvm_chrdev_helper_def
      by (simp add: ctrl_put_eq Let_def 2(8) remove1_append fun_upd_idem)
    then show ?thesis using m assms(3) f g(1) 2(4) by (simp add: snvm_chrdev_helper_def)
  next
    case (1 ida)
    have "snvm_chrdev_create e pd PCI_CLASS_STORAGE_EXPRESS s = (0, s1) \<Longrightarrow> k_ctrl_list s1 \<noteq> k_ctrl_list s"
      by (auto simp: snvm_chrdev_create_def ctrl_get_eq ctrl_chrdev_create_def Let_def set_ctrl_def split: if_splits)
    then show ?thesis using cr 1 by simp
  qed (use cr(2) in simp)
qed

lemma run_chrdev_rc: "fst (snvm_chrdev_helper env_run (\<lambda>_. Some 1) addr_run True (loaded bus_run)) = 0"
  by code_simp

theorem chrdev_create_remove_witness:
  "\<exists>s1. snvm_chrdev_helper env_run (\<lambda>_. Some 1) addr_run True (loaded bus_run) = (0, report_minor 0, s1) \<and>
     snvm_chrdev_helper env_run (\<lambda>_. Some 1) addr_run True s1 = (0, report_minor 0, s1) \<and>
     snvm_chrdev_helper env_run (\<lambda>_. Some 1) addr_run False s1 = (0, addr_run, (loaded bus_run)\<lparr>k_next_cid := 1\<rparr>)"
proof -
  obtain a s1 where h: "snvm_chrdev_helper env_run (\<lambda>_. Some 1) addr_run True (loaded bus_run) = (0, a, s1)"
    using run_chrdev_rc by (metis prod.collapse)
  have "reachable env_ok (loaded bus_run)" by (rule reachable.init) (simp add: foreign_def bus_run_def)
  moreover have "ctrl_find_by_pci_dev 1 (loaded bus_run) = None" "ida_simple_get env_run (k_chrdev_minor_ida (loaded bus_run)) 0 = 0"
    "k_next_cid (loaded bus_run) = 0"
    by (simp_all add: ctrl_find_by_pci_dev_def loaded_def kst_init_def env_run_def)
  ultimately show ?thesis using h
      chrdev_create_remove [of "loaded bus_run" env_run "\<lambda>_. Some 1" addr_run 1 a s1 env_run] env_run_ok(1) by simp
qed

subsection \<open>The probe gate\<close>

text \<open>\<open>gated x s s'\<close>: the controller records are the same, a device newly driven by this module has one, and a device
  other than \<open>x\<close> that had a driver is unchanged.\<close>

definition gated :: "pdev \<Rightarrow> kst \<Rightarrow> kst \<Rightarrow> bool" where
  "gated x s s' \<longleftrightarrow> k_ctrls s' = k_ctrls s \<and> k_ctrl_list s' = k_ctrl_list s \<and>
     (\<forall>pd d. k_pci s pd = Some d \<longrightarrow> (\<exists>d'. k_pci s' pd = Some d' \<and>
        (pci_driver d' = Some PCI_DRIVER_NAME \<longrightarrow> pci_driver d = Some PCI_DRIVER_NAME \<or> ctrl_find_by_pci_dev pd s \<noteq> None) \<and>
        (pd \<noteq> x \<longrightarrow> pci_driver d \<noteq> None \<longrightarrow> d' = d)))"

lemma gated_refl [simp]: "gated x s s"
  by (simp add: gated_def)

lemma gated_find: "gated x s s' \<Longrightarrow> ctrl_find_by_pci_dev pd s' = ctrl_find_by_pci_dev pd s"
  by (simp add: gated_def ctrl_find_by_pci_dev_def get_ctrl_def)

lemma gated_trans:
  assumes "gated x s s'" "gated x s' s''" shows "gated x s s''"
  unfolding gated_def
proof (intro conjI allI impI)
  fix pd d assume d: "k_pci s pd = Some d"
  obtain d' where d': "k_pci s' pd = Some d'"
    "pci_driver d' = Some PCI_DRIVER_NAME \<longrightarrow> pci_driver d = Some PCI_DRIVER_NAME \<or> ctrl_find_by_pci_dev pd s \<noteq> None"
    "pd \<noteq> x \<longrightarrow> pci_driver d \<noteq> None \<longrightarrow> d' = d" using assms(1) d unfolding gated_def by blast
  obtain d'' where d'': "k_pci s'' pd = Some d''"
    "pci_driver d'' = Some PCI_DRIVER_NAME \<longrightarrow> pci_driver d' = Some PCI_DRIVER_NAME \<or> ctrl_find_by_pci_dev pd s' \<noteq> None"
    "pd \<noteq> x \<longrightarrow> pci_driver d' \<noteq> None \<longrightarrow> d'' = d'" using assms(2) d'(1) unfolding gated_def by blast
  show "\<exists>d'. k_pci s'' pd = Some d' \<and>
     (pci_driver d' = Some PCI_DRIVER_NAME \<longrightarrow> pci_driver d = Some PCI_DRIVER_NAME \<or> ctrl_find_by_pci_dev pd s \<noteq> None) \<and>
     (pd \<noteq> x \<longrightarrow> pci_driver d \<noteq> None \<longrightarrow> d' = d)"
    using d'(2,3) d'' gated_find [OF assms(1)] by (intro exI [of _ d'']) auto
qed (use assms in \<open>simp_all add: gated_def\<close>)

lemma gated_set:
  assumes "k_pci s pd = Some d" "pci_driver (h d) = Some PCI_DRIVER_NAME \<longrightarrow> pci_driver d = Some PCI_DRIVER_NAME \<or> ctrl_find_by_pci_dev pd s \<noteq> None"
    "pd \<noteq> x \<longrightarrow> pci_driver d = None"
  shows "gated x s (set_pci pd h s)"
  using assms by (auto simp: gated_def set_pci_def get_pci_def)

lemma gated_log [simp]: "gated x s (log_event ev s') = gated x s s'" "gated x s (s'\<lparr>k_registered := r\<rparr>) = gated x s s'"
  by (simp_all add: gated_def)

lemma core_probe_gated:
  assumes "k_pci s pd = Some d" "pci_driver d = None" "core_probe pe pd s = (rc, s')"
  shows "gated x s s'"
proof -
  have n: "gated x s (set_pci pd (\<lambda>d. h d) s)" if "\<And>d. pci_driver (h d) = pci_driver d" for h
    by (rule gated_set [OF assms(1)]) (use that assms(2) in simp_all)
  have y: "gated x s (set_pci pd (\<lambda>d. h d) s)" if "ctrl_find_by_pci_dev pd s \<noteq> None" for h
    by (rule gated_set [OF assms(1)]) (use that assms(2) in simp_all)
  show ?thesis using assms(3) n y
    by (auto simp: core_probe_def nvme_probe_def Let_def set_pci_log set_pci_set_pci split: option.splits if_splits)
qed

lemma register_gated: "register_driver pe bus s = (rc, s') \<Longrightarrow> gated x s s'"
proof -
  have f: "gated x s (fold (\<lambda>pd s. if k_pci s pd \<noteq> None \<and> snvme_matches (get_pci s pd) then snd (core_probe pe pd s) else s) bus s)" for s
  proof (induction bus arbitrary: s)
    case (Cons pd bus)
    let ?h = "\<lambda>pd s. if k_pci s pd \<noteq> None \<and> snvme_matches (get_pci s pd) then snd (core_probe pe pd s) else s"
    have "gated x s (?h pd s)"
    proof (cases "k_pci s pd \<noteq> None \<and> snvme_matches (get_pci s pd)")
      case True
      then obtain d where "k_pci s pd = Some d" "pci_driver d = None" by (auto simp: snvme_matches_def get_pci_def)
      then show ?thesis using True core_probe_gated [of s pd d pe] by (metis prod.collapse)
    qed auto
    then have "gated x s (fold ?h bus (?h pd s))" by (rule gated_trans [OF _ Cons.IH])
    then show ?case by simp
  qed simp
  show "register_driver pe bus s = (rc, s') \<Longrightarrow> gated x s s'"
    using f [of s] by (auto simp: register_driver_def snvm_register_driver_def simp del: not_None_eq split: if_splits)
qed

lemma detach_gated:
  assumes "k_pci s pd = Some d"
  shows "gated pd s (device_release_driver pd (disable_if_enabled pd s))"
    "\<exists>d'. k_pci (device_release_driver pd (disable_if_enabled pd s)) pd = Some d' \<and> pci_driver d' = None \<and> pci_class d' = pci_class d"
  using assms
  by (auto simp: device_release_driver_def disable_if_enabled_def nvme_remove_def get_pci_def set_pci_log set_pci_set_pci Let_def
      intro!: gated_set)

lemma rebind_gated:
  assumes "snvm_rebind_driver pe bus (Some pd) s = (rc, s')" "k_pci s pd = Some d"
  shows "gated pd s s'"
proof -
  let ?s1 = "if pci_driver (get_pci s pd) \<noteq> None then device_release_driver pd (disable_if_enabled pd s) else s"
  obtain ret s2 where r: "register_driver pe bus ?s1 = (ret, s2)" by fastforce
  have "gated pd s ?s1" using detach_gated(1) [OF assms(2)] by simp
  then have s2: "gated pd s s2" using gated_trans register_gated [OF r] by blast
  then obtain d2 where d2: "k_pci s2 pd = Some d2" using assms(2) unfolding gated_def by blast
  have ov: "gated pd s2 (set_pci pd (\<lambda>d. d\<lparr>pci_driver_override := oo\<rparr>) s2)" for oo by (rule gated_set [OF d2]) simp_all
  let ?s3 = "set_pci pd (\<lambda>d. d\<lparr>pci_driver_override := Some PCI_DRIVER_NAME\<rparr>) s2"
  have "gated pd s2 s3" if da: "device_attach pe pd ?s3 = (ret', s3)" for ret' s3
  proof (cases "snvme_matches (get_pci ?s3 pd)")
    case True
    have "k_pci ?s3 pd = Some (get_pci ?s3 pd)" "pci_driver (get_pci ?s3 pd) = None" using True by (simp_all add: snvme_matches_def)
    moreover have "core_probe pe pd ?s3 = (fst (core_probe pe pd ?s3), s3)"
      using da True by (auto simp: device_attach_def split: prod.splits if_splits)
    ultimately have "gated pd ?s3 s3" by (rule core_probe_gated)
    then show ?thesis using gated_trans [OF ov] by blast
  next
    case False
    then show ?thesis using da ov by (auto simp: device_attach_def)
  qed
  then have "gated pd s2 s'" using assms(1) r ov [of None]
    by (auto simp: snvm_rebind_driver_def Let_def split: if_splits prod.splits)
  then show ?thesis using s2 gated_trans by blast
qed

text \<open>C29. \<open>SNVM_DEVICE_BIND\<close> never takes over a device the user has not named: whatever devices the PCI core offers to the
  probe callback, a device driven by this module afterwards was already driven by it or has a controller record made by
  \<open>SNVM_CHRDEV_CREATE\<close>, and every device other than the addressed one that had a driver keeps it, with its state.\<close>

theorem bind_takes_only_registered_devices:
  assumes "k_pci s pd = Some d" "snvm_rebind_driver pe bus (Some pd) s = (rc, s')" "k_pci s x = Some dx"
  shows "\<exists>dx'. k_pci s' x = Some dx' \<and>
    (pci_driver dx' = Some PCI_DRIVER_NAME \<longrightarrow> pci_driver dx = Some PCI_DRIVER_NAME \<or> ctrl_find_by_pci_dev x s \<noteq> None) \<and>
    (x \<noteq> pd \<and> pci_driver dx \<noteq> None \<longrightarrow> dx' = dx)"
  using rebind_gated [OF assms(2,1)] assms(3) unfolding gated_def by blast

definition bus_two :: "pdev \<rightharpoonup> pci_device" where
  "bus_two = [1 \<mapsto> pci_ex\<lparr>pci_driver := Some ''nvme'', pci_drvdata := None\<rparr>, 2 \<mapsto> pci_ex\<lparr>pci_driver := Some ''nvme'', pci_drvdata := None\<rparr>]"

theorem bind_takes_only_registered_devices_witness:
  "\<exists>rc s' d. snvm_rebind_driver pe_run [1, 2] (Some 1) (loaded bus_two) = (rc, s') \<and> k_pci s' 2 = Some d \<and> pci_driver d = Some ''nvme''"
proof -
  obtain rc s' where r: "snvm_rebind_driver pe_run [1, 2] (Some 1) (loaded bus_two) = (rc, s')" by fastforce
  have "k_pci (loaded bus_two) 1 = Some (pci_ex\<lparr>pci_driver := Some ''nvme'', pci_drvdata := None\<rparr>)"
    "k_pci (loaded bus_two) 2 = Some (pci_ex\<lparr>pci_driver := Some ''nvme'', pci_drvdata := None\<rparr>)"
    by (simp_all add: loaded_def bus_two_def)
  from bind_takes_only_registered_devices [OF this(1) r this(2)] show ?thesis using r by auto
qed

text \<open>C31. Binding a device without a controller record does not leave it alone: the device is first detached from the
  driver that runs it, the probe then refuses it, and the request fails with \<open>-ENODEV\<close> leaving the device without a
  driver and pinned to this one by its driver override, so that no other driver can take it back. (The comment at the
  gate in \<open>nvme_probe\<close> says that the PCI core falls through to the in-tree driver.) The hypothesis on \<open>device_attach\<close> is
  that the driver core reports a probe result of \<open>-ENODEV\<close> as no driver found.\<close>

theorem bind_without_record_orphans_device:
  assumes "k_pci s pd = Some d" "pci_driver d = Some drv" "pci_class d = PCI_CLASS_STORAGE_EXPRESS" "k_registered s"
    "ctrl_find_by_pci_dev pd s = None" "pe_alloc_override pe" "device_attach_rc pe (- ENODEV) = 0"
  shows "\<exists>s' d'. snvm_rebind_driver pe bus (Some pd) s = (- ENODEV, s') \<and> k_pci s' pd = Some d' \<and> pci_driver d' = None \<and>
    pci_driver_override d' = Some PCI_DRIVER_NAME"
proof -
  let ?s1 = "device_release_driver pd (disable_if_enabled pd s)"
  note g = detach_gated [OF assms(1)]
  have "k_registered ?s1" using assms(4)
    by (simp add: device_release_driver_def disable_if_enabled_def nvme_remove_def set_pci_def log_event_def Let_def)
  then have r: "register_driver pe bus ?s1 = (0, ?s1)" by (simp add: register_driver_def)
  obtain d1 where d1: "k_pci ?s1 pd = Some d1" "pci_driver d1 = None" "pci_class d1 = PCI_CLASS_STORAGE_EXPRESS"
    using g(2) assms(3) by auto
  have f: "ctrl_find_by_pci_dev pd ?s1 = None" using gated_find [OF g(1)] assms(5) by simp
  let ?s2 = "set_pci pd (\<lambda>d. d\<lparr>pci_driver_override := Some PCI_DRIVER_NAME\<rparr>) ?s1"
  have f2: "ctrl_find_by_pci_dev pd ?s2 = None" using f by (simp add: ctrl_find_by_pci_dev_def set_pci_def get_ctrl_def)
  have p: "core_probe pe pd ?s2 = (- ENODEV, set_pci pd (\<lambda>d. d\<lparr>pci_drvdata := None\<rparr>) ?s2)"
    using f2 by (simp add: core_probe_def nvme_probe_def)
  have "snvme_matches (get_pci ?s2 pd)" using d1 by (simp add: snvme_matches_def get_pci_def)
  then have a: "device_attach pe pd ?s2 = (0, set_pci pd (\<lambda>d. d\<lparr>pci_drvdata := None\<rparr>) ?s2)"
    using p assms(7) by (simp add: device_attach_def)
  have "snvm_rebind_driver pe bus (Some pd) s = (- ENODEV, set_pci pd (\<lambda>d. d\<lparr>pci_drvdata := None\<rparr>) ?s2)"
    using r a d1 assms(1,2,6) by (simp add: snvm_rebind_driver_def Let_def get_pci_def)
  moreover have "k_pci (set_pci pd (\<lambda>d. d\<lparr>pci_drvdata := None\<rparr>) ?s2) pd =
      Some (d1\<lparr>pci_driver_override := Some PCI_DRIVER_NAME, pci_drvdata := None\<rparr>)" using d1(1) by (simp add: set_pci_def get_pci_def)
  ultimately show ?thesis using d1(2) by (intro exI conjI) (assumption | simp)+
qed

theorem bind_without_record_orphans_device_witness:
  "\<exists>s' d'. snvm_rebind_driver pe_run [1, 2] (Some 1) ((loaded bus_two)\<lparr>k_registered := True\<rparr>) = (- ENODEV, s') \<and>
     k_pci s' 1 = Some d' \<and> pci_driver d' = None \<and> pci_driver_override d' = Some ''snvme''"
  using bind_without_record_orphans_device [of "(loaded bus_two)\<lparr>k_registered := True\<rparr>" 1 "pci_ex\<lparr>pci_driver := Some ''nvme'', pci_drvdata := None\<rparr>"
      "''nvme''" pe_run "[1, 2]"]
  by (simp add: loaded_def bus_two_def kst_init_def ctrl_find_by_pci_dev_def pci_ex_def PCI_CLASS_STORAGE_EXPRESS_def pe_run_def PCI_DRIVER_NAME_def)

end
