(* ===== verification/Nvm_Queue.thy ===== *)
theory Nvm_Queue
  imports Snvme_Prelude
begin

text \<open>
  The queue descriptor of libnvm (\<open>nvm_queue_t\<close> of \<open>nvm_types.h\<close>) and the single-threaded ring operations of
  \<open>nvm_queue.h\<close> and \<open>queue.cpp\<close>: taking a slot of a submission queue, ringing its doorbell, polling a completion queue
  by phase tag, and the blocking poll with a timeout. The memory of a ring is the list of its entries, an entry the
  list of its 32-bit words; a doorbell register is its address (0 is the null pointer) and the value last written.
  The lemmas show when the test for a full submission queue is right, and that polling a completion queue reads the
  completions of the controller exactly once and in order.
\<close>

unbundle bit_operations_syntax

type_synonym entry = "u32 list"

record nvm_queue =
  q_head_lock :: u32
  q_tail_lock :: u32
  q_head :: u32
  q_tail :: u32
  q_in_ticket :: u32
  q_cid_ticket :: u32
  q_tickets :: "u32 list"
  q_head_mark :: "u32 list"
  q_tail_mark :: "u32 list"
  q_cid :: "u32 list"
  q_pos_locks :: "u32 list"
  q_qs_minus_1 :: u32
  q_qs_log2 :: u32
  q_no :: u16
  q_es :: u16
  q_qs :: u32
  q_phase :: bool
  q_local :: bool
  q_last :: u32
  q_db :: u64
  q_db_val :: u32
  q_ring :: "entry list"
  q_ioaddr :: u64

subsection \<open>Doorbells, clearing and resetting\<close>

definition SQ_DBL :: "u64 \<Rightarrow> u16 \<Rightarrow> u8 \<Rightarrow> u64" where
  "SQ_DBL p y dstrd = p + 0x1000 + (2 * ucast y) * push_bit (unat dstrd) 4"

definition CQ_DBL :: "u64 \<Rightarrow> u16 \<Rightarrow> u8 \<Rightarrow> u64" where
  "CQ_DBL p y dstrd = p + 0x1000 + (2 * ucast y + 1) * push_bit (unat dstrd) 4"

definition nvm_queue_clear ::
  "u64 \<Rightarrow> u8 \<Rightarrow> bool \<Rightarrow> u16 \<Rightarrow> u32 \<Rightarrow> bool \<Rightarrow> entry list \<Rightarrow> u64 \<Rightarrow> nvm_queue \<Rightarrow> int \<times> nvm_queue" where
  "nvm_queue_clear mm_ptr dstrd cq no qs local vaddr ioaddr q =
     (if qs < 2 \<or> qs > 0x10000 then (EINVAL, q)
      else (0, q\<lparr>q_no := no, q_qs := qs, q_es := (if cq then 16 else 64), q_head := 0, q_tail := 0, q_last := 0,
                 q_phase := True, q_local := local, q_head_lock := 0, q_tail_lock := 0, q_in_ticket := 0,
                 q_cid_ticket := 0, q_db := (if cq then CQ_DBL mm_ptr no dstrd else SQ_DBL mm_ptr no dstrd),
                 q_ring := vaddr, q_ioaddr := ioaddr\<rparr>))"

definition nvm_queue_reset :: "nvm_queue \<Rightarrow> nvm_queue" where
  "nvm_queue_reset q = q\<lparr>q_head := 0, q_tail := 0, q_last := 0, q_phase := True\<rparr>"

subsection \<open>Submission queue\<close>

text \<open>The difference of the 32-bit indices is cut to 16 bits before the remainder is taken.\<close>

definition nvm_sq_full :: "nvm_queue \<Rightarrow> bool" where
  "nvm_sq_full sq \<longleftrightarrow> ucast (ucast (q_tail sq - q_head sq) :: u16) mod q_qs sq = q_qs sq - 1"

text \<open>The pointer to the slot is its byte offset in the ring.\<close>

definition nvm_sq_enqueue :: "nvm_queue \<Rightarrow> u32 option \<times> nvm_queue" where
  "nvm_sq_enqueue sq =
     (if nvm_sq_full sq then (None, sq)
      else
        let cmd = ucast (q_es sq) * q_tail sq; tail = q_tail sq + 1 in
        (Some cmd, if tail = q_qs sq then sq\<lparr>q_phase := \<not> q_phase sq, q_tail := 0\<rparr> else sq\<lparr>q_tail := tail\<rparr>))"

definition nvm_sq_enqueue_n :: "nvm_queue \<Rightarrow> u32 option \<Rightarrow> u16 \<Rightarrow> u16 \<Rightarrow> u32 option \<times> nvm_queue" where
  "nvm_sq_enqueue_n sq prev n i =
     (let size = q_qs sq * ucast (q_es sq) in
      if ucast n \<ge> q_qs sq then (None, sq)
      else
        let cmd = (case prev of
                     None \<Rightarrow> ucast (q_es sq) * ucast i
                   | Some l \<Rightarrow> let c = l + ucast n * ucast (q_es sq) in if size \<le> c then c - size else c);
            sq' = (if i = 0 then sq\<lparr>q_tail := (q_tail sq + ucast n) mod q_qs sq\<rparr> else sq)
        in (Some cmd, sq'))"

definition nvm_sq_submit :: "nvm_queue \<Rightarrow> nvm_queue" where
  "nvm_sq_submit sq =
     (if q_last sq \<noteq> q_tail sq \<and> q_db sq \<noteq> 0 then sq\<lparr>q_db_val := q_tail sq, q_last := q_tail sq\<rparr> else sq)"

definition nvm_sq_update :: "nvm_queue \<Rightarrow> nvm_queue" where
  "nvm_sq_update sq =
     (if q_db sq = 0 then sq
      else let head = q_head sq + 1 in if head = q_qs sq then sq\<lparr>q_head := 0\<rparr> else sq\<lparr>q_head := head\<rparr>)"

subsection \<open>Completion queue\<close>

definition NVM_CPL_STATUS :: "entry \<Rightarrow> u16" where
  "NVM_CPL_STATUS cpl = ucast (drop_bit 16 (cpl ! 3))"

definition cpl_phase :: "entry \<Rightarrow> bool" where
  "cpl_phase cpl \<longleftrightarrow> NVM_CPL_STATUS cpl AND 1 \<noteq> 0"

text \<open>A completion pointer is the index of its entry.\<close>

definition nvm_cq_poll :: "nvm_queue \<Rightarrow> nat option" where
  "nvm_cq_poll cq =
     (let cpl = unat (q_head cq) in if cpl_phase (q_ring cq ! cpl) \<noteq> q_phase cq then None else Some cpl)"

definition nvm_cq_dequeue :: "nvm_queue \<Rightarrow> nat option \<times> nvm_queue" where
  "nvm_cq_dequeue cq =
     (case nvm_cq_poll cq of
        None \<Rightarrow> (None, cq)
      | Some cpl \<Rightarrow>
          let head = q_head cq + 1 in
          (Some cpl, if head = q_qs cq then cq\<lparr>q_head := 0, q_phase := \<not> q_phase cq\<rparr> else cq\<lparr>q_head := head\<rparr>))"

definition nvm_cq_update :: "nvm_queue \<Rightarrow> nvm_queue" where
  "nvm_cq_update cq =
     (if q_last cq \<noteq> q_head cq \<and> q_db cq \<noteq> 0
      then cq\<lparr>q_db_val := q_head cq, q_last := q_head cq, q_tail := q_head cq\<rparr> else cq)"

definition nvm_delay_remain :: "u64 \<Rightarrow> u64" where
  "nvm_delay_remain r = (if r = 0 then 0 else r - min 1000000 r)"

text \<open>The blocking poll: \<open>mem k\<close> is the memory of the ring when it is polled for the \<open>k\<close>-th time. The result carries
  the number of polls made.\<close>

function dequeue_wait :: "(nat \<Rightarrow> entry list) \<Rightarrow> u64 \<Rightarrow> nat \<Rightarrow> nvm_queue \<Rightarrow> nat option \<times> nat \<times> nvm_queue" where
  "dequeue_wait mem nsecs k cq =
     (case nvm_cq_dequeue (cq\<lparr>q_ring := mem k\<rparr>) of
        (Some cpl, cq') \<Rightarrow> (Some cpl, Suc k, cq')
      | (None, cq') \<Rightarrow>
          if nsecs > 0 then dequeue_wait mem (nvm_delay_remain nsecs) (Suc k) cq' else (None, Suc k, cq'))"
  by pat_completeness auto
termination
proof (relation "measure (\<lambda>(mem, nsecs, k, cq). unat nsecs)")
  fix mem :: "nat \<Rightarrow> entry list" and nsecs :: u64 and k :: nat and cq :: nvm_queue and x x1 y
  assume "0 < nsecs"
  then have "nvm_delay_remain nsecs < nsecs"
    by (auto simp: nvm_delay_remain_def min_def word_less_nat_alt unat_sub word_le_nat_alt unat_gt_0 word_gt_0_no)
  then show "((mem, nvm_delay_remain nsecs, Suc k, y), mem, nsecs, k, cq) \<in> measure (\<lambda>(mem, nsecs, k, cq). unat nsecs)"
    by (simp add: word_less_nat_alt)
qed simp

definition nvm_cq_dequeue_block :: "(nat \<Rightarrow> entry list) \<Rightarrow> u64 \<Rightarrow> nvm_queue \<Rightarrow> nat option \<times> nat \<times> nvm_queue" where
  "nvm_cq_dequeue_block mem timeout cq = dequeue_wait mem (timeout * 1000000) 0 cq"

subsection \<open>When the test for a full ring is right\<close>

text \<open>The number of entries between head and tail, and a ring whose indices are in range.\<close>

definition sq_used :: "nvm_queue \<Rightarrow> nat" where
  "sq_used sq = (unat (q_tail sq) + unat (q_qs sq) - unat (q_head sq)) mod unat (q_qs sq)"

definition sq_wf :: "nat \<Rightarrow> nvm_queue \<Rightarrow> bool" where
  "sq_wf N sq \<longleftrightarrow> 2 \<le> N \<and> N \<le> 65536 \<and> unat (q_qs sq) = N \<and> unat (q_head sq) < N \<and> unat (q_tail sq) < N"

definition queue_ex :: "u32 \<Rightarrow> u32 \<Rightarrow> u32 \<Rightarrow> nvm_queue" where
  "queue_ex qs head tail = \<lparr>q_head_lock = 0, q_tail_lock = 0, q_head = head, q_tail = tail, q_in_ticket = 0,
     q_cid_ticket = 0, q_tickets = [], q_head_mark = [], q_tail_mark = [], q_cid = [], q_pos_locks = [],
     q_qs_minus_1 = qs - 1, q_qs_log2 = 0, q_no = 1, q_es = 64, q_qs = qs, q_phase = True, q_local = False, q_last = 0,
     q_db = 0x1008, q_db_val = 0, q_ring = replicate (unat qs) (replicate 4 0), q_ioaddr = 0\<rparr>"

lemma unat_cut_diff:
  fixes t h :: u32
  shows "unat (ucast (ucast (t - h) :: u16) :: u32) = (unat t + 2 ^ 32 - unat h) mod 65536"
proof -
  have "unat (ucast (ucast (t - h) :: u16) :: u32) = unat (t - h) mod 65536"
    by (simp add: unsigned_ucast_eq take_bit_eq_mod unat_mod)
  also have "unat (t - h) = (unat t + 2 ^ 32 - unat h) mod 2 ^ 32"
    using unsigned_less [of t, where 'a = nat] unsigned_less [of h, where 'a = nat]
    by (auto simp: unat_sub_if_size word_size word_le_nat_alt mod_if)
  also have "\<dots> mod 65536 = (unat t + 2 ^ 32 - unat h) mod 65536"
    by (rule mod_mod_cancel) simp
  finally show ?thesis .
qed

lemma nvm_sq_full_nat:
  assumes "sq_wf N sq"
  shows "nvm_sq_full sq \<longleftrightarrow> (unat (q_tail sq) + 65536 - unat (q_head sq)) mod 65536 mod N = N - 1"
proof -
  have "(unat (q_tail sq) + 2 ^ 32 - unat (q_head sq)) mod 65536
      = ((unat (q_tail sq) + 65536 - unat (q_head sq)) + 65535 * 65536) mod 65536"
    using assms by (intro arg_cong2 [of _ _ _ _ "(mod)"]) (auto simp: sq_wf_def)
  then have c: "unat (ucast (ucast (q_tail sq - q_head sq) :: u16) :: u32) = (unat (q_tail sq) + 65536 - unat (q_head sq)) mod 65536"
    by (simp only: unat_cut_diff mod_mult_self1)
  have "unat (q_qs sq - 1) = N - 1"
    using assms by (simp add: sq_wf_def unat_sub word_le_nat_alt)
  then show ?thesis
    using assms c by (simp add: nvm_sq_full_def sq_wf_def word_unat_eq_iff unat_mod)
qed

lemma sq_full_pow2:
  assumes "sq_wf N sq" "N dvd 65536"
  shows "nvm_sq_full sq \<longleftrightarrow> sq_used sq = N - 1"
proof -
  obtain k where k: "65536 = N * k" using assms(2) by (elim dvdE)
  have n: "N \<le> 65536" "unat (q_head sq) < N" "unat (q_qs sq) = N" using assms(1) by (auto simp: sq_wf_def)
  have "k \<ge> 1" using k by (cases k) auto
  then have "unat (q_tail sq) + 65536 - unat (q_head sq) = unat (q_tail sq) + N - unat (q_head sq) + (k - 1) * N"
    using k n by (cases k) (auto simp: algebra_simps)
  then have "(unat (q_tail sq) + 65536 - unat (q_head sq)) mod N = sq_used sq"
    by (simp only: sq_used_def n(3) mod_mult_self1)
  then show ?thesis using assms by (simp add: nvm_sq_full_nat mod_mod_cancel)
qed

lemma sq_full_missed:
  assumes "2 \<le> N" "N \<le> 65536" "\<not> N dvd 65536"
  shows "sq_wf N (queue_ex (of_nat N) 1 0)" "sq_used (queue_ex (of_nat N) 1 0) = N - 1" "\<not> nvm_sq_full (queue_ex (of_nat N) 1 0)"
proof -
  have u: "unat (of_nat N :: u32) = N" using assms(2) by (simp add: unat_of_nat)
  show w: "sq_wf N (queue_ex (of_nat N) 1 0)" using assms u by (simp add: sq_wf_def queue_ex_def)
  show "sq_used (queue_ex (of_nat N) 1 0) = N - 1" using assms u by (simp add: sq_used_def queue_ex_def)
  have "(65535 :: nat) mod N \<noteq> N - 1"
  proof
    assume a: "(65535 :: nat) mod N = N - 1"
    have "(65536 :: nat) = 65535 + 1" by simp
    also have "(65535 + 1) mod N = (65535 mod N + 1) mod N" by (rule mod_add_left_eq [symmetric])
    finally have "(65536 :: nat) mod N = 0" using a assms(1) by simp
    then show False using assms(3) by (simp add: dvd_eq_mod_eq_0)
  qed
  then show "\<not> nvm_sq_full (queue_ex (of_nat N) 1 0)"
    using w by (simp add: nvm_sq_full_nat queue_ex_def)
qed

text \<open>C16. The test \<open>nvm_sq_enqueue\<close> makes for a full submission queue, which cuts the difference of the indices to 16
  bits before taking it modulo the queue size, agrees with the number of entries between head and tail for every
  position of the indices exactly when the queue size divides 65536. For every other size that \<open>nvm_queue_clear\<close>
  accepts there is a full ring in which the slot of an unconsumed command is handed out.\<close>

theorem nvm_sq_full_exact_iff:
  assumes "2 \<le> N" "N \<le> 65536"
  shows "(\<forall>sq. sq_wf N sq \<longrightarrow> nvm_sq_full sq = (sq_used sq = N - 1)) = (N dvd 65536) \<and>
    (\<not> N dvd 65536 \<longrightarrow> (\<exists>sq. sq_wf N sq \<and> sq_used sq = N - 1 \<and> fst (nvm_sq_enqueue sq) \<noteq> None))"
proof (intro conjI impI)
  show "(\<forall>sq. sq_wf N sq \<longrightarrow> nvm_sq_full sq = (sq_used sq = N - 1)) = (N dvd 65536)"
    using sq_full_pow2 [of N] sq_full_missed [OF assms] by blast
  assume "\<not> N dvd 65536"
  then show "\<exists>sq. sq_wf N sq \<and> sq_used sq = N - 1 \<and> fst (nvm_sq_enqueue sq) \<noteq> None"
    using sq_full_missed [OF assms] by (intro exI [of _ "queue_ex (of_nat N) 1 0"]) (simp add: nvm_sq_enqueue_def Let_def)
qed

theorem nvm_sq_full_exact_iff_witness:
  "nvm_sq_full (queue_ex 1024 3 2) = (sq_used (queue_ex 1024 3 2) = 1023) \<and>
   (\<exists>sq. sq_wf 1000 sq \<and> sq_used sq = 999 \<and> fst (nvm_sq_enqueue sq) \<noteq> None)"
proof -
  have "sq_wf 1024 (queue_ex 1024 3 2)" by (simp add: sq_wf_def queue_ex_def)
  then show ?thesis using nvm_sq_full_exact_iff [of 1024] nvm_sq_full_exact_iff [of 1000] by simp
qed

subsection \<open>Reading completions\<close>

text \<open>The memory of a completion ring of \<open>N\<close> entries, cleared at first, after the controller has posted the completions
  \<open>posted\<close>: the \<open>j\<close>-th one goes to slot \<open>j mod N\<close>.\<close>

definition cq_slot :: "nat \<Rightarrow> entry list \<Rightarrow> nat \<Rightarrow> entry" where
  "cq_slot N posted p =
     (let js = filter (\<lambda>j. j mod N = p) [0..<length posted] in if js = [] then replicate 4 0 else posted ! last js)"

definition cq_memory :: "nat \<Rightarrow> entry list \<Rightarrow> entry list" where
  "cq_memory N posted = map (cq_slot N posted) [0..<N]"

text \<open>What NVMe prescribes for the phase tag: it is set in the first pass over the ring and changes with every pass.\<close>

definition phases_ok :: "nat \<Rightarrow> entry list \<Rightarrow> bool" where
  "phases_ok N posted \<longleftrightarrow> (\<forall>j<length posted. cpl_phase (posted ! j) = even (j div N))"

text \<open>The descriptor of a completion queue from which \<open>c\<close> completions have been read.\<close>

definition cq_at :: "nat \<Rightarrow> nat \<Rightarrow> nvm_queue \<Rightarrow> bool" where
  "cq_at N c cq \<longleftrightarrow> 2 \<le> N \<and> N \<le> 65536 \<and> unat (q_qs cq) = N \<and> unat (q_head cq) = c mod N \<and> q_phase cq = even (c div N)"

lemma last_filter_upt:
  assumes "P j" "j < n" "\<And>i. j < i \<Longrightarrow> i < n \<Longrightarrow> \<not> P i"
  shows "filter P [0..<n] \<noteq> [] \<and> last (filter P [0..<n]) = j"
proof -
  have "[0..<n] = [0..<j] @ j # [Suc j..<n]"
    using assms(2) upt_add_eq_append [of 0 j "n - j"] by (simp add: upt_conv_Cons)
  moreover have "filter P [Suc j..<n] = []" using assms(3) by (auto simp: filter_empty_conv)
  ultimately show ?thesis using assms(1) by simp
qed

lemma same_slot_far:
  assumes "j < i" "i mod N = j mod (N :: nat)"
  shows "j + N \<le> i"
proof -
  obtain k where k: "i - j = N * k" using assms by (metis dvdE less_imp_le mod_eq_dvd_iff_nat)
  with assms(1) have "k \<noteq> 0" by (intro notI) simp
  then have "N \<le> N * k" by simp
  then show ?thesis using k assms(1) by linarith
qed

lemma cq_slot_posted:
  assumes "j < length posted" "length posted \<le> j + N"
  shows "cq_slot N posted (j mod N) = posted ! j"
  using last_filter_upt [of "\<lambda>i. i mod N = j mod N" j "length posted"] assms same_slot_far [of j _ N]
  by (force simp: cq_slot_def Let_def)

lemma cq_slot_free:
  assumes "phases_ok N posted" "2 \<le> N"
  shows "cpl_phase (cq_slot N posted (length posted mod N)) \<noteq> even (length posted div N)"
proof (cases "length posted < N")
  case True
  then have "filter (\<lambda>j. j mod N = length posted mod N) [0..<length posted] = []" by (auto simp: filter_empty_conv)
  then show ?thesis using True by (simp add: cq_slot_def cpl_phase_def NVM_CPL_STATUS_def numeral_3_eq_3)
next
  case False
  let ?j = "length posted - N"
  have "cq_slot N posted (?j mod N) = posted ! ?j" using False assms(2) by (intro cq_slot_posted) auto
  moreover have "?j mod N = length posted mod N" using False by (simp add: le_mod_geq [symmetric])
  moreover have "even (?j div N) \<noteq> even (length posted div N)" using False assms(2) by (simp add: le_div_geq)
  moreover have "?j < length posted" using False assms(2) by linarith
  ultimately show ?thesis using assms(1) by (auto simp: phases_ok_def)
qed

lemma nvm_cq_dequeue_refines:
  assumes q: "cq_at N c cq" and m: "q_ring cq = cq_memory N posted" and p: "phases_ok N posted"
    and c: "c \<le> length posted" "length posted < c + N"
  shows "c = length posted \<Longrightarrow> nvm_cq_dequeue cq = (None, cq)"
    and "c < length posted \<Longrightarrow> \<exists>cq'. nvm_cq_dequeue cq = (Some (c mod N), cq') \<and> cq_at N (Suc c) cq' \<and>
           q_ring cq' = q_ring cq \<and> q_ring cq ! (c mod N) = posted ! c"
proof -
  have n: "2 \<le> N" "N \<le> 65536" using q by (auto simp: cq_at_def)
  have r: "q_ring cq ! (c mod N) = cq_slot N posted (c mod N)" using m n by (simp add: cq_memory_def)
  show "nvm_cq_dequeue cq = (None, cq)" if "c = length posted"
    using that cq_slot_free [OF p n(1)] r q by (simp add: nvm_cq_dequeue_def nvm_cq_poll_def cq_at_def)
  assume l: "c < length posted"
  have e: "q_ring cq ! (c mod N) = posted ! c" using r cq_slot_posted [OF l, of N] c(2) by simp
  then have d: "nvm_cq_poll cq = Some (c mod N)" using p l q by (simp add: nvm_cq_poll_def cq_at_def phases_ok_def Let_def)
  have h: "unat (q_head cq + 1) = c mod N + 1"
    using q n less_le_trans [OF mod_less_divisor [of N c] n(2)] by (subst unat_plus_no_wrap) (simp_all add: cq_at_def)
  then have w: "q_head cq + 1 = q_qs cq \<longleftrightarrow> Suc (c mod N) = N" using q by (simp add: word_unat_eq_iff cq_at_def)
  show "\<exists>cq'. nvm_cq_dequeue cq = (Some (c mod N), cq') \<and> cq_at N (Suc c) cq' \<and>
          q_ring cq' = q_ring cq \<and> q_ring cq ! (c mod N) = posted ! c"
    using d h w q e n by (auto simp: nvm_cq_dequeue_def cq_at_def mod_Suc div_Suc Let_def)
qed

text \<open>The blocking poll sleeps a millisecond between two polls, so a timeout of \<open>t\<close> milliseconds allows \<open>t\<close> more polls
  after the first one.\<close>

lemma delay_millis:
  assumes "unat nsecs = Suc t * 1000000"
  shows "unat (nvm_delay_remain nsecs) = t * 1000000" "0 < nsecs"
proof -
  have "(1000000 :: u64) \<le> nsecs" using assms by (simp add: word_le_nat_alt)
  then show "unat (nvm_delay_remain nsecs) = t * 1000000" "0 < nsecs"
    using assms by (auto simp: nvm_delay_remain_def min_def unat_sub word_less_nat_alt)
qed

lemma cq_at_ring [simp]: "cq_at N c (cq\<lparr>q_ring := r\<rparr>) = cq_at N c cq"
  by (simp add: cq_at_def)

definition polls_ok :: "nat \<Rightarrow> nat \<Rightarrow> (nat \<Rightarrow> entry list) \<Rightarrow> (nat \<Rightarrow> entry list) \<Rightarrow> nat \<Rightarrow> bool" where
  "polls_ok N c mem posted i \<longleftrightarrow> mem i = cq_memory N (posted i) \<and> phases_ok N (posted i) \<and>
     c \<le> length (posted i) \<and> length (posted i) < c + N"

lemma poll_once:
  assumes "cq_at N c cq" "polls_ok N c mem posted k"
  shows "length (posted k) = c \<Longrightarrow> nvm_cq_dequeue (cq\<lparr>q_ring := mem k\<rparr>) = (None, cq\<lparr>q_ring := mem k\<rparr>)"
    and "c < length (posted k) \<Longrightarrow> \<exists>cq'. nvm_cq_dequeue (cq\<lparr>q_ring := mem k\<rparr>) = (Some (c mod N), cq') \<and>
           cq_at N (Suc c) cq' \<and> mem k ! (c mod N) = posted k ! c"
proof -
  have p: "cq_at N c (cq\<lparr>q_ring := mem k\<rparr>)" "q_ring (cq\<lparr>q_ring := mem k\<rparr>) = cq_memory N (posted k)"
    "phases_ok N (posted k)" "c \<le> length (posted k)" "length (posted k) < c + N"
    using assms by (simp_all add: polls_ok_def)
  note r = nvm_cq_dequeue_refines [OF p]
  show "nvm_cq_dequeue (cq\<lparr>q_ring := mem k\<rparr>) = (None, cq\<lparr>q_ring := mem k\<rparr>)" if "length (posted k) = c"
    by (rule r(1)) (simp add: that)
  show "\<exists>cq'. nvm_cq_dequeue (cq\<lparr>q_ring := mem k\<rparr>) = (Some (c mod N), cq') \<and> cq_at N (Suc c) cq' \<and>
      mem k ! (c mod N) = posted k ! c" if "c < length (posted k)"
    using r(2) [OF that] by auto
qed

lemma dequeue_wait_refines:
  assumes "unat nsecs = t * 1000000" "cq_at N c cq" "\<forall>i\<in>{k..k + t}. polls_ok N c mem posted i"
  shows "((\<forall>i\<in>{k..k + t}. length (posted i) = c) \<longrightarrow>
        (\<exists>cq'. dequeue_wait mem nsecs k cq = (None, Suc (k + t), cq') \<and> cq_at N c cq')) \<and>
    (\<forall>j\<in>{k..k + t}. c < length (posted j) \<and> (\<forall>i\<in>{k..<j}. length (posted i) = c) \<longrightarrow>
        (\<exists>cq'. dequeue_wait mem nsecs k cq = (Some (c mod N), Suc j, cq') \<and> cq_at N (Suc c) cq' \<and> mem j ! (c mod N) = posted j ! c))"
  using assms
proof (induction t arbitrary: nsecs k cq)
  case 0
  have z: "nsecs = 0" using "0.prems"(1) by (simp add: unat_eq_0)
  have k: "polls_ok N c mem posted k" using "0.prems"(3) by simp
  note d = poll_once [OF "0.prems"(2) k]
  show ?case using d z "0.prems"(2) by (auto simp: dequeue_wait.simps [of mem nsecs])
next
  case (Suc t)
  note n = delay_millis [OF Suc.prems(1)]
  have k: "polls_ok N c mem posted k" using Suc.prems(3) by simp
  note d = poll_once [OF Suc.prems(2) k]
  have now: "\<exists>cq'. dequeue_wait mem nsecs k cq = (Some (c mod N), Suc k, cq') \<and> cq_at N (Suc c) cq' \<and> mem k ! (c mod N) = posted k ! c"
    if "c < length (posted k)" using d(2) [OF that] by (auto simp: dequeue_wait.simps [of mem nsecs])
  have later: "dequeue_wait mem nsecs k cq = dequeue_wait mem (nvm_delay_remain nsecs) (Suc k) (cq\<lparr>q_ring := mem k\<rparr>)"
    if "length (posted k) = c" using d(1) [OF that] n(2) by (subst dequeue_wait.simps) simp
  have IH: "((\<forall>i\<in>{Suc k..k + Suc t}. length (posted i) = c) \<longrightarrow>
        (\<exists>cq'. dequeue_wait mem (nvm_delay_remain nsecs) (Suc k) (cq\<lparr>q_ring := mem k\<rparr>) = (None, Suc (k + Suc t), cq') \<and> cq_at N c cq')) \<and>
    (\<forall>j\<in>{Suc k..k + Suc t}. c < length (posted j) \<and> (\<forall>i\<in>{Suc k..<j}. length (posted i) = c) \<longrightarrow>
        (\<exists>cq'. dequeue_wait mem (nvm_delay_remain nsecs) (Suc k) (cq\<lparr>q_ring := mem k\<rparr>) = (Some (c mod N), Suc j, cq') \<and>
          cq_at N (Suc c) cq' \<and> mem j ! (c mod N) = posted j ! c))"
    using Suc.IH [of "nvm_delay_remain nsecs" "cq\<lparr>q_ring := mem k\<rparr>" "Suc k"] n(1) Suc.prems(2,3) by simp
  show ?case
  proof (intro conjI impI ballI)
    assume "\<forall>i\<in>{k..k + Suc t}. length (posted i) = c"
    then show "\<exists>cq'. dequeue_wait mem nsecs k cq = (None, Suc (k + Suc t), cq') \<and> cq_at N c cq'"
      using later conjunct1 [OF IH] by simp
  next
    fix j
    assume j: "j \<in> {k..k + Suc t}" "c < length (posted j) \<and> (\<forall>i\<in>{k..<j}. length (posted i) = c)"
    show "\<exists>cq'. dequeue_wait mem nsecs k cq = (Some (c mod N), Suc j, cq') \<and> cq_at N (Suc c) cq' \<and> mem j ! (c mod N) = posted j ! c"
    proof (cases "j = k")
      case True then show ?thesis using now j(2) by simp
    next
      case False
      then have "length (posted k) = c" "j \<in> {Suc k..k + Suc t}" using j by auto
      then show ?thesis using later conjunct2 [OF IH, rule_format, of j] j(2) by simp
    qed
  qed
qed

text \<open>C15. The blocking poll of a completion queue makes at most one poll more than its timeout has milliseconds and then
  gives up, and if a poll before that finds a new completion it returns the oldest one not yet read and the queue
  afterwards expects the one after it. So long as the controller follows the phase-tag rule and never overwrites
  unread entries, successive calls return its completions exactly once and in order.\<close>

theorem nvm_cq_dequeue_block_in_order:
  assumes "unat timeout * 1000000 < 2 ^ 64" "cq_at N c cq" "\<forall>i\<le>unat timeout. polls_ok N c mem posted i"
  shows "((\<forall>i\<le>unat timeout. length (posted i) = c) \<longrightarrow>
        (\<exists>cq'. nvm_cq_dequeue_block mem timeout cq = (None, Suc (unat timeout), cq') \<and> cq_at N c cq')) \<and>
    (\<forall>j\<le>unat timeout. c < length (posted j) \<and> (\<forall>i<j. length (posted i) = c) \<longrightarrow>
        (\<exists>cq'. nvm_cq_dequeue_block mem timeout cq = (Some (c mod N), Suc j, cq') \<and> cq_at N (Suc c) cq' \<and>
           mem j ! (c mod N) = posted j ! c))"
proof -
  have "unat (timeout * 1000000) = unat timeout * 1000000" using assms(1) by (subst unat_mult_no_wrap) simp_all
  then show ?thesis
    using dequeue_wait_refines [of "timeout * 1000000" "unat timeout" N c cq 0 mem posted] assms(2,3)
    by (simp add: nvm_cq_dequeue_block_def atLeast0AtMost atLeast0LessThan Ball_def)
qed

definition posted_run :: "nat \<Rightarrow> entry list" where
  "posted_run i = (if i < 2 then [[0, 0, 0, 0x10000]] else [[0, 0, 0, 0x10000], [0, 0, 1, 0x10007]])"

theorem nvm_cq_dequeue_block_in_order_witness:
  "\<exists>cq'. nvm_cq_dequeue_block (\<lambda>i. cq_memory 4 (posted_run i)) 5 (queue_ex 4 1 0) = (Some 1, 3, cq') \<and> cq_at 4 (Suc 1) cq' \<and>
     cq_memory 4 (posted_run 2) ! 1 = [0, 0, 1, 0x10007]"
proof -
  let ?mem = "\<lambda>i. cq_memory 4 (posted_run i)"
  have ph: "cpl_phase [0, 0, 0, 0x10000]" "cpl_phase [0, 0, 1, 0x10007]" by (simp_all add: cpl_phase_def NVM_CPL_STATUS_def)
  have l: "length (posted_run i) = (if i < 2 then 1 else 2)" for i by (simp add: posted_run_def)
  have p: "phases_ok 4 (posted_run i)" for i using ph by (auto simp: posted_run_def phases_ok_def less_Suc_eq)
  have p: "\<forall>i\<le>unat (5 :: u64). polls_ok 4 1 ?mem posted_run i" using p l by (simp add: polls_ok_def)
  have c: "cq_at 4 1 (queue_ex 4 1 0)" by (simp add: cq_at_def queue_ex_def)
  have "\<exists>cq'. nvm_cq_dequeue_block ?mem 5 (queue_ex 4 1 0) = (Some (1 mod 4), Suc 2, cq') \<and> cq_at 4 (Suc 1) cq' \<and>
      ?mem 2 ! (1 mod 4) = posted_run 2 ! 1"
    by (rule nvm_cq_dequeue_block_in_order [OF _ c p, THEN conjunct2, rule_format]) (simp_all add: l)
  then show ?thesis by (simp add: posted_run_def [of 2])
qed

end
