(* ===== verification/Nvm_Parallel_Queue.thy ===== *)
theory Nvm_Parallel_Queue
  imports Nvm_Queue
begin

text \<open>
  The queues GPU threads share (\<open>nvm_parallel_queue.h\<close>): any number of threads enqueue commands into one submission
  queue and retire completions from one completion queue, with atomic memory operations only. Every thread is a
  program counter with its local variables; a step of \<open>sq_enqueue\<close> (with \<open>move_tail\<close>) or of \<open>cq_poll\<close> and
  \<open>cq_dequeue\<close> (with \<open>move_head_cq\<close>) is one atomic access to the shared descriptor, so a run of the system is an
  interleaving of such steps with those of the controller. The memory is sequentially consistent in this model; the
  weaker orders the code asks for are not distinguished. The optional arguments \<open>pc_tail\<close>, \<open>loc_\<close> and \<open>cur_head_\<close>
  have their default values, which all callers use.
\<close>

unbundle bit_operations_syntax

abbreviation LOCKED :: u32 where "LOCKED \<equiv> 1"
abbreviation UNLOCKED :: u32 where "UNLOCKED \<equiv> 0"

definition get_id :: "u64 \<Rightarrow> u64 \<Rightarrow> u64" where
  "get_id x y = drop_bit (unat y) x * 2"

subsection \<open>Command identifiers\<close>

text \<open>\<open>get_cid\<close> seen alone: it loops until it finds an identifier that is not locked, for ever if there is none.\<close>

partial_function (option) get_cid :: "nvm_queue \<Rightarrow> (u16 \<times> nvm_queue) option" where
  "get_cid sq =
     (let ticket = q_cid_ticket sq AND 65535; sq1 = sq\<lparr>q_cid_ticket := q_cid_ticket sq + 1\<rparr>;
          old = q_cid sq1 ! unat ticket;
          sq2 = sq1\<lparr>q_cid := (q_cid sq1)[unat ticket := old OR LOCKED]\<rparr>
      in if old = LOCKED then get_cid sq2 else Some (ucast ticket, sq2))"

definition put_cid :: "nvm_queue \<Rightarrow> u16 \<Rightarrow> nvm_queue" where
  "put_cid sq cid = sq\<lparr>q_cid := (q_cid sq)[unat cid := UNLOCKED]\<rparr>"

subsection \<open>Enqueueing\<close>

text \<open>The points between the atomic accesses of \<open>sq_enqueue\<close>: taking a ticket, the two waits for the turn of the slot,
  the copy of the command in two halves, marking the slot, the loop that tries to become the one who moves the tail,
  \<open>move_tail\<close> (\<open>MT_\<close>), the doorbell, and the last increment of the slot's turn.\<close>

datatype enq_pc =
  E_ticket | E_wait | E_wait_acquire | E_copy nat | E_mark | E_check | E_peek_lock | E_lock | E_tail
| MT_full | MT_take | MT_end | E_doorbell | E_set_tail | E_unlock | E_turn | E_return

record enq =
  e_pc :: enq_pc
  e_cmd :: entry
  e_pos :: u32
  e_id :: u64
  e_cur_tail :: u32
  e_count :: u32

definition copy_half :: "nat \<Rightarrow> entry \<Rightarrow> entry \<Rightarrow> entry" where
  "copy_half i cmd slot = take (8 * i) slot @ take 8 (drop (8 * i) cmd) @ drop (8 * i + 8) slot"

definition move_tail :: "enq \<Rightarrow> nvm_queue \<Rightarrow> enq \<times> nvm_queue" where
  "move_tail e sq = (case e_pc e of
     MT_full \<Rightarrow>
       (if (e_cur_tail e + e_count e + 1) AND q_qs_minus_1 sq \<noteq> q_head sq AND q_qs_minus_1 sq
        then e\<lparr>e_pc := MT_take\<rparr> else e\<lparr>e_pc := MT_end\<rparr>, sq)
   | MT_take \<Rightarrow>
       (let loc = unat ((e_cur_tail e + e_count e) AND q_qs_minus_1 sq) in
        (if q_tail_mark sq ! loc = LOCKED then e\<lparr>e_pc := MT_full, e_count := e_count e + 1\<rparr> else e\<lparr>e_pc := MT_end\<rparr>,
         sq\<lparr>q_tail_mark := (q_tail_mark sq)[loc := UNLOCKED]\<rparr>))
   | _ \<Rightarrow>
       (if e_count e \<noteq> 0 then e\<lparr>e_pc := E_doorbell\<rparr> else e\<lparr>e_pc := E_unlock\<rparr>,
        sq\<lparr>q_head_lock := q_head_lock sq + 1\<rparr>))"

declare move_tail_def [simp]

definition enq_step :: "enq \<Rightarrow> nvm_queue \<Rightarrow> enq \<times> nvm_queue" where
  "enq_step e sq = (case e_pc e of
     E_ticket \<Rightarrow>
       (e\<lparr>e_pc := E_wait, e_pos := q_in_ticket sq AND q_qs_minus_1 sq,
          e_id := get_id (ucast (q_in_ticket sq)) (ucast (q_qs_log2 sq))\<rparr>,
        sq\<lparr>q_in_ticket := q_in_ticket sq + 1\<rparr>)
   | E_wait \<Rightarrow>
       (if ucast (q_tickets sq ! unat (e_pos e)) \<noteq> e_id e then e else e\<lparr>e_pc := E_wait_acquire\<rparr>, sq)
   | E_wait_acquire \<Rightarrow>
       (if ucast (q_tickets sq ! unat (e_pos e)) \<noteq> e_id e then e else e\<lparr>e_pc := E_copy 0\<rparr>, sq)
   | E_copy i \<Rightarrow>
       (if i < 2
        then (e\<lparr>e_pc := E_copy (Suc i)\<rparr>,
              sq\<lparr>q_ring := (q_ring sq)[unat (e_pos e) := copy_half i (e_cmd e) (q_ring sq ! unat (e_pos e))]\<rparr>)
        else (e\<lparr>e_pc := E_mark\<rparr>, sq))
   | E_mark \<Rightarrow> (e\<lparr>e_pc := E_check\<rparr>, sq\<lparr>q_tail_mark := (q_tail_mark sq)[unat (e_pos e) := LOCKED]\<rparr>)
   | E_check \<Rightarrow> (if q_tail_mark sq ! unat (e_pos e) = LOCKED then e\<lparr>e_pc := E_peek_lock\<rparr> else e\<lparr>e_pc := E_turn\<rparr>, sq)
   | E_peek_lock \<Rightarrow> (if q_tail_lock sq = LOCKED then e\<lparr>e_pc := E_check\<rparr> else e\<lparr>e_pc := E_lock\<rparr>, sq)
   | E_lock \<Rightarrow>
       (if q_tail_lock sq = LOCKED then e\<lparr>e_pc := E_check\<rparr> else e\<lparr>e_pc := E_tail\<rparr>,
        sq\<lparr>q_tail_lock := q_tail_lock sq OR LOCKED\<rparr>)
   | E_tail \<Rightarrow> (e\<lparr>e_pc := MT_full, e_cur_tail := q_tail sq, e_count := 0\<rparr>, sq)
   | MT_full \<Rightarrow> move_tail e sq
   | MT_take \<Rightarrow> move_tail e sq
   | MT_end \<Rightarrow> move_tail e sq
   | E_doorbell \<Rightarrow>
       (e\<lparr>e_pc := E_set_tail\<rparr>, sq\<lparr>q_db_val := (e_cur_tail e + e_count e) AND q_qs_minus_1 sq\<rparr>)
   | E_set_tail \<Rightarrow> (e\<lparr>e_pc := E_unlock\<rparr>, sq\<lparr>q_tail := e_cur_tail e + e_count e\<rparr>)
   | E_unlock \<Rightarrow> (e\<lparr>e_pc := E_check\<rparr>, sq\<lparr>q_tail_lock := UNLOCKED\<rparr>)
   | E_turn \<Rightarrow>
       (e\<lparr>e_pc := E_return\<rparr>,
        sq\<lparr>q_tickets := (q_tickets sq)[unat (e_pos e) := q_tickets sq ! unat (e_pos e) + 1]\<rparr>)
   | E_return \<Rightarrow> (e, sq))"

subsection \<open>Completing\<close>

text \<open>The same for \<open>cq_poll\<close> (\<open>P_\<close>), \<open>cq_dequeue\<close> (\<open>D_\<close>) and \<open>move_head_cq\<close> (\<open>MH_\<close>). \<open>P_assert\<close> is the failed assertion
  on a completion with an error status. With the default arguments the last loop of \<open>cq_dequeue\<close> waits until the
  head of the completion queue is not 0.\<close>

datatype deq_pc =
  P_head | P_entry | P_assert | D_tail | D_wait | D_pos_lock | D_mark | D_check | D_lock | D_head
| MH_take | MH_cqe | MH_sq_head | MH_turn | MH_set_head | D_doorbell | D_set_head | D_unlock | D_passed | D_release | D_return

record deq =
  d_pc :: deq_pc
  d_cid :: u16
  d_head :: u32
  d_i :: u64
  d_pos :: u16
  d_cur_head :: u32
  d_count :: u32
  d_new_sq_head :: u16
  d_loc :: u32
  d_sq_move_count :: u32

definition head_passed :: "u32 \<Rightarrow> u32 \<Rightarrow> u32 \<Rightarrow> bool" where
  "head_passed loc0 cur_head0 new_head \<longleftrightarrow>
     (new_head > cur_head0 \<and> loc0 \<ge> cur_head0 \<and> loc0 < new_head) \<or>
     (new_head < cur_head0 \<and> (loc0 \<ge> cur_head0 \<or> loc0 < new_head))"

definition poll_entry :: "deq \<Rightarrow> nvm_queue \<Rightarrow> deq" where
  "poll_entry d cq =
     (if \<not> d_i d < ucast (q_qs_minus_1 cq) then d\<lparr>d_pc := P_head\<rparr>
      else
        let cur_head = ucast (ucast (d_head d) + d_i d) :: u32;
            search_phase = (NOT (drop_bit (unat (q_qs_log2 cq)) cur_head) AND 1 \<noteq> 0);
            loc = cur_head AND q_qs_minus_1 cq;
            cpl_entry = q_ring cq ! unat loc ! 3;
            cid = cpl_entry AND 0xffff; phase = (cpl_entry AND 0x10000 \<noteq> 0)
        in if cid = ucast (d_cid d) \<and> phase = search_phase
           then (if drop_bit 17 cpl_entry \<noteq> 0 then d\<lparr>d_pc := P_assert\<rparr> else d\<lparr>d_pc := D_tail, d_pos := ucast loc\<rparr>)
           else if phase \<noteq> search_phase then d\<lparr>d_pc := P_head\<rparr>
           else d\<lparr>d_i := d_i d + 1\<rparr>)"

definition move_head_cq :: "deq \<Rightarrow> nvm_queue \<Rightarrow> nvm_queue \<Rightarrow> deq \<times> nvm_queue \<times> nvm_queue" where
  "move_head_cq d cq sq = (case d_pc d of
     MH_take \<Rightarrow>
       (let loc = unat ((d_cur_head d + d_count d) AND q_qs_minus_1 cq) in
        (if q_head_mark cq ! loc = LOCKED then d\<lparr>d_count := d_count d + 1\<rparr>
         else if d_count d \<noteq> 0 then d\<lparr>d_pc := MH_cqe\<rparr> else d\<lparr>d_pc := D_unlock\<rparr>,
         cq\<lparr>q_head_mark := (q_head_mark cq)[loc := UNLOCKED]\<rparr>, sq))
   | MH_cqe \<Rightarrow>
       (let loc = unat ((d_cur_head d + (d_count d - 1)) AND q_qs_minus_1 cq) in
        (d\<lparr>d_pc := MH_sq_head, d_new_sq_head := ucast (q_ring cq ! loc ! 2)\<rparr>, cq, sq))
   | MH_sq_head \<Rightarrow> (d\<lparr>d_pc := MH_turn, d_loc := q_head sq AND q_qs_minus_1 sq, d_sq_move_count := 0\<rparr>, cq, sq)
   | MH_turn \<Rightarrow>
       (if d_loc d \<noteq> ucast (d_new_sq_head d)
        then (d\<lparr>d_sq_move_count := d_sq_move_count d + 1, d_loc := (d_loc d + 1) AND q_qs_minus_1 sq\<rparr>, cq,
              sq\<lparr>q_tickets := (q_tickets sq)[unat (d_loc d) := q_tickets sq ! unat (d_loc d) + 1]\<rparr>)
        else (if d_sq_move_count d \<noteq> 0 then d\<lparr>d_pc := MH_set_head\<rparr> else d\<lparr>d_pc := D_doorbell\<rparr>, cq, sq))
   | _ \<Rightarrow> (d\<lparr>d_pc := D_doorbell\<rparr>, cq, sq\<lparr>q_head := q_head sq + d_sq_move_count d\<rparr>))"

declare move_head_cq_def [simp]

definition deq_step :: "deq \<Rightarrow> nvm_queue \<Rightarrow> nvm_queue \<Rightarrow> deq \<times> nvm_queue \<times> nvm_queue" where
  "deq_step d cq sq = (case d_pc d of
     P_head \<Rightarrow> (d\<lparr>d_pc := P_entry, d_head := q_head cq, d_i := 0\<rparr>, cq, sq)
   | P_entry \<Rightarrow> (poll_entry d cq, cq, sq)
   | P_assert \<Rightarrow> (d, cq, sq)
   | D_tail \<Rightarrow> (d\<lparr>d_pc := D_wait\<rparr>, cq\<lparr>q_tail := q_tail cq + 1\<rparr>, sq)
   | D_wait \<Rightarrow> (if q_pos_locks cq ! unat (d_pos d) \<noteq> 0 then d else d\<lparr>d_pc := D_pos_lock\<rparr>, cq, sq)
   | D_pos_lock \<Rightarrow>
       (if q_pos_locks cq ! unat (d_pos d) \<noteq> 0 then d else d\<lparr>d_pc := D_mark\<rparr>,
        cq\<lparr>q_pos_locks := (q_pos_locks cq)[unat (d_pos d) := q_pos_locks cq ! unat (d_pos d) OR 1]\<rparr>, sq)
   | D_mark \<Rightarrow> (d\<lparr>d_pc := D_check\<rparr>, cq\<lparr>q_head_mark := (q_head_mark cq)[unat (d_pos d) := LOCKED]\<rparr>, sq)
   | D_check \<Rightarrow> (if q_head_mark cq ! unat (d_pos d) = LOCKED then d\<lparr>d_pc := D_lock\<rparr> else d\<lparr>d_pc := D_passed\<rparr>, cq, sq)
   | D_lock \<Rightarrow>
       (if q_head_lock cq = LOCKED then d\<lparr>d_pc := D_check\<rparr> else d\<lparr>d_pc := D_head\<rparr>,
        cq\<lparr>q_head_lock := q_head_lock cq OR LOCKED\<rparr>, sq)
   | D_head \<Rightarrow> (d\<lparr>d_pc := MH_take, d_cur_head := q_head cq, d_count := 0\<rparr>, cq, sq)
   | MH_take \<Rightarrow> move_head_cq d cq sq
   | MH_cqe \<Rightarrow> move_head_cq d cq sq
   | MH_sq_head \<Rightarrow> move_head_cq d cq sq
   | MH_turn \<Rightarrow> move_head_cq d cq sq
   | MH_set_head \<Rightarrow> move_head_cq d cq sq
   | D_doorbell \<Rightarrow>
       (d\<lparr>d_pc := D_set_head\<rparr>, cq\<lparr>q_db_val := (d_cur_head d + d_count d) AND q_qs_minus_1 cq\<rparr>, sq)
   | D_set_head \<Rightarrow> (d\<lparr>d_pc := D_unlock\<rparr>, cq\<lparr>q_head := d_cur_head d + d_count d\<rparr>, sq)
   | D_unlock \<Rightarrow> (d\<lparr>d_pc := D_check\<rparr>, cq\<lparr>q_head_lock := UNLOCKED\<rparr>, sq)
   | D_passed \<Rightarrow> (if head_passed 0 0 (q_head cq) then d\<lparr>d_pc := D_release\<rparr> else d, cq, sq)
   | D_release \<Rightarrow> (d\<lparr>d_pc := D_return\<rparr>, cq\<lparr>q_pos_locks := (q_pos_locks cq)[unat (d_pos d) := 0]\<rparr>, sq)
   | D_return \<Rightarrow> (d, cq, sq))"

subsection \<open>The system\<close>

text \<open>The pair of queues as \<open>init_queues\<close> leaves it for \<open>2 ^ L\<close> entries: indices, locks and tickets are 0, the arrays
  \<open>init_gpu_specific_struct\<close> allocates are cleared. \<open>es\<close> is the size of an entry in bytes.\<close>

definition init_queue :: "nat \<Rightarrow> u16 \<Rightarrow> u16 \<Rightarrow> u64 \<Rightarrow> u64 \<Rightarrow> entry list \<Rightarrow> nvm_queue" where
  "init_queue L no es db ioaddr ring = \<lparr>q_head_lock = 0, q_tail_lock = 0, q_head = 0, q_tail = 0, q_in_ticket = 0,
     q_cid_ticket = 0, q_tickets = replicate (2 ^ L) 0, q_head_mark = replicate (2 ^ L) 0,
     q_tail_mark = replicate (2 ^ L) 0, q_cid = replicate 65536 0, q_pos_locks = replicate (2 ^ L) 0,
     q_qs_minus_1 = 2 ^ L - 1, q_qs_log2 = of_nat L, q_no = no, q_es = es, q_qs = 2 ^ L, q_phase = True,
     q_local = False, q_last = 0, q_db = db, q_db_val = 0, q_ring = ring, q_ioaddr = ioaddr\<rparr>"

definition new_enq :: "entry \<Rightarrow> enq" where
  "new_enq cmd = \<lparr>e_pc = E_ticket, e_cmd = cmd, e_pos = 0, e_id = 0, e_cur_tail = 0, e_count = 0\<rparr>"

definition new_deq :: "u16 \<Rightarrow> deq" where
  "new_deq cid = \<lparr>d_pc = P_head, d_cid = cid, d_head = 0, d_i = 0, d_pos = 0, d_cur_head = 0, d_count = 0,
     d_new_sq_head = 0, d_loc = 0, d_sq_move_count = 0\<rparr>"

text \<open>A state: the two queues, the calls of \<open>sq_enqueue\<close> and of \<open>cq_poll\<close> with \<open>cq_dequeue\<close> (each call that is ever made
  has a number; it has not begun as long as it stands at its first point), the calls in the order of their tickets,
  and the commands the controller has fetched. The controller fetches while its own head differs from the doorbell.\<close>

record pq =
  pq_sq :: nvm_queue
  pq_cq :: nvm_queue
  pq_enq :: "nat \<Rightarrow> enq"
  pq_deq :: "nat \<Rightarrow> deq"
  pq_issued :: "nat list"
  pq_fetched :: "entry list"

definition pq_init :: "nat \<Rightarrow> (nat \<Rightarrow> entry) \<Rightarrow> (nat \<Rightarrow> u16) \<Rightarrow> entry list \<Rightarrow> entry list \<Rightarrow> pq" where
  "pq_init L cmds cids sq_mem cq_mem = \<lparr>pq_sq = init_queue L 1 64 0x1008 0 sq_mem, pq_cq = init_queue L 1 16 0x100c 0 cq_mem,
     pq_enq = (\<lambda>i. new_enq (cmds i)), pq_deq = (\<lambda>j. new_deq (cids j)), pq_issued = [], pq_fetched = []\<rparr>"

definition dev_head :: "nat \<Rightarrow> pq \<Rightarrow> nat" where
  "dev_head L s = length (pq_fetched s) mod 2 ^ L"

text \<open>What NVMe prescribes for the field SQHD of a completion: it is a head the controller has had since the completions
  already retired, so going round the ring from the host's head it comes no later than the controller's head.\<close>

definition ring_dist :: "nat \<Rightarrow> nat \<Rightarrow> nat \<Rightarrow> nat" where
  "ring_dist L a b = (b + 2 ^ L - a mod 2 ^ L) mod 2 ^ L"

definition sqhd_ok :: "nat \<Rightarrow> pq \<Rightarrow> u16 \<Rightarrow> bool" where
  "sqhd_ok L s sqhd \<longleftrightarrow> unat sqhd < 2 ^ L \<and>
     ring_dist L (unat (q_head (pq_sq s))) (unat sqhd) \<le> ring_dist L (unat (q_head (pq_sq s))) (dev_head L s)"

definition enq_move :: "nat \<Rightarrow> pq \<Rightarrow> pq" where
  "enq_move i s =
     (let e = pq_enq s i; (e', sq') = enq_step e (pq_sq s) in
      s\<lparr>pq_sq := sq', pq_enq := (pq_enq s)(i := e'),
        pq_issued := (if e_pc e = E_ticket then pq_issued s @ [i] else pq_issued s)\<rparr>)"

definition deq_move :: "nat \<Rightarrow> pq \<Rightarrow> pq" where
  "deq_move j s =
     (let (d', cq', sq') = deq_step (pq_deq s j) (pq_cq s) (pq_sq s) in
      s\<lparr>pq_sq := sq', pq_cq := cq', pq_deq := (pq_deq s)(j := d')\<rparr>)"

inductive pq_step :: "nat \<Rightarrow> pq \<Rightarrow> pq \<Rightarrow> bool" for L where
  enq: "pq_step L s (enq_move i s)"
| deq: "(d_pc (pq_deq s j) = MH_cqe \<longrightarrow> sqhd_ok L s (d_new_sq_head (pq_deq (deq_move j s) j))) \<Longrightarrow> pq_step L s (deq_move j s)"
| fetch: "dev_head L s \<noteq> unat (q_db_val (pq_sq s)) \<Longrightarrow>
    pq_step L s (s\<lparr>pq_fetched := pq_fetched s @ [q_ring (pq_sq s) ! dev_head L s]\<rparr>)"
| post: "pq_step L s (s\<lparr>pq_cq := (pq_cq s)\<lparr>q_ring := (q_ring (pq_cq s))[p := cpl]\<rparr>\<rparr>)"

inductive pq_reachable :: "nat \<Rightarrow> (nat \<Rightarrow> entry) \<Rightarrow> pq \<Rightarrow> bool" for L cmds where
  start: "length sq_mem = 2 ^ L \<Longrightarrow> \<forall>p<2 ^ L. length (sq_mem ! p) = 16 \<Longrightarrow> length cq_mem = 2 ^ L \<Longrightarrow>
    pq_reachable L cmds (pq_init L cmds cids sq_mem cq_mem)"
| step: "pq_reachable L cmds s \<Longrightarrow> pq_step L s s' \<Longrightarrow> pq_reachable L cmds s'"

end
