(* ===== verification/Parallel_Protocol.thy ===== *)
theory Parallel_Protocol
  imports Nvm_Parallel_Queue
begin

text \<open>
  The ticket protocol of \<open>sq_enqueue\<close> without memory and threads: \<open>n\<close> tickets have been handed out, ticket \<open>k\<close> belongs
  to slot \<open>k mod N\<close> and is in stage \<open>rk k\<close> (1 waiting for its turn, 2 copying, 3 marked, 4 its mark has been taken, 5
  returned), the marks of the tickets below \<open>tk\<close> have been taken by the thread that moves the tail, and the commands
  below \<open>r\<close> have been retired. The turn of a slot counts the returned and the retired tickets of the slot. The lemmas
  follow the protocol from step to step; the main one says that a ticket whose number the turn has reached is alone
  in its slot.
\<close>

definition turn :: "nat \<Rightarrow> nat \<Rightarrow> (nat \<Rightarrow> nat) \<Rightarrow> nat \<Rightarrow> nat \<Rightarrow> nat" where
  "turn N n rk r p = card {k. k < n \<and> k mod N = p \<and> rk k = 5} + card {k. k < r \<and> k mod N = p}"

definition proto :: "nat \<Rightarrow> nat \<Rightarrow> (nat \<Rightarrow> nat) \<Rightarrow> nat \<Rightarrow> nat \<Rightarrow> (nat \<Rightarrow> bool) \<Rightarrow> bool" where
  "proto N n rk r tk mark \<longleftrightarrow> 0 < N \<and> r \<le> tk \<and> tk \<le> n \<and>
     (\<forall>k<n. 2 \<le> rk k \<and> N \<le> k \<longrightarrow> rk (k - N) = 5 \<and> k - N < r) \<and>
     (\<forall>k<tk. 3 \<le> rk k) \<and> (\<forall>k<n. 4 \<le> rk k \<longrightarrow> k < tk) \<and>
     (\<forall>p<N. mark p \<longleftrightarrow> (\<exists>k. tk \<le> k \<and> k < n \<and> k mod N = p \<and> 3 \<le> rk k))"

lemma protoD:
  assumes "proto N n rk r tk mark"
  shows "0 < N" "r \<le> tk" "tk \<le> n" "\<And>k. k < n \<Longrightarrow> 2 \<le> rk k \<Longrightarrow> N \<le> k \<Longrightarrow> rk (k - N) = 5 \<and> k - N < r"
    "\<And>k. k < tk \<Longrightarrow> 3 \<le> rk k" "\<And>k. k < n \<Longrightarrow> 4 \<le> rk k \<Longrightarrow> k < tk"
    "\<And>p. p < N \<Longrightarrow> mark p \<longleftrightarrow> (\<exists>k. tk \<le> k \<and> k < n \<and> k mod N = p \<and> 3 \<le> rk k)"
  using assms by (auto simp: proto_def)

lemma proto_cong:
  assumes p: "proto N n rk r tk mark" and k: "\<And>k. k < n \<Longrightarrow> rk k = rk' k" and m: "\<And>p. p < N \<Longrightarrow> mark p = mark' p"
  shows "proto N n rk' r tk mark'"
  unfolding proto_def
proof (intro conjI allI impI)
  fix k' assume "k' < n" "2 \<le> rk' k' \<and> N \<le> k'"
  then show "rk' (k' - N) = 5" "k' - N < r" using protoD(4) [OF p, of k'] k [of k'] k [of "k' - N"] by auto
next
  fix k' assume "k' < tk" then show "3 \<le> rk' k'" using protoD(3) [OF p] protoD(5) [OF p, of k'] k [of k'] by simp
next
  fix q assume "q < N"
  then show "mark' q = (\<exists>k\<ge>tk. k < n \<and> k mod N = q \<and> 3 \<le> rk' k)" using protoD(7) [OF p, of q] k m [of q] by (auto intro!: ex_cong)
qed (use protoD(1-3,6) [OF p] k in auto)

lemma turn_cong: "(\<And>k. k < n \<Longrightarrow> rk k = rk' k) \<Longrightarrow> turn N n rk r p = turn N n rk' r p"
  unfolding turn_def by (intro arg_cong2 [of _ _ _ _ "(+)"] arg_cong [of _ _ card]) auto

lemma proto_before:
  assumes p: "proto N n rk r tk mark" and "k < n" "2 \<le> rk k" "k' < k" "k' mod N = k mod N"
  shows "rk k' = 5 \<and> k' < r"
  using assms(2-)
proof (induction k rule: less_induct)
  case (less k)
  have far: "k' + N \<le> k" using same_slot_far less.prems(3,4) by metis
  note d = protoD(4) [OF p less.prems(1,2)]
  show ?case
  proof (cases "k' = k - N")
    case True then show ?thesis using d far by simp
  next
    case False
    have "k - N < k" "(k - N) mod N = k mod N" using far protoD(1) [OF p] by (auto simp: le_mod_geq [symmetric])
    then show ?thesis using less.IH [of "k - N"] d far False less.prems by auto
  qed
qed

lemma card_slot: "0 < N \<Longrightarrow> card {k'. k' < k \<and> k' mod N = k mod N} = k div (N :: nat)"
proof (induction k rule: less_induct)
  case (less k)
  show ?case
  proof (cases "k < N")
    case True
    then have "{k'. k' < k \<and> k' mod N = k mod N} = {}" by auto
    then show ?thesis using True by simp
  next
    case False
    let ?j = "k - N"
    have j: "?j < k" "?j mod N = k mod N" using False less.prems by (auto simp: le_mod_geq [symmetric])
    have "{k'. k' < k \<and> k' mod N = k mod N} = insert ?j {k'. k' < ?j \<and> k' mod N = ?j mod N}"
    proof (intro set_eqI iffI)
      fix k'
      assume "k' \<in> {k'. k' < k \<and> k' mod N = k mod N}"
      then show "k' \<in> insert ?j {k'. k' < ?j \<and> k' mod N = ?j mod N}"
        using same_slot_far [of k' k N] j by auto
    qed (use j in auto)
    moreover have "k div N = Suc (?j div N)" using False less.prems by (simp add: le_div_geq)
    moreover have "?j \<notin> {k'. k' < ?j \<and> k' mod N = ?j mod N}" by simp
    ultimately show ?thesis using less.IH [OF j(1) less.prems] by (simp only: card_insert_disjoint finite_Collect_conjI finite_Collect_less_nat simp_thms)
  qed
qed

lemma turn_waiting:
  assumes p: "proto N n rk r tk mark" and k: "k < n" "rk k = 1"
  shows "turn N n rk r (k mod N) \<le> 2 * (k div N)"
    and "turn N n rk r (k mod N) = 2 * (k div N) \<Longrightarrow> N \<le> k \<Longrightarrow> rk (k - N) = 5 \<and> k - N < r"
proof -
  let ?S = "{k'. k' < k \<and> k' mod N = k mod N}"
  let ?A = "{k'. k' < n \<and> k' mod N = k mod N \<and> rk k' = 5}" let ?R = "{k'. k' < r \<and> k' mod N = k mod N}"
  have low: "k' < k" if "k' < n" "k' mod N = k mod N" "2 \<le> rk k'" for k'
  proof (rule ccontr)
    assume "\<not> k' < k"
    moreover have "k \<noteq> k'" using that(3) k(2) by auto
    ultimately have "rk k = 5" using proto_before [OF p that(1,3) _ that(2) [symmetric]] by simp
    then show False using k(2) by simp
  qed
  have a: "?A \<subseteq> ?S" using low by auto
  have r: "?R \<subseteq> ?S"
  proof
    fix k' assume "k' \<in> ?R"
    then show "k' \<in> ?S" using low [of k'] protoD(2,3) [OF p] protoD(5) [OF p, of k'] by simp
  qed
  have c: "card ?A \<le> card ?S" "card ?R \<le> card ?S" using a r by (auto intro: card_mono)
  have s: "card ?S = k div N" using card_slot protoD(1) [OF p] by blast
  show "turn N n rk r (k mod N) \<le> 2 * (k div N)" using c s by (simp add: turn_def)
  assume "turn N n rk r (k mod N) = 2 * (k div N)" "N \<le> k"
  then have "card ?A = card ?S" "card ?R = card ?S" using c s by (simp_all add: turn_def)
  then have "?A = ?S" "?R = ?S" using card_subset_eq [of ?S] a r by auto
  moreover have "k - N \<in> ?S" using \<open>N \<le> k\<close> protoD(1) [OF p] by (auto simp: le_mod_geq [symmetric])
  ultimately have "k - N \<in> ?A" "k - N \<in> ?R" by (simp_all only:)
  then show "rk (k - N) = 5 \<and> k - N < r" by simp
qed

subsection \<open>The steps of a ticket\<close>

lemma proto_issue:
  assumes p: "proto N n rk r tk mark"
  shows "proto N (Suc n) (rk(n := 1)) r tk mark"
  unfolding proto_def
proof (intro conjI allI impI)
  fix k assume k: "k < Suc n" "2 \<le> (rk(n := 1)) k \<and> N \<le> k"
  then have "k < n" by (auto split: if_splits simp: less_Suc_eq)
  then show "(rk(n := 1)) (k - N) = 5" "k - N < r" using k protoD(4) [OF p, of k] by auto
next
  fix k assume "k < tk" then show "3 \<le> (rk(n := 1)) k" using protoD(3) [OF p] protoD(5) [OF p, of k] by simp
next
  fix k assume "k < Suc n" "4 \<le> (rk(n := 1)) k"
  then show "k < tk" using protoD(6) [OF p, of k] by (auto split: if_splits)
next
  fix q assume q: "q < N"
  show "mark q = (\<exists>k\<ge>tk. k < Suc n \<and> k mod N = q \<and> 3 \<le> (rk(n := 1)) k)"
    unfolding protoD(7) [OF p q] by (auto simp: less_Suc_eq)
qed (use protoD(1-3) [OF p] in auto)

lemma turn_issue: "turn N (Suc n) (rk(n := 1)) r p = turn N n rk r p"
  unfolding turn_def by (intro arg_cong2 [of _ _ _ _ "(+)"] arg_cong [of _ _ card]) (auto simp: less_Suc_eq)

lemma proto_pass:
  assumes p: "proto N n rk r tk mark" and k: "k < n" "rk k = 1" and t: "turn N n rk r (k mod N) = 2 * (k div N)"
  shows "proto N n (rk(k := 2)) r tk mark"
  unfolding proto_def
proof (intro conjI allI impI)
  fix k' assume k': "k' < n" "2 \<le> (rk(k := 2)) k' \<and> N \<le> k'"
  have "rk (k' - N) = 5 \<and> k' - N < r"
    using k' protoD(4) [OF p, of k'] turn_waiting(2) [OF p k t] by (cases "k' = k") auto
  then show "(rk(k := 2)) (k' - N) = 5" "k' - N < r" using k(2) by auto
next
  fix k' assume "k' < tk" then show "3 \<le> (rk(k := 2)) k'" using protoD(5) [OF p, of k'] k(2) by auto
next
  fix k' assume "k' < n" "4 \<le> (rk(k := 2)) k'"
  then show "k' < tk" using protoD(6) [OF p, of k'] by (auto split: if_splits)
next
  fix q assume q: "q < N"
  show "mark q = (\<exists>k'\<ge>tk. k' < n \<and> k' mod N = q \<and> 3 \<le> (rk(k := 2)) k')"
    unfolding protoD(7) [OF p q] using k(2) by (intro ex_cong1 conj_cong refl) auto
qed (use protoD(1-3) [OF p] in auto)

lemma turn_upd:
  assumes "rk k \<noteq> 5" "x \<noteq> 5"
  shows "turn N n (rk(k := x)) r p = turn N n rk r p"
  unfolding turn_def using assms by (intro arg_cong2 [of _ _ _ _ "(+)"] arg_cong [of _ _ card]) auto

lemma proto_mark:
  assumes p: "proto N n rk r tk mark" and k: "k < n" "rk k = 2"
  shows "proto N n (rk(k := 3)) r tk (mark(k mod N := True))"
  unfolding proto_def
proof (intro conjI allI impI)
  fix k' assume k': "k' < n" "2 \<le> (rk(k := 3)) k' \<and> N \<le> k'"
  have "rk (k' - N) = 5 \<and> k' - N < r" using k' protoD(4) [OF p, of k'] k(2) by (cases "k' = k") auto
  then show "(rk(k := 3)) (k' - N) = 5" "k' - N < r" using k(2) by auto
next
  fix k' assume "k' < tk" then show "3 \<le> (rk(k := 3)) k'" using protoD(5) [OF p, of k'] by auto
next
  fix k' assume "k' < n" "4 \<le> (rk(k := 3)) k'"
  then show "k' < tk" using protoD(6) [OF p, of k'] by (auto split: if_splits)
next
  fix q assume q: "q < N"
  have "tk \<le> k" using protoD(5) [OF p, of k] k(2) by (cases "k < tk") auto
  show "(mark(k mod N := True)) q = (\<exists>k'\<ge>tk. k' < n \<and> k' mod N = q \<and> 3 \<le> (rk(k := 3)) k')"
  proof (cases "q = k mod N")
    case True then show ?thesis using \<open>tk \<le> k\<close> k(1) by (auto intro!: exI [of _ k])
  next
    case False then show ?thesis unfolding fun_upd_other [OF False] protoD(7) [OF p q] by (intro ex_cong1 conj_cong refl) auto
  qed
qed (use protoD(1-3) [OF p] in auto)

lemma proto_take:
  assumes p: "proto N n rk r tk mark" and m: "mark (tk mod N)"
  shows "proto N n rk r (Suc tk) (mark(tk mod N := False))"
proof -
  obtain k where k: "tk \<le> k" "k < n" "k mod N = tk mod N" "3 \<le> rk k"
    using protoD(7) [OF p, of "tk mod N"] m protoD(1) [OF p] by auto
  have late: "\<not> (2 \<le> rk k')" if "tk < k'" "k' < n" "k' mod N = tk mod N" for k'
    using proto_before [OF p that(2) _ that(1)] that(3) protoD(2) [OF p] by auto
  have t: "tk < n" "3 \<le> rk tk" using k late [of k] by (cases "k = tk"; auto)+
  show ?thesis
    unfolding proto_def
  proof (intro conjI allI impI)
    fix k' assume "k' < Suc tk" then show "3 \<le> rk k'" using t protoD(5) [OF p, of k'] by (auto simp: less_Suc_eq)
  next
    fix k' assume "k' < n" "4 \<le> rk k'" then show "k' < Suc tk" using protoD(6) [OF p, of k'] by auto
  next
    fix q assume q: "q < N"
    show "(mark(tk mod N := False)) q = (\<exists>k'\<ge>Suc tk. k' < n \<and> k' mod N = q \<and> 3 \<le> rk k')"
    proof (cases "q = tk mod N")
      case True
      have "\<not> 3 \<le> rk k'" if "Suc tk \<le> k'" "k' < n" "k' mod N = q" for k' using late [of k'] that True by simp
      then show ?thesis using True by (simp only: fun_upd_same) blast
    next
      case False
      have "(tk \<le> k' \<and> k' mod N = q) = (Suc tk \<le> k' \<and> k' mod N = q)" for k'
        using False by (cases "k' = tk") (auto simp: Suc_le_eq)
      then show ?thesis unfolding fun_upd_other [OF False] protoD(7) [OF p q] by blast
    qed
  qed (use protoD(1-4) [OF p] t in auto)
qed

lemma proto_not_marked:
  assumes p: "proto N n rk r tk mark" and m: "\<not> mark (k mod N)" and k: "k < n" "rk k = 3"
  shows "k < tk" "proto N n (rk(k := 4)) r tk mark"
proof -
  show t: "k < tk" using protoD(7) [OF p, of "k mod N"] m k protoD(1) [OF p] by (cases "k < tk") auto
  show "proto N n (rk(k := 4)) r tk mark"
    unfolding proto_def
  proof (intro conjI allI impI)
    fix k' assume k': "k' < n" "2 \<le> (rk(k := 4)) k' \<and> N \<le> k'"
    have "rk (k' - N) = 5 \<and> k' - N < r" using k' protoD(4) [OF p, of k'] k(2) by (cases "k' = k") auto
    then show "(rk(k := 4)) (k' - N) = 5" "k' - N < r" using k(2) by auto
  next
    fix k' assume "k' < tk" then show "3 \<le> (rk(k := 4)) k'" using protoD(5) [OF p, of k'] by auto
  next
    fix k' assume "k' < n" "4 \<le> (rk(k := 4)) k'" then show "k' < tk" using protoD(6) [OF p, of k'] t by (auto split: if_splits)
  next
    fix q assume q: "q < N"
    show "mark q = (\<exists>k'\<ge>tk. k' < n \<and> k' mod N = q \<and> 3 \<le> (rk(k := 4)) k')"
      unfolding protoD(7) [OF p q] using k(2) by (intro ex_cong1 conj_cong refl) auto
  qed (use protoD(1-3) [OF p] in auto)
qed

lemma proto_done:
  assumes p: "proto N n rk r tk mark" and k: "k < n" "rk k = 4"
  shows "proto N n (rk(k := 5)) r tk mark"
  unfolding proto_def
proof (intro conjI allI impI)
  fix k' assume k': "k' < n" "2 \<le> (rk(k := 5)) k' \<and> N \<le> k'"
  have "rk (k' - N) = 5 \<and> k' - N < r" using k' protoD(4) [OF p, of k'] k(2) by (cases "k' = k") auto
  then show "(rk(k := 5)) (k' - N) = 5" "k' - N < r" by auto
next
  fix k' assume "k' < tk" then show "3 \<le> (rk(k := 5)) k'" using protoD(5) [OF p, of k'] by auto
next
  fix k' assume "k' < n" "4 \<le> (rk(k := 5)) k'"
  then show "k' < tk" using protoD(6) [OF p, of k'] protoD(6) [OF p, of k] k by (auto split: if_splits)
next
  fix q assume q: "q < N"
  show "mark q = (\<exists>k'\<ge>tk. k' < n \<and> k' mod N = q \<and> 3 \<le> (rk(k := 5)) k')"
    unfolding protoD(7) [OF p q] using k(2) by (intro ex_cong1 conj_cong refl) auto
qed (use protoD(1-3) [OF p] in auto)

lemma turn_done:
  assumes "k < n" "rk k \<noteq> 5"
  shows "turn N n (rk(k := 5)) r p = (if p = k mod N then Suc (turn N n rk r p) else turn N n rk r p)"
proof -
  have "{k'. k' < n \<and> k' mod N = p \<and> (rk(k := 5)) k' = 5}
      = (if p = k mod N then insert k {k'. k' < n \<and> k' mod N = p \<and> rk k' = 5} else {k'. k' < n \<and> k' mod N = p \<and> rk k' = 5})"
    using assms by auto
  then show ?thesis using assms by (simp add: turn_def)
qed

lemma proto_retire:
  assumes p: "proto N n rk r tk mark" and "r < tk"
  shows "proto N n rk (Suc r) tk mark"
  using p assms(2) by (auto simp: proto_def less_Suc_eq)

lemma turn_retire: "turn N n rk (Suc r) p = (if p = r mod N then Suc (turn N n rk r p) else turn N n rk r p)"
proof -
  have "{k. k < Suc r \<and> k mod N = p} = (if p = r mod N then insert r {k. k < r \<and> k mod N = p} else {k. k < r \<and> k mod N = p})"
    by (auto simp: less_Suc_eq)
  then show ?thesis by (simp add: turn_def)
qed

subsection \<open>Exclusion\<close>

text \<open>Two tickets of one slot are never both between their turn and their return, and the slot of a ticket that may be
  copying holds no command that is still to be retired.\<close>

lemma proto_exclusive:
  assumes p: "proto N n rk r tk mark" and "k < n" "k' < n" "k mod N = k' mod N" "2 \<le> rk k" "rk k \<le> 4" "2 \<le> rk k'" "rk k' \<le> 4"
  shows "k = k'"
proof (rule ccontr)
  assume "k \<noteq> k'"
  then consider "k < k'" | "k' < k" by linarith
  then show False
  proof cases
    case 1 then show ?thesis using proto_before [OF p assms(3,7) 1 assms(4)] assms(6) by simp
  next
    case 2 then show ?thesis using proto_before [OF p assms(2,5) 2 assms(4) [symmetric]] assms(8) by simp
  qed
qed

lemma proto_slot_free:
  assumes p: "proto N n rk r tk mark" and "k < n" "k' < n" "k mod N = k' mod N" "rk k = 2" "3 \<le> rk k'" "r \<le> k'"
  shows False
proof -
  have "k \<noteq> k'" using assms(5,6) by auto
  then consider "k < k'" | "k' < k" by linarith
  then show False
  proof cases
    case 1 then show ?thesis using proto_before [OF p assms(3) _ 1 assms(4)] assms(5,6) by simp
  next
    case 2 then show ?thesis using proto_before [OF p assms(2) _ 2 assms(4) [symmetric]] assms(5,7) by simp
  qed
qed

end
