(* ===== verification/Parallel_Invariant.thy ===== *)
theory Parallel_Invariant
  imports Parallel_Protocol
begin

text \<open>
  The invariant of the shared queues. It speaks about five counts that the 32-bit words of the descriptor only show
  modulo their width: \<open>h\<close> the commands behind the head of the submission queue, \<open>t\<close> those behind its tail, \<open>tk\<close> the
  tickets whose mark the mover of the tail has taken, \<open>r\<close> the commands whose slot has been given its next turn, and
  \<open>b\<close> those behind the doorbell. It holds as long as at most \<open>2 ^ 32\<close> tickets have been handed out.
\<close>

unbundle bit_operations_syntax

fun stage :: "enq_pc \<Rightarrow> nat" where
  "stage E_ticket = 0"
| "stage E_wait = 1"
| "stage E_wait_acquire = 1"
| "stage (E_copy i) = 2"
| "stage E_mark = 2"
| "stage E_turn = 4"
| "stage E_return = 5"
| "stage _ = 3"

fun in_tail :: "enq_pc \<Rightarrow> bool" where
  "in_tail E_tail = True"
| "in_tail MT_full = True"
| "in_tail MT_take = True"
| "in_tail MT_end = True"
| "in_tail E_doorbell = True"
| "in_tail E_set_tail = True"
| "in_tail E_unlock = True"
| "in_tail _ = False"

fun in_head :: "deq_pc \<Rightarrow> bool" where
  "in_head D_head = True"
| "in_head MH_take = True"
| "in_head MH_cqe = True"
| "in_head MH_sq_head = True"
| "in_head MH_turn = True"
| "in_head MH_set_head = True"
| "in_head D_doorbell = True"
| "in_head D_set_head = True"
| "in_head D_unlock = True"
| "in_head _ = False"

definition call :: "pq \<Rightarrow> nat \<Rightarrow> enq" where
  "call s k = pq_enq s (pq_issued s ! k)"

definition rank :: "pq \<Rightarrow> nat \<Rightarrow> nat" where
  "rank s k = stage (e_pc (call s k))"

abbreviation issued_n :: "pq \<Rightarrow> nat" where "issued_n s \<equiv> length (pq_issued s)"
abbreviation fetched_n :: "pq \<Rightarrow> nat" where "fetched_n s \<equiv> length (pq_fetched s)"

text \<open>What the thread in \<open>move_tail\<close> and the one in \<open>move_head_cq\<close> know.\<close>

definition moving :: "nat \<Rightarrow> nat \<Rightarrow> enq \<Rightarrow> bool" where
  "moving t tk e \<longleftrightarrow> e_cur_tail e = of_nat t \<and> e_count e = of_nat (tk - t)"

fun tail_at :: "nat \<Rightarrow> nat \<Rightarrow> nat \<Rightarrow> nat \<Rightarrow> nat \<Rightarrow> enq \<Rightarrow> enq_pc \<Rightarrow> bool" where
  "tail_at N h t tk b e MT_full = (moving t tk e \<and> b = t)"
| "tail_at N h t tk b e MT_take = (moving t tk e \<and> b = t \<and> tk + 1 < h + N)"
| "tail_at N h t tk b e MT_end = (moving t tk e \<and> b = t)"
| "tail_at N h t tk b e E_doorbell = (moving t tk e \<and> b = t)"
| "tail_at N h t tk b e E_set_tail = (moving t tk e \<and> b = tk)"
| "tail_at N h t tk b e E_tail = (tk = t \<and> b = t)"
| "tail_at N h t tk b e E_unlock = (tk = t \<and> b = t)"
| "tail_at N h t tk b e _ = True"

fun head_at :: "nat \<Rightarrow> nat \<Rightarrow> nat \<Rightarrow> nat \<Rightarrow> deq \<Rightarrow> deq_pc \<Rightarrow> bool" where
  "head_at N h r f d MH_sq_head = (r = h \<and> (\<exists>K. h \<le> K \<and> K \<le> f \<and> unat (d_new_sq_head d) = K mod N))"
| "head_at N h r f d MH_turn = ((\<exists>K. r \<le> K \<and> K \<le> f \<and> unat (d_new_sq_head d) = K mod N) \<and>
     d_loc d = of_nat (r mod N) \<and> d_sq_move_count d = of_nat (r - h))"
| "head_at N h r f d MH_set_head = (d_sq_move_count d = of_nat (r - h))"
| "head_at N h r f d _ = (r = h)"

definition shape_ok :: "nat \<Rightarrow> nvm_queue \<Rightarrow> bool" where
  "shape_ok L sq \<longleftrightarrow> 1 \<le> L \<and> L \<le> 16 \<and> q_qs_minus_1 sq = 2 ^ L - 1 \<and> q_qs_log2 sq = of_nat L \<and>
     length (q_tickets sq) = 2 ^ L \<and> length (q_tail_mark sq) = 2 ^ L \<and> length (q_ring sq) = 2 ^ L \<and>
     (\<forall>p<2 ^ L. length (q_ring sq ! p) = 16)"

definition calls_ok :: "nat \<Rightarrow> (nat \<Rightarrow> entry) \<Rightarrow> pq \<Rightarrow> bool" where
  "calls_ok L cmds s \<longleftrightarrow> distinct (pq_issued s) \<and> q_in_ticket (pq_sq s) = of_nat (issued_n s) \<and>
     (\<forall>i. e_cmd (pq_enq s i) = cmds i \<and> length (cmds i) = 16) \<and> (\<forall>i. i \<notin> set (pq_issued s) \<longleftrightarrow> e_pc (pq_enq s i) = E_ticket) \<and>
     (\<forall>k<issued_n s. e_pos (call s k) = of_nat (k mod 2 ^ L) \<and> e_id (call s k) = of_nat (2 * (k div 2 ^ L)))"

definition locks_ok :: "pq \<Rightarrow> bool" where
  "locks_ok s \<longleftrightarrow> q_tail_lock (pq_sq s) \<in> {LOCKED, UNLOCKED} \<and> q_head_lock (pq_cq s) \<in> {LOCKED, UNLOCKED} \<and>
     (\<forall>i. in_tail (e_pc (pq_enq s i)) \<longrightarrow> q_tail_lock (pq_sq s) = LOCKED) \<and>
     (\<forall>i j. in_tail (e_pc (pq_enq s i)) \<and> in_tail (e_pc (pq_enq s j)) \<longrightarrow> i = j) \<and>
     (\<forall>i. in_head (d_pc (pq_deq s i)) \<longrightarrow> q_head_lock (pq_cq s) = LOCKED) \<and>
     (\<forall>i j. in_head (d_pc (pq_deq s i)) \<and> in_head (d_pc (pq_deq s j)) \<longrightarrow> i = j)"

definition ctl_ok :: "nat \<Rightarrow> nat \<Rightarrow> nat \<Rightarrow> nat \<Rightarrow> nat \<Rightarrow> nat \<Rightarrow> pq \<Rightarrow> bool" where
  "ctl_ok L h t tk r b s \<longleftrightarrow> h \<le> r \<and> r \<le> fetched_n s \<and> fetched_n s \<le> b \<and> t \<le> b \<and> b \<le> tk \<and> tk < h + 2 ^ L \<and>
     q_head (pq_sq s) = of_nat h \<and> q_tail (pq_sq s) = of_nat t \<and> q_db_val (pq_sq s) = of_nat (b mod 2 ^ L) \<and>
     (q_tail_lock (pq_sq s) \<noteq> LOCKED \<longrightarrow> tk = t \<and> b = t) \<and>
     (\<forall>i. tail_at (2 ^ L) h t tk b (pq_enq s i) (e_pc (pq_enq s i))) \<and>
     (q_head_lock (pq_cq s) \<noteq> LOCKED \<longrightarrow> r = h) \<and>
     (\<forall>j. in_head (d_pc (pq_deq s j)) \<longrightarrow> head_at (2 ^ L) h r (fetched_n s) (pq_deq s j) (d_pc (pq_deq s j)))"

definition turns_ok :: "nat \<Rightarrow> nat \<Rightarrow> nat \<Rightarrow> pq \<Rightarrow> bool" where
  "turns_ok L tk r s \<longleftrightarrow> proto (2 ^ L) (issued_n s) (rank s) r tk (\<lambda>p. q_tail_mark (pq_sq s) ! p = LOCKED) \<and>
     (\<forall>p<2 ^ L. q_tickets (pq_sq s) ! p = of_nat (turn (2 ^ L) (issued_n s) (rank s) r p))"

fun copied :: "entry \<Rightarrow> entry \<Rightarrow> nat \<Rightarrow> nat \<Rightarrow> enq_pc \<Rightarrow> bool" where
  "copied slot cmd f k (E_copy i) = (i \<le> 2 \<and> take (8 * i) slot = take (8 * i) cmd)"
| "copied slot cmd f k E_mark = (slot = cmd)"
| "copied slot cmd f k pc = (3 \<le> stage pc \<and> f \<le> k \<longrightarrow> slot = cmd)"

definition data_ok :: "nat \<Rightarrow> (nat \<Rightarrow> entry) \<Rightarrow> pq \<Rightarrow> bool" where
  "data_ok L cmds s \<longleftrightarrow> pq_fetched s = map cmds (take (fetched_n s) (pq_issued s)) \<and>
     (\<forall>k<issued_n s. copied (q_ring (pq_sq s) ! (k mod 2 ^ L)) (e_cmd (call s k)) (fetched_n s) k (e_pc (call s k)))"

definition pq_inv :: "nat \<Rightarrow> (nat \<Rightarrow> entry) \<Rightarrow> nat \<Rightarrow> nat \<Rightarrow> nat \<Rightarrow> nat \<Rightarrow> nat \<Rightarrow> pq \<Rightarrow> bool" where
  "pq_inv L cmds h t tk r b s \<longleftrightarrow> shape_ok L (pq_sq s) \<and> calls_ok L cmds s \<and> locks_ok s \<and> ctl_ok L h t tk r b s \<and>
     turns_ok L tk r s \<and> data_ok L cmds s"

subsection \<open>Words\<close>

lemma and_qs_minus_1: "(of_nat x :: u32) AND (2 ^ L - 1) = of_nat (x mod 2 ^ L)"
proof -
  have "(of_nat x :: u32) AND (2 ^ L - 1) = take_bit L (of_nat x)" by (simp only: take_bit_eq_mask mask_eq_exp_minus_1)
  also have "\<dots> = of_nat (x mod 2 ^ L)" by (simp only: take_bit_of_nat) (simp only: take_bit_eq_mod)
  finally show ?thesis .
qed

lemma unat_of_nat_small: "x < 2 ^ LENGTH('a) \<Longrightarrow> unat (of_nat x :: 'a::len word) = x"
  by (simp only: unat_of_nat mod_less)

lemma unat_slot: "L \<le> 16 \<Longrightarrow> unat (of_nat (x mod 2 ^ L) :: u32) = x mod 2 ^ L"
proof -
  assume "L \<le> 16"
  then have "(2 :: nat) ^ L \<le> 2 ^ 16" by (rule power_increasing) simp
  moreover have "x mod 2 ^ L < 2 ^ L" by simp
  ultimately have "x mod 2 ^ L < 2 ^ 16" by (rule less_le_trans [rotated])
  then show ?thesis by (intro unat_of_nat_small) simp
qed

lemma get_id_ticket:
  assumes "k < 2 ^ 32" "L \<le> 16"
  shows "get_id (ucast (of_nat k :: u32)) (ucast (of_nat L :: u32)) = of_nat (2 * (k div 2 ^ L))"
proof -
  have l: "unat (ucast (of_nat L :: u32) :: u64) = L" using assms(2) by (simp add: unsigned_ucast_eq take_bit_eq_mod unat_of_nat)
  have "unat (drop_bit L (ucast (of_nat k :: u32) :: u64)) = k div 2 ^ L"
    using assms(1) by (simp only: unat_drop_bit_eq) (simp add: drop_bit_eq_div unsigned_ucast_eq take_bit_eq_mod unat_of_nat)
  moreover have "unat (of_nat (k div 2 ^ L) :: u64) = k div 2 ^ L"
    using assms(1) by (intro unat_of_nat_small le_less_trans [OF div_le_dividend]) simp
  ultimately have "drop_bit L (ucast (of_nat k :: u32) :: u64) = of_nat (k div 2 ^ L)" by (simp only: word_unat_eq_iff)
  then show ?thesis by (simp add: get_id_def l mult.commute)
qed

lemma turn_eq_id:
  assumes "x \<le> 2 * (k div 2 ^ L)" "k < 2 ^ 32" "1 \<le> L"
  shows "(ucast (of_nat x :: u32) :: u64) = of_nat (2 * (k div 2 ^ L)) \<longleftrightarrow> x = 2 * (k div 2 ^ L)"
proof -
  have "2 * (k div 2 ^ L) \<le> 2 * (k div 2 ^ 1)"
    using assms(3) by (intro mult_le_mono2 div_le_mono2 power_increasing) auto
  then have g: "2 * (k div 2 ^ L) < 2 ^ 32" using assms(2) by simp
  have "unat (ucast (of_nat x :: u32) :: u64) = x" using assms(1) g by (simp add: unsigned_ucast_eq take_bit_eq_mod unat_of_nat)
  moreover have "unat (of_nat (2 * (k div 2 ^ L)) :: u64) = 2 * (k div 2 ^ L)" using g by (intro unat_of_nat_small) simp
  ultimately show ?thesis by (simp only: word_unat_eq_iff)
qed

subsection \<open>A call that moves\<close>

text \<open>The state after call \<open>i\<close> has made a step that issues no ticket.\<close>

abbreviation moved :: "nat \<Rightarrow> enq \<Rightarrow> nvm_queue \<Rightarrow> pq \<Rightarrow> pq" where
  "moved i e sq s \<equiv> s\<lparr>pq_sq := sq, pq_enq := (pq_enq s)(i := e)\<rparr>"

lemma enq_move_moved:
  assumes "e_pc (pq_enq s i) \<noteq> E_ticket" "enq_step (pq_enq s i) (pq_sq s) = (e, sq)"
  shows "enq_move i s = moved i e sq s"
  using assms by (simp add: enq_move_def)

lemma call_moved:
  assumes "distinct (pq_issued s)" "k < issued_n s" "pq_issued s ! k = i" "k' < issued_n s"
  shows "call (moved i e sq s) k' = (if k' = k then e else call s k')"
  using assms by (auto simp: call_def nth_eq_iff_index_eq)

lemma rank_moved:
  assumes "distinct (pq_issued s)" "k < issued_n s" "pq_issued s ! k = i" "k' < issued_n s"
  shows "rank (moved i e sq s) k' = ((rank s)(k := stage (e_pc e))) k'"
  using call_moved [OF assms] by (simp add: rank_def)

lemma calls_ok_moved:
  assumes c: "calls_ok L cmds s" and k: "k < issued_n s" "pq_issued s ! k = i"
    and e: "e_cmd e = e_cmd (pq_enq s i)" "e_pos e = e_pos (pq_enq s i)" "e_id e = e_id (pq_enq s i)" "e_pc e \<noteq> E_ticket"
    and t: "q_in_ticket sq = q_in_ticket (pq_sq s)"
  shows "calls_ok L cmds (moved i e sq s)"
proof -
  have d: "distinct (pq_issued s)" and p: "e_pc (pq_enq s i) \<noteq> E_ticket"
    using c k nth_mem [OF k(1)] unfolding calls_ok_def by auto
  have "e_pos (call (moved i e sq s) k') = of_nat (k' mod 2 ^ L) \<and> e_id (call (moved i e sq s) k') = of_nat (2 * (k' div 2 ^ L))"
    if "k' < issued_n s" for k'
    using c that e(2,3) k call_moved [OF d k that] unfolding calls_ok_def by (auto simp: call_def)
  then show ?thesis using c d p e(1,4) t unfolding calls_ok_def by (auto simp: fun_upd_def)
qed

text \<open>The number of a call that has begun, and what its variables are.\<close>

lemma begun:
  assumes "calls_ok L cmds s" "e_pc (pq_enq s i) \<noteq> E_ticket"
  obtains k where "k < issued_n s" "pq_issued s ! k = i" "call s k = pq_enq s i" "rank s k = stage (e_pc (pq_enq s i))"
    "e_pos (pq_enq s i) = of_nat (k mod 2 ^ L)" "e_id (pq_enq s i) = of_nat (2 * (k div 2 ^ L))" "e_cmd (pq_enq s i) = cmds i"
proof -
  have "i \<in> set (pq_issued s)" using assms by (auto simp: calls_ok_def)
  then obtain k where "k < issued_n s" "pq_issued s ! k = i" by (auto simp: in_set_conv_nth)
  then show thesis using that [of k] assms(1) by (auto simp: calls_ok_def call_def rank_def)
qed

lemma locks_ok_moved:
  assumes "locks_ok s" "in_tail (e_pc e) \<Longrightarrow> in_tail (e_pc (pq_enq s i))" "q_tail_lock sq = q_tail_lock (pq_sq s)"
  shows "locks_ok (moved i e sq s)"
  using assms unfolding locks_ok_def by (auto split: if_splits)

lemma ctl_ok_moved:
  assumes "ctl_ok L h t tk r b s" "tail_at (2 ^ L) h t tk b e (e_pc e)"
    "q_head sq = q_head (pq_sq s)" "q_tail sq = q_tail (pq_sq s)" "q_db_val sq = q_db_val (pq_sq s)" "q_tail_lock sq = q_tail_lock (pq_sq s)"
  shows "ctl_ok L h t tk r b (moved i e sq s)"
  using assms unfolding ctl_ok_def by auto

lemma turns_ok_moved:
  assumes "distinct (pq_issued s)" "k < issued_n s" "pq_issued s ! k = i" "0 < (2 :: nat) ^ L"
    and p: "proto (2 ^ L) (issued_n s) ((rank s)(k := stage (e_pc e))) r tk mark"
    and m: "\<And>p. p < 2 ^ L \<Longrightarrow> mark p = (q_tail_mark sq ! p = LOCKED)"
    and t: "\<And>p. p < 2 ^ L \<Longrightarrow> q_tickets sq ! p = of_nat (turn (2 ^ L) (issued_n s) ((rank s)(k := stage (e_pc e))) r p)"
  shows "turns_ok L tk r (moved i e sq s)"
proof -
  note rk = rank_moved [OF assms(1-3), of _ e sq]
  have "proto (2 ^ L) (issued_n s) (rank (moved i e sq s)) r tk (\<lambda>p. q_tail_mark sq ! p = LOCKED)"
    using proto_cong [OF p] rk m by auto
  moreover have "turn (2 ^ L) (issued_n s) (rank (moved i e sq s)) r p = turn (2 ^ L) (issued_n s) ((rank s)(k := stage (e_pc e))) r p" for p
    by (rule turn_cong) (rule rk)
  ultimately show ?thesis using t by (simp add: turns_ok_def)
qed

lemma turns_ok_same:
  assumes t: "turns_ok L tk r s" and k: "distinct (pq_issued s)" "k < issued_n s" "pq_issued s ! k = i"
    and e: "stage (e_pc e) = rank s k" and q: "q_tickets sq = q_tickets (pq_sq s)" "q_tail_mark sq = q_tail_mark (pq_sq s)"
  shows "turns_ok L tk r (moved i e sq s)"
proof -
  have "(rank s)(k := stage (e_pc e)) = rank s" using e by (simp add: fun_upd_idem)
  then show ?thesis using t q by (intro turns_ok_moved [OF k]) (simp_all add: turns_ok_def)
qed

lemma data_ok_moved:
  assumes d: "data_ok L cmds s" and k: "distinct (pq_issued s)" "k < issued_n s" "pq_issued s ! k = i"
    and c: "e_cmd e = e_cmd (pq_enq s i)" "copied (q_ring sq ! (k mod 2 ^ L)) (e_cmd e) (fetched_n s) k (e_pc e)"
    and q: "q_ring sq = q_ring (pq_sq s)"
  shows "data_ok L cmds (moved i e sq s)"
proof -
  have "copied (q_ring sq ! (k' mod 2 ^ L)) (e_cmd (call (moved i e sq s) k')) (fetched_n s) k' (e_pc (call (moved i e sq s) k'))"
    if "k' < issued_n s" for k'
    using d c q call_moved [OF k that, of e sq] that by (auto simp: data_ok_def)
  then show ?thesis using d by (simp add: data_ok_def)
qed

lemma pq_invD:
  assumes "pq_inv L cmds h t tk r b s"
  shows "shape_ok L (pq_sq s)" "calls_ok L cmds s" "locks_ok s" "ctl_ok L h t tk r b s" "turns_ok L tk r s" "data_ok L cmds s"
    "distinct (pq_issued s)"
  using assms by (simp_all add: pq_inv_def calls_ok_def)

text \<open>A step inside a stage, with the shared fields of the invariant as they were.\<close>

definition same_queue :: "nvm_queue \<Rightarrow> nvm_queue \<Rightarrow> bool" where
  "same_queue sq sq' \<longleftrightarrow> q_head sq' = q_head sq \<and> q_tail sq' = q_tail sq \<and> q_db_val sq' = q_db_val sq \<and>
     q_tail_lock sq' = q_tail_lock sq \<and> q_in_ticket sq' = q_in_ticket sq \<and> q_qs_minus_1 sq' = q_qs_minus_1 sq \<and>
     q_qs_log2 sq' = q_qs_log2 sq \<and> q_tickets sq' = q_tickets sq \<and> q_tail_mark sq' = q_tail_mark sq \<and> q_ring sq' = q_ring sq"

definition same_call :: "enq \<Rightarrow> enq \<Rightarrow> bool" where
  "same_call e e' \<longleftrightarrow> e_cmd e' = e_cmd e \<and> e_pos e' = e_pos e \<and> e_id e' = e_id e \<and> e_pc e' \<noteq> E_ticket \<and>
     stage (e_pc e') = stage (e_pc e)"

lemma shape_ok_same: "same_queue sq sq' \<Longrightarrow> shape_ok L sq \<Longrightarrow> shape_ok L sq'"
  by (simp add: same_queue_def shape_ok_def)

lemma pq_inv_same:
  assumes i: "pq_inv L cmds h t tk r b s" and k: "k < issued_n s" "pq_issued s ! k = i"
    and e: "same_call (pq_enq s i) e" "in_tail (e_pc e) \<Longrightarrow> in_tail (e_pc (pq_enq s i))"
    and q: "same_queue (pq_sq s) sq" and t: "tail_at (2 ^ L) h t tk b e (e_pc e)"
    and c: "copied (q_ring (pq_sq s) ! (k mod 2 ^ L)) (e_cmd e) (fetched_n s) k (e_pc e)"
  shows "pq_inv L cmds h t tk r b (moved i e sq s)"
proof -
  note d = pq_invD [OF i]
  have "stage (e_pc e) = rank s k" using e(1) k by (simp add: same_call_def rank_def call_def)
  then have "turns_ok L tk r (moved i e sq s)"
    using q by (intro turns_ok_same [OF d(5,7) k]) (simp_all add: same_queue_def)
  moreover have "calls_ok L cmds (moved i e sq s)"
    using e(1) q by (intro calls_ok_moved [OF d(2) k]) (simp_all add: same_call_def same_queue_def)
  moreover have "data_ok L cmds (moved i e sq s)"
    using e(1) q c by (intro data_ok_moved [OF d(6,7) k]) (simp_all add: same_call_def same_queue_def)
  moreover have "locks_ok (moved i e sq s)" "ctl_ok L h t tk r b (moved i e sq s)"
    using q e(2) t locks_ok_moved [OF d(3)] ctl_ok_moved [OF d(4)] by (simp_all add: same_queue_def)
  ultimately show ?thesis using shape_ok_same [OF q d(1)] by (simp add: pq_inv_def)
qed

lemma same_queue_refl [simp]: "same_queue sq sq"
  by (simp add: same_queue_def)

text \<open>The steps that only look.\<close>

definition look_pcs :: "enq_pc set" where
  "look_pcs = {E_wait, E_wait_acquire, E_check, E_peek_lock, E_lock, E_return}"

lemma look_pcs:
  assumes "pc \<in> look_pcs"
  shows "tail_at N h t tk b e pc" "\<not> in_tail pc" "pc \<noteq> E_ticket" "copied slot cmd f k pc = (3 \<le> stage pc \<and> f \<le> k \<longrightarrow> slot = cmd)"
  using assms by (auto simp: look_pcs_def)

definition looks :: "enq \<Rightarrow> nvm_queue \<Rightarrow> bool" where
  "looks e sq \<longleftrightarrow> e_pc e \<in> look_pcs \<and>
     (e_pc e = E_wait_acquire \<longrightarrow> ucast (q_tickets sq ! unat (e_pos e)) \<noteq> e_id e) \<and>
     (e_pc e = E_check \<longrightarrow> q_tail_mark sq ! unat (e_pos e) = LOCKED) \<and> (e_pc e = E_lock \<longrightarrow> q_tail_lock sq = LOCKED)"

lemma looks_step:
  assumes "looks e sq" "enq_step e sq = (e', sq')"
  shows "same_call e e' \<and> e_pc e' \<in> look_pcs \<and> same_queue sq sq'"
proof -
  have "e_pc e \<in> look_pcs" using assms(1) by (simp add: looks_def)
  then consider "e_pc e = E_wait" | "e_pc e = E_wait_acquire" | "e_pc e = E_check" | "e_pc e = E_peek_lock" | "e_pc e = E_lock" | "e_pc e = E_return"
    by (auto simp: look_pcs_def)
  then show ?thesis
  proof cases
    case 1 then show ?thesis using assms by (auto simp: enq_step_def same_call_def look_pcs_def split: if_splits)
  next
    case 2 then show ?thesis using assms by (auto simp: enq_step_def same_call_def looks_def look_pcs_def split: if_splits)
  next
    case 3 then show ?thesis using assms by (auto simp: enq_step_def same_call_def looks_def look_pcs_def split: if_splits)
  next
    case 4 then show ?thesis using assms by (auto simp: enq_step_def same_call_def look_pcs_def split: if_splits)
  next
    case 5 then show ?thesis using assms by (auto simp: enq_step_def same_call_def looks_def look_pcs_def same_queue_def split: if_splits)
  next
    case 6 then show ?thesis using assms by (auto simp: enq_step_def same_call_def look_pcs_def split: if_splits)
  qed
qed

lemma inv_look:
  assumes i: "pq_inv L cmds h t tk r b s" and l: "looks (pq_enq s i) (pq_sq s)"
  shows "pq_inv L cmds h t tk r b (enq_move i s)"
proof -
  note d = pq_invD [OF i]
  have pc: "e_pc (pq_enq s i) \<in> look_pcs" using l by (simp add: looks_def)
  obtain k where k: "k < issued_n s" "pq_issued s ! k = i" "call s k = pq_enq s i"
    using begun [OF d(2) look_pcs(3) [OF pc]] by metis
  obtain e sq where st: "enq_step (pq_enq s i) (pq_sq s) = (e, sq)" by fastforce
  note e = looks_step [OF l st]
  have "copied (q_ring (pq_sq s) ! (k mod 2 ^ L)) (e_cmd (pq_enq s i)) (fetched_n s) k (e_pc (pq_enq s i))"
    using d(6) k(1,3) by (auto simp: data_ok_def)
  then have "copied (q_ring (pq_sq s) ! (k mod 2 ^ L)) (e_cmd e) (fetched_n s) k (e_pc e)"
    using e look_pcs(4) [OF pc] by (simp add: look_pcs(4) same_call_def)
  then have "pq_inv L cmds h t tk r b (moved i e sq s)"
    using e look_pcs(1,2) by (intro pq_inv_same [OF i k(1,2)]) auto
  then show ?thesis by (simp add: enq_move_moved [OF look_pcs(3) [OF pc] st])
qed

lemma tail_at_out: "\<not> in_tail pc \<Longrightarrow> tail_at N h t tk b e pc"
  by (cases pc) auto

lemma at_call:
  assumes i: "pq_inv L cmds h t tk r b s" and "e_pc (pq_enq s i) \<noteq> E_ticket"
  obtains k where "k < issued_n s" "pq_issued s ! k = i" "call s k = pq_enq s i" "rank s k = stage (e_pc (pq_enq s i))"
    "unat (e_pos (pq_enq s i)) = k mod 2 ^ L" "e_id (pq_enq s i) = of_nat (2 * (k div 2 ^ L))"
    "copied (q_ring (pq_sq s) ! (k mod 2 ^ L)) (e_cmd (pq_enq s i)) (fetched_n s) k (e_pc (pq_enq s i))"
proof -
  note d = pq_invD [OF i]
  obtain k where k: "k < issued_n s" "pq_issued s ! k = i" "call s k = pq_enq s i" "rank s k = stage (e_pc (pq_enq s i))"
    "e_pos (pq_enq s i) = of_nat (k mod 2 ^ L)" "e_id (pq_enq s i) = of_nat (2 * (k div 2 ^ L))"
    using begun [OF d(2) assms(2)] by metis
  have "unat (e_pos (pq_enq s i)) = k mod 2 ^ L" using k(5) d(1) by (simp add: unat_slot shape_ok_def)
  moreover have "copied (q_ring (pq_sq s) ! (k mod 2 ^ L)) (e_cmd (pq_enq s i)) (fetched_n s) k (e_pc (pq_enq s i))"
    using d(6) k(1,3) by (auto simp: data_ok_def)
  ultimately show thesis using that k by metis
qed

text \<open>A step to the next stage that leaves indices, doorbell and lock alone.\<close>

lemma pq_inv_stage:
  assumes i: "pq_inv L cmds h t tk r b s" and k: "k < issued_n s" "pq_issued s ! k = i"
    and e: "e = (pq_enq s i)\<lparr>e_pc := pc\<rparr>" "pc \<noteq> E_ticket" "\<not> in_tail pc"
    and q: "sq = (pq_sq s)\<lparr>q_tickets := tks, q_tail_mark := mks\<rparr>" "length tks = 2 ^ L" "length mks = 2 ^ L"
    and p: "proto (2 ^ L) (issued_n s) ((rank s)(k := stage pc)) r tk mark" "\<And>p. p < 2 ^ L \<Longrightarrow> mark p = (mks ! p = LOCKED)"
    and tn: "\<And>p. p < 2 ^ L \<Longrightarrow> tks ! p = of_nat (turn (2 ^ L) (issued_n s) ((rank s)(k := stage pc)) r p)"
    and c: "copied (q_ring (pq_sq s) ! (k mod 2 ^ L)) (e_cmd (pq_enq s i)) (fetched_n s) k pc"
  shows "pq_inv L cmds h t tk r b (moved i e sq s)"
proof -
  note d = pq_invD [OF i]
  have "turns_ok L tk r (moved i e sq s)"
    by (rule turns_ok_moved [OF d(7) k, where mark = mark]) (use p tn in \<open>simp_all add: q(1) e(1)\<close>)
  moreover have "calls_ok L cmds (moved i e sq s)"
    by (rule calls_ok_moved [OF d(2) k]) (use e(2) in \<open>simp_all add: q(1) e(1)\<close>)
  moreover have "data_ok L cmds (moved i e sq s)"
    by (rule data_ok_moved [OF d(6,7) k]) (use c in \<open>simp_all add: q(1) e(1)\<close>)
  moreover have "locks_ok (moved i e sq s)" by (rule locks_ok_moved [OF d(3)]) (use e(3) in \<open>simp_all add: q(1) e(1)\<close>)
  moreover have "ctl_ok L h t tk r b (moved i e sq s)"
    by (rule ctl_ok_moved [OF d(4)]) (simp_all add: q(1) e(1) tail_at_out [OF e(3)])
  moreover have "shape_ok L sq" using d(1) q by (simp add: shape_ok_def)
  ultimately show ?thesis by (simp add: pq_inv_def)
qed

lemma inv_pass:
  assumes i: "pq_inv L cmds h t tk r b s" and n: "issued_n s \<le> 2 ^ 32" and pc: "e_pc (pq_enq s i) = E_wait_acquire"
    and m: "ucast (q_tickets (pq_sq s) ! unat (e_pos (pq_enq s i))) = e_id (pq_enq s i)"
  shows "pq_inv L cmds h t tk r b (enq_move i s)"
proof -
  note d = pq_invD [OF i]
  have nt: "e_pc (pq_enq s i) \<noteq> E_ticket" using pc by simp
  obtain k where k: "k < issued_n s" "pq_issued s ! k = i" "rank s k = 1" "unat (e_pos (pq_enq s i)) = k mod 2 ^ L"
    "e_id (pq_enq s i) = of_nat (2 * (k div 2 ^ L))" using at_call [OF i nt] pc by (metis stage.simps(3))
  have p: "proto (2 ^ L) (issued_n s) (rank s) r tk (\<lambda>p. q_tail_mark (pq_sq s) ! p = LOCKED)"
    and tn: "\<And>p. p < 2 ^ L \<Longrightarrow> q_tickets (pq_sq s) ! p = of_nat (turn (2 ^ L) (issued_n s) (rank s) r p)"
    using d(5) by (simp_all add: turns_ok_def)
  have "turn (2 ^ L) (issued_n s) (rank s) r (k mod 2 ^ L) = 2 * (k div 2 ^ L)"
    using turn_eq_id [of _ k L] turn_waiting(1) [OF p k(1,3)] m k(1,4,5) tn [of "k mod 2 ^ L"] n d(1)
    by (simp add: shape_ok_def)
  note p' = proto_pass [OF p k(1,3) this]
  have "pq_inv L cmds h t tk r b (moved i ((pq_enq s i)\<lparr>e_pc := E_copy 0\<rparr>) ((pq_sq s)\<lparr>q_tickets := q_tickets (pq_sq s), q_tail_mark := q_tail_mark (pq_sq s)\<rparr>) s)"
    by (rule pq_inv_stage [OF i k(1,2) refl _ _ refl]) (use d(1) p' tn k(3) in \<open>simp_all add: shape_ok_def turn_upd\<close>)
  then show ?thesis using pc m by (simp add: enq_move_def enq_step_def)
qed

end
