(* ===== verification/Parallel_Steps.thy ===== *)
theory Parallel_Steps
  imports Parallel_Invariant
begin

text \<open>
  Every step of the calls of \<open>sq_enqueue\<close> keeps the invariant.
\<close>

subsection \<open>Marking a slot and returning\<close>

lemma turns_okD:
  assumes "pq_inv L cmds h t tk r b s"
  shows "proto (2 ^ L) (issued_n s) (rank s) r tk (\<lambda>p. q_tail_mark (pq_sq s) ! p = LOCKED)"
    "\<And>p. p < 2 ^ L \<Longrightarrow> q_tickets (pq_sq s) ! p = of_nat (turn (2 ^ L) (issued_n s) (rank s) r p)"
    "length (q_tickets (pq_sq s)) = 2 ^ L" "length (q_tail_mark (pq_sq s)) = 2 ^ L"
  using assms by (simp_all add: pq_inv_def turns_ok_def shape_ok_def)

lemma inv_mark:
  assumes i: "pq_inv L cmds h t tk r b s" and pc: "e_pc (pq_enq s i) = E_mark"
  shows "pq_inv L cmds h t tk r b (enq_move i s)"
proof -
  obtain k where k: "k < issued_n s" "pq_issued s ! k = i" "rank s k = stage (e_pc (pq_enq s i))" "unat (e_pos (pq_enq s i)) = k mod 2 ^ L"
    "copied (q_ring (pq_sq s) ! (k mod 2 ^ L)) (e_cmd (pq_enq s i)) (fetched_n s) k (e_pc (pq_enq s i))"
    using at_call [OF i] pc by (metis enq_pc.distinct(7))
  note t = turns_okD [OF i]
  have r: "rank s k = 2" using k(3) pc by simp
  have "pq_inv L cmds h t tk r b (moved i ((pq_enq s i)\<lparr>e_pc := E_check\<rparr>)
    ((pq_sq s)\<lparr>q_tickets := q_tickets (pq_sq s), q_tail_mark := (q_tail_mark (pq_sq s))[k mod 2 ^ L := LOCKED]\<rparr>) s)"
    by (rule pq_inv_stage [OF i k(1,2) refl _ _ refl _ _ proto_mark [OF t(1) k(1) r, folded stage.simps(8)]])
      (use t k(5) pc r in \<open>auto simp: turn_upd nth_list_update\<close>)
  then show ?thesis using pc k(4) by (simp add: enq_move_def enq_step_def Let_def)
qed

lemma inv_check_taken:
  assumes i: "pq_inv L cmds h t tk r b s" and pc: "e_pc (pq_enq s i) = E_check"
    and m: "q_tail_mark (pq_sq s) ! unat (e_pos (pq_enq s i)) \<noteq> LOCKED"
  shows "pq_inv L cmds h t tk r b (enq_move i s)"
proof -
  obtain k where k: "k < issued_n s" "pq_issued s ! k = i" "rank s k = stage (e_pc (pq_enq s i))" "unat (e_pos (pq_enq s i)) = k mod 2 ^ L"
    "copied (q_ring (pq_sq s) ! (k mod 2 ^ L)) (e_cmd (pq_enq s i)) (fetched_n s) k (e_pc (pq_enq s i))"
    using at_call [OF i] pc by (metis enq_pc.distinct(9))
  note t = turns_okD [OF i]
  have r: "rank s k = 3" using k(3) pc by simp
  have "\<not> q_tail_mark (pq_sq s) ! (k mod 2 ^ L) = LOCKED" using m k(4) by simp
  note p = proto_not_marked(2) [OF t(1) this k(1) r]
  have "pq_inv L cmds h t tk r b (moved i ((pq_enq s i)\<lparr>e_pc := E_turn\<rparr>)
    ((pq_sq s)\<lparr>q_tickets := q_tickets (pq_sq s), q_tail_mark := q_tail_mark (pq_sq s)\<rparr>) s)"
    by (rule pq_inv_stage [OF i k(1,2) refl _ _ refl]) (use p t k(5) pc r in \<open>simp_all add: turn_upd\<close>)
  then show ?thesis using pc m by (simp add: enq_move_def enq_step_def Let_def)
qed

lemma inv_turn:
  assumes i: "pq_inv L cmds h t tk r b s" and pc: "e_pc (pq_enq s i) = E_turn"
  shows "pq_inv L cmds h t tk r b (enq_move i s)"
proof -
  obtain k where k: "k < issued_n s" "pq_issued s ! k = i" "rank s k = stage (e_pc (pq_enq s i))" "unat (e_pos (pq_enq s i)) = k mod 2 ^ L"
    "copied (q_ring (pq_sq s) ! (k mod 2 ^ L)) (e_cmd (pq_enq s i)) (fetched_n s) k (e_pc (pq_enq s i))"
    using at_call [OF i] pc by (metis enq_pc.distinct(29))
  note t = turns_okD [OF i]
  have r: "rank s k = 4" using k(3) pc by simp
  note p = proto_done [OF t(1) k(1) r]
  let ?tks = "(q_tickets (pq_sq s))[k mod 2 ^ L := q_tickets (pq_sq s) ! (k mod 2 ^ L) + 1]"
  have "?tks ! q = of_nat (turn (2 ^ L) (issued_n s) ((rank s)(k := 5)) r q)" if "q < 2 ^ L" for q
    using that t(2,3) turn_done [OF k(1), of "rank s"] r by (simp add: nth_list_update add.commute)
  then have "pq_inv L cmds h t tk r b (moved i ((pq_enq s i)\<lparr>e_pc := E_return\<rparr>)
    ((pq_sq s)\<lparr>q_tickets := ?tks, q_tail_mark := q_tail_mark (pq_sq s)\<rparr>) s)"
    by (intro pq_inv_stage [OF i k(1,2) refl _ _ refl]) (use p t k(5) pc in simp_all)
  then show ?thesis using pc k(4) by (simp add: enq_move_def enq_step_def Let_def)
qed

subsection \<open>Copying a command\<close>

lemma copy_half_props:
  assumes "length slot = 16" "length cmd = 16" "i < 2" "take (8 * i) slot = take (8 * i) cmd"
  shows "length (copy_half i cmd slot) = 16" "take (8 * Suc i) (copy_half i cmd slot) = take (8 * Suc i) cmd"
proof -
  show "length (copy_half i cmd slot) = 16" using assms(1-3) by (simp add: copy_half_def)
  have "take (8 * Suc i) (copy_half i cmd slot) = take (8 * i) cmd @ take 8 (drop (8 * i) cmd)"
    using assms by (simp add: copy_half_def)
  also have "\<dots> = take (8 * Suc i) cmd" by (simp add: take_add [symmetric] add.commute)
  finally show "take (8 * Suc i) (copy_half i cmd slot) = take (8 * Suc i) cmd" .
qed

lemma inv_copy:
  assumes i: "pq_inv L cmds h t tk r b s" and pc: "e_pc (pq_enq s i) = E_copy c" and c: "c < 2"
  shows "pq_inv L cmds h t tk r b (enq_move i s)"
proof -
  note d = pq_invD [OF i]
  obtain k where k: "k < issued_n s" "pq_issued s ! k = i" "call s k = pq_enq s i" "rank s k = stage (e_pc (pq_enq s i))" "unat (e_pos (pq_enq s i)) = k mod 2 ^ L"
    "copied (q_ring (pq_sq s) ! (k mod 2 ^ L)) (e_cmd (pq_enq s i)) (fetched_n s) k (e_pc (pq_enq s i))"
    using at_call [OF i] pc by (metis enq_pc.distinct(5))
  let ?p = "k mod 2 ^ L" let ?e = "(pq_enq s i)\<lparr>e_pc := E_copy (Suc c)\<rparr>"
  let ?slot = "copy_half c (e_cmd (pq_enq s i)) (q_ring (pq_sq s) ! ?p)"
  let ?sq = "(pq_sq s)\<lparr>q_ring := (q_ring (pq_sq s))[?p := ?slot]\<rparr>"
  note t = turns_okD [OF i]
  have r2: "rank s k = 2" using k(4) pc by simp
  have len: "length (q_ring (pq_sq s)) = 2 ^ L" "\<forall>q<2 ^ L. length (q_ring (pq_sq s) ! q) = 16" using d(1) by (simp_all add: shape_ok_def)
  have cmd: "length (e_cmd (pq_enq s i)) = 16" using d(2) by (simp add: calls_ok_def)
  have slot: "length ?slot = 16" "take (8 * Suc c) ?slot = take (8 * Suc c) (e_cmd (pq_enq s i))"
    using copy_half_props [of "q_ring (pq_sq s) ! ?p" "e_cmd (pq_enq s i)" c] len cmd c k(6) pc by simp_all
  have "turns_ok L tk r (moved i ?e ?sq s)"
    by (rule turns_ok_same [OF d(5,7) k(1,2)]) (simp_all add: r2)
  moreover have "calls_ok L cmds (moved i ?e ?sq s)" by (rule calls_ok_moved [OF d(2) k(1,2)]) simp_all
  moreover have "locks_ok (moved i ?e ?sq s)" by (rule locks_ok_moved [OF d(3)]) simp_all
  moreover have "ctl_ok L h t tk r b (moved i ?e ?sq s)" by (rule ctl_ok_moved [OF d(4)]) simp_all
  moreover have "shape_ok L ?sq" using d(1) slot(1) by (simp add: shape_ok_def nth_list_update)
  moreover have "copied (q_ring ?sq ! (k' mod 2 ^ L)) (e_cmd (call (moved i ?e ?sq s) k')) (fetched_n s) k' (e_pc (call (moved i ?e ?sq s) k'))"
    if k': "k' < issued_n s" for k'
  proof (cases "k' = k")
    case True
    then show ?thesis using slot(2) len(1) c call_moved [OF d(7) k(1,2) k', of ?e ?sq] by simp
  next
    case False
    then have cl: "call (moved i ?e ?sq s) k' = call s k'" using call_moved [OF d(7) k(1,2) k', of ?e ?sq] by simp
    have old: "copied (q_ring (pq_sq s) ! (k' mod 2 ^ L)) (e_cmd (call s k')) (fetched_n s) k' (e_pc (call s k'))"
      using d(6) k' by (simp add: data_ok_def)
    show ?thesis
    proof (cases "k' mod 2 ^ L = ?p")
      case True
      have "rank s k' \<noteq> 2"
      proof
        assume "rank s k' = 2"
        then have "k' = k" using True r2 by (intro proto_exclusive [OF t(1) k' k(1)]) simp_all
        then show False using False by simp
      qed
      moreover have "r \<le> fetched_n s" using d(4) by (simp add: ctl_ok_def)
      then have "\<not> (3 \<le> rank s k' \<and> fetched_n s \<le> k')" using proto_slot_free [OF t(1) k(1) k' _ r2] True by auto
      ultimately show ?thesis unfolding cl by (cases "e_pc (call s k')") (auto simp: rank_def)
    qed (simp add: cl old)
  qed
  then have "data_ok L cmds (moved i ?e ?sq s)" using d(6) by (simp add: data_ok_def)
  ultimately have "pq_inv L cmds h t tk r b (moved i ?e ?sq s)" by (simp add: pq_inv_def)
  then show ?thesis using pc c k(5) by (simp add: enq_move_def enq_step_def Let_def)
qed

lemma inv_copied:
  assumes i: "pq_inv L cmds h t tk r b s" and pc: "e_pc (pq_enq s i) = E_copy c" and c: "\<not> c < 2"
  shows "pq_inv L cmds h t tk r b (enq_move i s)"
proof -
  note d = pq_invD [OF i]
  obtain k where k: "k < issued_n s" "pq_issued s ! k = i"
    "copied (q_ring (pq_sq s) ! (k mod 2 ^ L)) (e_cmd (pq_enq s i)) (fetched_n s) k (e_pc (pq_enq s i))"
    using at_call [OF i] pc by (metis enq_pc.distinct(5))
  have l: "length (e_cmd (pq_enq s i)) = 16" "length (q_ring (pq_sq s) ! (k mod 2 ^ L)) = 16"
    using d(1,2) by (simp_all add: calls_ok_def shape_ok_def)
  have "c = 2" "take (8 * c) (q_ring (pq_sq s) ! (k mod 2 ^ L)) = take (8 * c) (e_cmd (pq_enq s i))" using k(3) c pc by auto
  then have "q_ring (pq_sq s) ! (k mod 2 ^ L) = e_cmd (pq_enq s i)" using l by simp
  then have "pq_inv L cmds h t tk r b (moved i ((pq_enq s i)\<lparr>e_pc := E_mark\<rparr>) (pq_sq s) s)"
    by (intro pq_inv_same [OF i k(1,2)]) (simp_all add: same_call_def pc)
  then show ?thesis using pc c by (simp add: enq_move_def enq_step_def Let_def)
qed

subsection \<open>Moving the tail\<close>

text \<open>A step of the thread that holds the tail lock, which may move the tail, the doorbell and the marks it has taken.\<close>

definition same_but_tail :: "nvm_queue \<Rightarrow> nvm_queue \<Rightarrow> bool" where
  "same_but_tail sq sq' \<longleftrightarrow> q_head sq' = q_head sq \<and> q_in_ticket sq' = q_in_ticket sq \<and> q_qs_minus_1 sq' = q_qs_minus_1 sq \<and>
     q_qs_log2 sq' = q_qs_log2 sq \<and> q_tickets sq' = q_tickets sq \<and> q_ring sq' = q_ring sq \<and>
     length (q_tail_mark sq') = length (q_tail_mark sq)"

lemma pq_inv_tail:
  assumes i: "pq_inv L cmds h t tk r b s" and pc: "in_tail (e_pc (pq_enq s i))"
    and e: "same_call (pq_enq s i) e" "in_tail (e_pc e) \<or> e_pc e = E_check \<and> tk' = t' \<and> b' = t'"
    and q: "same_but_tail (pq_sq s) sq" "q_db_val sq = of_nat (b' mod 2 ^ L)" "q_tail sq = of_nat t'"
      "q_tail_lock sq = (if in_tail (e_pc e) then LOCKED else UNLOCKED)"
    and n: "fetched_n s \<le> b'" "t' \<le> b'" "b' \<le> tk'" "tk' < h + 2 ^ L"
    and a: "tail_at (2 ^ L) h t' tk' b' e (e_pc e)"
    and p: "proto (2 ^ L) (issued_n s) (rank s) r tk' (\<lambda>p. q_tail_mark sq ! p = LOCKED)"
  shows "pq_inv L cmds h t' tk' r b' (moved i e sq s)"
proof -
  note d = pq_invD [OF i]
  have nt: "e_pc (pq_enq s i) \<noteq> E_ticket" and s3: "stage (e_pc (pq_enq s i)) = 3" using pc by (cases "e_pc (pq_enq s i)"; simp)+
  obtain k where k: "k < issued_n s" "pq_issued s ! k = i" "call s k = pq_enq s i" "rank s k = stage (e_pc (pq_enq s i))"
    "copied (q_ring (pq_sq s) ! (k mod 2 ^ L)) (e_cmd (pq_enq s i)) (fetched_n s) k (e_pc (pq_enq s i))"
    using at_call [OF i nt] by metis
  have out: "\<not> in_tail (e_pc (pq_enq s j))" if "j \<noteq> i" for j using d(3) pc that unfolding locks_ok_def by blast
  have rk: "(rank s)(k := stage (e_pc e)) = rank s" using k(4) e(1) by (simp add: same_call_def fun_upd_idem)
  have "turns_ok L tk' r (moved i e sq s)"
    by (rule turns_ok_moved [OF d(7) k(1,2), where mark = "\<lambda>p. q_tail_mark sq ! p = LOCKED"])
      (use p q(1) turns_okD(2) [OF i] in \<open>simp_all add: rk same_but_tail_def\<close>)
  moreover have "calls_ok L cmds (moved i e sq s)"
    by (rule calls_ok_moved [OF d(2) k(1,2)]) (use e(1) q(1) in \<open>simp_all add: same_call_def same_but_tail_def\<close>)
  moreover have "copied (q_ring sq ! (k mod 2 ^ L)) (e_cmd e) (fetched_n s) k (e_pc e)"
    using k(5) e pc q(1) by (cases "e_pc (pq_enq s i)"; cases "e_pc e") (auto simp: same_call_def same_but_tail_def)
  then have "data_ok L cmds (moved i e sq s)"
    by (intro data_ok_moved [OF d(6,7) k(1,2)]) (use e(1) q(1) in \<open>simp_all add: same_call_def same_but_tail_def\<close>)
  moreover have "locks_ok (moved i e sq s)" using d(3) out q(4) unfolding locks_ok_def by auto
  moreover have "ctl_ok L h t' tk' r b' (moved i e sq s)"
    using d(4) n a e(2) out q unfolding ctl_ok_def by (auto simp: same_but_tail_def tail_at_out)
  moreover have "shape_ok L sq" using d(1) q(1) by (simp add: shape_ok_def same_but_tail_def)
  ultimately show ?thesis by (simp add: pq_inv_def)
qed

lemma ctl_okD:
  assumes "pq_inv L cmds h t tk r b s"
  shows "h \<le> r" "r \<le> fetched_n s" "fetched_n s \<le> b" "t \<le> b" "b \<le> tk" "tk < h + 2 ^ L" "q_head (pq_sq s) = of_nat h"
    "q_tail (pq_sq s) = of_nat t" "q_db_val (pq_sq s) = of_nat (b mod 2 ^ L)"
    "\<And>i. tail_at (2 ^ L) h t tk b (pq_enq s i) (e_pc (pq_enq s i))"
    "\<And>i. in_tail (e_pc (pq_enq s i)) \<Longrightarrow> q_tail_lock (pq_sq s) = LOCKED"
    "q_qs_minus_1 (pq_sq s) = 2 ^ L - 1" "L \<le> 16" "(2 :: nat) ^ L \<le> 65536"
proof -
  have "L \<le> 16" using assms by (simp add: pq_inv_def shape_ok_def)
  then have "(2 :: nat) ^ L \<le> 2 ^ 16" by (rule power_increasing) simp
  then show "(2 :: nat) ^ L \<le> 65536" by simp
qed (use assms in \<open>auto simp: pq_inv_def ctl_ok_def locks_ok_def shape_ok_def\<close>)

lemma moving_sum: "moving t tk e \<Longrightarrow> t \<le> tk \<Longrightarrow> e_cur_tail e + e_count e = of_nat tk"
  by (simp add: moving_def of_nat_diff)

lemma inv_lock:
  assumes i: "pq_inv L cmds h t tk r b s" and pc: "e_pc (pq_enq s i) = E_lock" and l: "q_tail_lock (pq_sq s) \<noteq> LOCKED"
  shows "pq_inv L cmds h t tk r b (enq_move i s)"
proof -
  note d = pq_invD [OF i]
  obtain k where k: "k < issued_n s" "pq_issued s ! k = i" "rank s k = stage (e_pc (pq_enq s i))"
    "copied (q_ring (pq_sq s) ! (k mod 2 ^ L)) (e_cmd (pq_enq s i)) (fetched_n s) k (e_pc (pq_enq s i))"
    using at_call [OF i] pc by (metis enq_pc.distinct(13))
  let ?e = "(pq_enq s i)\<lparr>e_pc := E_tail\<rparr>" let ?sq = "(pq_sq s)\<lparr>q_tail_lock := q_tail_lock (pq_sq s) OR LOCKED\<rparr>"
  have free: "q_tail_lock (pq_sq s) = 0" using d(3) l by (auto simp: locks_ok_def)
  have "turns_ok L tk r (moved i ?e ?sq s)" by (rule turns_ok_same [OF d(5,7) k(1,2)]) (simp_all add: k(3) pc)
  moreover have "calls_ok L cmds (moved i ?e ?sq s)" by (rule calls_ok_moved [OF d(2) k(1,2)]) simp_all
  moreover have "data_ok L cmds (moved i ?e ?sq s)" by (rule data_ok_moved [OF d(6,7) k(1,2)]) (use k(4) pc in simp_all)
  moreover have "locks_ok (moved i ?e ?sq s)" using d(3) free unfolding locks_ok_def by auto
  moreover have "ctl_ok L h t tk r b (moved i ?e ?sq s)" using d(4) free unfolding ctl_ok_def by auto
  moreover have "shape_ok L ?sq" using d(1) by (simp add: shape_ok_def)
  ultimately have "pq_inv L cmds h t tk r b (moved i ?e ?sq s)" by (simp add: pq_inv_def)
  then show ?thesis using pc l by (simp add: enq_move_def enq_step_def Let_def)
qed

lemma inv_read_tail:
  assumes i: "pq_inv L cmds h t tk r b s" and pc: "e_pc (pq_enq s i) = E_tail"
  shows "pq_inv L cmds h t tk r b (enq_move i s)"
proof -
  note c = ctl_okD [OF i] and a = ctl_okD(10) [OF i, of i]
  have "pq_inv L cmds h t tk r b (moved i ((pq_enq s i)\<lparr>e_pc := MT_full, e_cur_tail := q_tail (pq_sq s), e_count := 0\<rparr>) (pq_sq s) s)"
    by (rule pq_inv_tail [OF i]) (use pc a c(1-9) c(11) [of i] turns_okD(1) [OF i] in \<open>simp_all add: same_call_def same_but_tail_def moving_def\<close>)
  then show ?thesis using pc by (simp add: enq_move_def enq_step_def Let_def)
qed

lemma not_full:
  assumes "tk < h + N" "h \<le> tk" "(tk + 1) mod N \<noteq> h mod (N :: nat)"
  shows "tk + 1 < h + N"
proof (rule ccontr)
  assume "\<not> tk + 1 < h + N"
  then have "tk + 1 = h + N" using assms(1) by linarith
  then show False using assms(3) by simp
qed

lemma inv_full:
  assumes i: "pq_inv L cmds h t tk r b s" and pc: "e_pc (pq_enq s i) = MT_full"
  shows "pq_inv L cmds h t tk r b (enq_move i s)"
proof -
  note c = ctl_okD [OF i] and a = ctl_okD(10) [OF i, of i]
  have m: "moving t tk (pq_enq s i)" "b = t" using a pc by simp_all
  have sum: "e_cur_tail (pq_enq s i) + e_count (pq_enq s i) + 1 = of_nat (tk + 1)"
    using moving_sum [OF m(1)] c(4,5) by simp
  let ?full = "(e_cur_tail (pq_enq s i) + e_count (pq_enq s i) + 1) AND q_qs_minus_1 (pq_sq s) = q_head (pq_sq s) AND q_qs_minus_1 (pq_sq s)"
  have "tk + 1 < h + 2 ^ L" if "\<not> ?full"
  proof (rule not_full)
    show "(tk + 1) mod 2 ^ L \<noteq> h mod 2 ^ L"
      using that unfolding sum c(7,12) and_qs_minus_1 by auto
  qed (use c in auto)
  then have "pq_inv L cmds h t tk r b (moved i ((pq_enq s i)\<lparr>e_pc := if ?full then MT_end else MT_take\<rparr>) (pq_sq s) s)"
    by (intro pq_inv_tail [OF i]) (use pc m c(1-9) c(11) [of i] turns_okD(1) [OF i] in \<open>auto simp: same_call_def same_but_tail_def moving_def\<close>)
  then show ?thesis using pc by (cases ?full) (simp_all add: enq_move_def enq_step_def Let_def)
qed

lemma inv_take:
  assumes i: "pq_inv L cmds h t tk r b s" and pc: "e_pc (pq_enq s i) = MT_take"
  shows "\<exists>tk'. pq_inv L cmds h t tk' r b (enq_move i s)"
proof -
  note c = ctl_okD [OF i] and a = ctl_okD(10) [OF i, of i] and tn = turns_okD [OF i]
  have m: "moving t tk (pq_enq s i)" "b = t" "tk + 1 < h + 2 ^ L" using a pc by simp_all
  let ?loc = "unat ((e_cur_tail (pq_enq s i) + e_count (pq_enq s i)) AND q_qs_minus_1 (pq_sq s))"
  let ?sq = "(pq_sq s)\<lparr>q_tail_mark := (q_tail_mark (pq_sq s))[tk mod 2 ^ L := UNLOCKED]\<rparr>"
  have loc: "?loc = tk mod 2 ^ L" using moving_sum [OF m(1)] c by (simp add: and_qs_minus_1 unat_slot)
  show ?thesis
  proof (cases "q_tail_mark (pq_sq s) ! (tk mod 2 ^ L) = LOCKED")
    case True
    let ?e = "(pq_enq s i)\<lparr>e_pc := MT_full, e_count := e_count (pq_enq s i) + 1\<rparr>"
    have "proto (2 ^ L) (issued_n s) (rank s) r (Suc tk) (\<lambda>p. q_tail_mark ?sq ! p = LOCKED)"
      using tn(4) by (intro proto_cong [OF proto_take [OF tn(1) True]]) (auto simp: nth_list_update)
    moreover have "moving t (Suc tk) ?e" using m(1) c(4,5) by (simp add: moving_def Suc_diff_le)
    ultimately have "pq_inv L cmds h t (Suc tk) r b (moved i ?e ?sq s)"
      by (intro pq_inv_tail [OF i]) (use pc m(2,3) c(1-9) c(11) [of i] in \<open>simp_all add: same_call_def same_but_tail_def\<close>)
    then have "pq_inv L cmds h t (Suc tk) r b (enq_move i s)" using pc True by (simp add: enq_move_def enq_step_def Let_def loc)
    then show ?thesis ..
  next
    case False
    let ?e = "(pq_enq s i)\<lparr>e_pc := MT_end\<rparr>"
    have "proto (2 ^ L) (issued_n s) (rank s) r tk (\<lambda>p. q_tail_mark ?sq ! p = LOCKED)"
      using tn(4) False by (intro proto_cong [OF tn(1)]) (auto simp: nth_list_update)
    then have "pq_inv L cmds h t tk r b (moved i ?e ?sq s)"
      by (intro pq_inv_tail [OF i]) (use pc m c(1-9) c(11) [of i] in \<open>simp_all add: same_call_def same_but_tail_def moving_def\<close>)
    then have "pq_inv L cmds h t tk r b (enq_move i s)" using pc False by (simp add: enq_move_def enq_step_def Let_def loc)
    then show ?thesis ..
  qed
qed

lemma inv_end:
  assumes i: "pq_inv L cmds h t tk r b s" and pc: "e_pc (pq_enq s i) = MT_end"
  shows "pq_inv L cmds h t tk r b (enq_move i s)"
proof -
  note c = ctl_okD [OF i] and a = ctl_okD(10) [OF i, of i]
  have m: "moving t tk (pq_enq s i)" "b = t" using a pc by simp_all
  have "tk - t < 2 ^ 32" using c(1-6,14) m(2) by simp
  then have "unat (e_count (pq_enq s i)) = tk - t" using m(1) unfolding moving_def by (simp only:) (rule unat_of_nat_small, simp)
  then have z: "e_count (pq_enq s i) = 0 \<Longrightarrow> tk = t" using c(4,5) by simp
  let ?e = "(pq_enq s i)\<lparr>e_pc := if e_count (pq_enq s i) \<noteq> 0 then E_doorbell else E_unlock\<rparr>"
  have "pq_inv L cmds h t tk r b (moved i ?e ((pq_sq s)\<lparr>q_head_lock := q_head_lock (pq_sq s) + 1\<rparr>) s)"
    by (rule pq_inv_tail [OF i]) (use z pc m c(1-9) c(11) [of i] turns_okD(1) [OF i] in \<open>auto simp: same_call_def same_but_tail_def moving_def\<close>)
  then show ?thesis using pc by (cases "e_count (pq_enq s i) = 0") (simp_all add: enq_move_def enq_step_def Let_def)
qed

lemma inv_doorbell:
  assumes i: "pq_inv L cmds h t tk r b s" and pc: "e_pc (pq_enq s i) = E_doorbell"
  shows "pq_inv L cmds h t tk r tk (enq_move i s)"
proof -
  note c = ctl_okD [OF i] and a = ctl_okD(10) [OF i, of i]
  have m: "moving t tk (pq_enq s i)" "b = t" using a pc by simp_all
  let ?db = "(e_cur_tail (pq_enq s i) + e_count (pq_enq s i)) AND q_qs_minus_1 (pq_sq s)"
  have db: "?db = of_nat (tk mod 2 ^ L)" using moving_sum [OF m(1)] c by (simp add: and_qs_minus_1)
  have "pq_inv L cmds h t tk r tk (moved i ((pq_enq s i)\<lparr>e_pc := E_set_tail\<rparr>) ((pq_sq s)\<lparr>q_db_val := ?db\<rparr>) s)"
    by (rule pq_inv_tail [OF i]) (use db pc m c(1-9) c(11) [of i] turns_okD(1) [OF i] in \<open>simp_all add: same_call_def same_but_tail_def moving_def\<close>)
  then show ?thesis using pc by (simp add: enq_move_def enq_step_def Let_def)
qed

lemma inv_set_tail:
  assumes i: "pq_inv L cmds h t tk r b s" and pc: "e_pc (pq_enq s i) = E_set_tail"
  shows "pq_inv L cmds h tk tk r b (enq_move i s)"
proof -
  note c = ctl_okD [OF i] and a = ctl_okD(10) [OF i, of i]
  have m: "moving t tk (pq_enq s i)" "b = tk" using a pc by simp_all
  have "pq_inv L cmds h tk tk r b (moved i ((pq_enq s i)\<lparr>e_pc := E_unlock\<rparr>) ((pq_sq s)\<lparr>q_tail := e_cur_tail (pq_enq s i) + e_count (pq_enq s i)\<rparr>) s)"
    by (rule pq_inv_tail [OF i]) (use moving_sum [OF m(1)] pc m c(1-9) c(11) [of i] turns_okD(1) [OF i] in \<open>simp_all add: same_call_def same_but_tail_def\<close>)
  then show ?thesis using pc by (simp add: enq_move_def enq_step_def Let_def)
qed

lemma inv_unlock:
  assumes i: "pq_inv L cmds h t tk r b s" and pc: "e_pc (pq_enq s i) = E_unlock"
  shows "pq_inv L cmds h t tk r b (enq_move i s)"
proof -
  note c = ctl_okD [OF i] and a = ctl_okD(10) [OF i, of i]
  have "pq_inv L cmds h t tk r b (moved i ((pq_enq s i)\<lparr>e_pc := E_check\<rparr>) ((pq_sq s)\<lparr>q_tail_lock := UNLOCKED\<rparr>) s)"
    by (rule pq_inv_tail [OF i]) (use a pc c(1-9) turns_okD(1) [OF i] in \<open>simp_all add: same_call_def same_but_tail_def\<close>)
  then show ?thesis using pc by (simp add: enq_move_def enq_step_def Let_def)
qed

subsection \<open>Taking a ticket\<close>

lemma inv_ticket:
  assumes i: "pq_inv L cmds h t tk r b s" and pc: "e_pc (pq_enq s i) = E_ticket" and n: "issued_n s < 2 ^ 32"
  shows "pq_inv L cmds h t tk r b (enq_move i s)"
proof -
  note d = pq_invD [OF i] and c = ctl_okD [OF i] and tn = turns_okD [OF i]
  let ?n = "issued_n s" let ?s = "enq_move i s"
  have new: "i \<notin> set (pq_issued s)" using d(2) pc by (simp add: calls_ok_def)
  have tic: "q_in_ticket (pq_sq s) = of_nat ?n" "q_qs_log2 (pq_sq s) = of_nat L" using d(1,2) by (simp_all add: calls_ok_def shape_ok_def)
  define e where "e = (pq_enq s i)\<lparr>e_pc := E_wait, e_pos := of_nat (?n mod 2 ^ L), e_id := of_nat (2 * (?n div 2 ^ L))\<rparr>"
  have s: "?s = s\<lparr>pq_sq := (pq_sq s)\<lparr>q_in_ticket := of_nat (Suc ?n)\<rparr>, pq_enq := (pq_enq s)(i := e), pq_issued := pq_issued s @ [i]\<rparr>"
    using pc by (simp add: enq_move_def enq_step_def e_def tic c(12) and_qs_minus_1 get_id_ticket [OF n c(13)] add.commute)
  have cl: "call ?s k = (if k = ?n then e else call s k)" if "k < Suc ?n" for k
    using that new nth_mem [of k "pq_issued s"] by (auto simp: s call_def nth_append less_Suc_eq)
  have rk: "rank ?s k = ((rank s)(?n := 1)) k" if "k < Suc ?n" for k using cl [OF that] by (simp add: rank_def e_def)
  have "turns_ok L tk r ?s"
    using proto_cong [OF proto_issue [OF tn(1)], of "rank ?s"] turn_cong [of "Suc ?n" "(rank s)(?n := 1)" "rank ?s"] rk tn(2)
    unfolding turns_ok_def by (simp add: s turn_issue [of "2 ^ L" ?n "rank s", symmetric] del: fun_upd_apply)
  moreover have "calls_ok L cmds ?s"
    using d(2) new cl unfolding calls_ok_def by (auto simp: s e_def less_Suc_eq)
  moreover have "locks_ok ?s" using d(3) unfolding locks_ok_def by (auto simp: s e_def)
  moreover have "ctl_ok L h t tk r b ?s" using d(4) unfolding ctl_ok_def by (auto simp: s e_def)
  moreover have "fetched_n s \<le> ?n" using c(3,5) protoD(3) [OF tn(1)] by simp
  then have "data_ok L cmds ?s" using d(6) cl unfolding data_ok_def by (auto simp: s less_Suc_eq e_def)
  moreover have "shape_ok L (pq_sq ?s)" using d(1) by (simp add: s shape_ok_def)
  ultimately show ?thesis by (simp add: pq_inv_def)
qed

lemma enq_move_inv:
  assumes i: "pq_inv L cmds h t tk r b s" and n: "issued_n (enq_move i s) \<le> 2 ^ 32"
  shows "\<exists>t' tk' b'. pq_inv L cmds h t' tk' r b' (enq_move i s)"
proof (cases "looks (pq_enq s i) (pq_sq s)")
  case True then show ?thesis using inv_look [OF i] by blast
next
  case False
  have n': "issued_n s \<le> 2 ^ 32" "e_pc (pq_enq s i) = E_ticket \<Longrightarrow> issued_n s < 2 ^ 32"
    using n by (auto simp: enq_move_def Let_def split: prod.splits if_splits)
  show ?thesis
  proof (cases "e_pc (pq_enq s i)")
    case E_ticket then show ?thesis using inv_ticket [OF i _ n'(2)] by blast
  next
    case E_wait_acquire
    then show ?thesis using False inv_pass [OF i n'(1)] by (auto simp: looks_def look_pcs_def)
  next
    case (E_copy c) then show ?thesis using inv_copy [OF i] inv_copied [OF i] by blast
  next
    case E_mark then show ?thesis using inv_mark [OF i] by blast
  next
    case E_check then show ?thesis using False inv_check_taken [OF i] by (auto simp: looks_def look_pcs_def)
  next
    case E_lock then show ?thesis using False inv_lock [OF i] by (auto simp: looks_def look_pcs_def)
  next
    case E_tail then show ?thesis using inv_read_tail [OF i] by blast
  next
    case MT_full then show ?thesis using inv_full [OF i] by blast
  next
    case MT_take then show ?thesis using inv_take [OF i] by blast
  next
    case MT_end then show ?thesis using inv_end [OF i] by blast
  next
    case E_doorbell then show ?thesis using inv_doorbell [OF i] by blast
  next
    case E_set_tail then show ?thesis using inv_set_tail [OF i] by blast
  next
    case E_unlock then show ?thesis using inv_unlock [OF i] by blast
  next
    case E_turn then show ?thesis using inv_turn [OF i] by blast
  qed (use False in \<open>auto simp: looks_def look_pcs_def\<close>)
qed

end
