(* ===== verification/Parallel_Retire.thy ===== *)
theory Parallel_Retire
  imports Parallel_Steps
begin

text \<open>
  The invariant of the shared queues under the other steps: those of \<open>cq_poll\<close>, \<open>cq_dequeue\<close> and \<open>move_head_cq\<close>, and
  those of the controller. From the initial state on, the invariant holds in every state that can be reached.
\<close>

unbundle bit_operations_syntax

subsection \<open>Retiring completions\<close>

abbreviation retired :: "nat \<Rightarrow> deq \<Rightarrow> nvm_queue \<Rightarrow> nvm_queue \<Rightarrow> pq \<Rightarrow> pq" where
  "retired j d cq sq s \<equiv> s\<lparr>pq_sq := sq, pq_cq := cq, pq_deq := (pq_deq s)(j := d)\<rparr>"

lemma rank_retired [simp]: "rank (retired j d cq sq s) = rank s" "call (retired j d cq sq s) = call s"
  by (simp_all add: rank_def call_def fun_eq_iff)

lemma tail_at_mono: "tail_at N h t tk b e pc \<Longrightarrow> h \<le> h' \<Longrightarrow> tail_at N h' t tk b e pc"
  by (cases pc) auto

lemma pq_inv_head:
  assumes i: "pq_inv L cmds h t tk r b s"
    and e: "in_head (d_pc d) \<Longrightarrow> head_at (2 ^ L) h' r' (fetched_n s) d (d_pc d)"
    and excl: "in_head (d_pc (pq_deq s j)) \<or> (h' = h \<and> r' = r \<and> (in_head (d_pc d) \<longrightarrow> q_head_lock (pq_cq s) \<noteq> LOCKED))"
    and lock: "q_head_lock cq = (if in_head (d_pc d) then LOCKED else if in_head (d_pc (pq_deq s j)) then UNLOCKED else q_head_lock (pq_cq s))"
    and idle: "\<not> in_head (d_pc d) \<Longrightarrow> in_head (d_pc (pq_deq s j)) \<Longrightarrow> r' = h'"
    and q: "sq = (pq_sq s)\<lparr>q_head := of_nat h', q_tickets := tks\<rparr>" "length tks = 2 ^ L"
    and n: "h \<le> h'" "h' \<le> r'" "r' \<le> fetched_n s"
    and p: "proto (2 ^ L) (issued_n s) (rank s) r' tk (\<lambda>p. q_tail_mark (pq_sq s) ! p = LOCKED)"
    and tn: "\<And>p. p < 2 ^ L \<Longrightarrow> tks ! p = of_nat (turn (2 ^ L) (issued_n s) (rank s) r' p)"
  shows "pq_inv L cmds h' t tk r' b (retired j d cq sq s)"
proof -
  note d = pq_invD [OF i] and c = ctl_okD [OF i]
  let ?s = "retired j d cq sq s"
  have out: "\<not> in_head (d_pc (pq_deq s j'))" if "j' \<noteq> j" "in_head (d_pc (pq_deq s j)) \<or> (in_head (d_pc d) \<and> q_head_lock (pq_cq s) \<noteq> LOCKED)" for j'
    using d(3) that unfolding locks_ok_def by blast
  have "turns_ok L tk r' ?s" using p tn by (simp add: turns_ok_def q(1))
  moreover have "calls_ok L cmds ?s" using d(2) by (simp add: calls_ok_def q(1))
  moreover have "data_ok L cmds ?s" using d(6) by (simp add: data_ok_def q(1))
  moreover have "locks_ok ?s"
  proof (cases "in_head (d_pc (pq_deq s j)) \<or> in_head (d_pc d)")
    case True
    then have o: "\<not> in_head (d_pc (pq_deq s j'))" if "j' \<noteq> j" for j' using out [OF that] excl by blast
    show ?thesis using d(3) o lock unfolding locks_ok_def by (simp add: q(1))
  next
    case False
    then show ?thesis using d(3) lock unfolding locks_ok_def by (simp add: q(1)) (metis (no_types))
  qed
  moreover have "head_at (2 ^ L) h' r' (fetched_n s) (pq_deq ?s j') (d_pc (pq_deq ?s j'))" if "in_head (d_pc (pq_deq ?s j'))" for j'
  proof (cases "j' = j")
    case True then show ?thesis using e that by simp
  next
    case False
    then show ?thesis using that out [OF False] excl d(4) unfolding ctl_ok_def by auto
  qed
  then have "ctl_ok L h' t tk r' b ?s"
    using d(4) n lock idle excl tail_at_mono [OF c(10) n(1)] unfolding ctl_ok_def by (auto simp: q(1) split: if_splits)
  moreover have "shape_ok L sq" using d(1) q(2) by (simp add: shape_ok_def q(1))
  ultimately show ?thesis by (simp add: pq_inv_def)
qed

text \<open>The steps that leave the submission queue alone.\<close>

lemma pq_inv_head_same:
  assumes i: "pq_inv L cmds h t tk r b s"
    and e: "in_head (d_pc d) \<Longrightarrow> head_at (2 ^ L) h r (fetched_n s) d (d_pc d)"
    and excl: "in_head (d_pc (pq_deq s j)) \<or> (in_head (d_pc d) \<longrightarrow> q_head_lock (pq_cq s) \<noteq> LOCKED)"
    and lock: "q_head_lock cq = (if in_head (d_pc d) then LOCKED else if in_head (d_pc (pq_deq s j)) then UNLOCKED else q_head_lock (pq_cq s))"
    and idle: "\<not> in_head (d_pc d) \<Longrightarrow> in_head (d_pc (pq_deq s j)) \<Longrightarrow> r = h"
  shows "pq_inv L cmds h t tk r b (retired j d cq (pq_sq s) s)"
proof -
  note c = ctl_okD [OF i] and tn = turns_okD [OF i]
  have "pq_inv L cmds h t tk r b (retired j d cq ((pq_sq s)\<lparr>q_head := of_nat h, q_tickets := q_tickets (pq_sq s)\<rparr>) s)"
    by (rule pq_inv_head [OF i e _ lock idle refl]) (use excl c(1,2) tn in auto)
  then show ?thesis by (simp add: c(7) [symmetric])
qed

lemma head_at_in:
  assumes "pq_inv L cmds h t tk r b s" "in_head (d_pc (pq_deq s j))"
  shows "head_at (2 ^ L) h r (fetched_n s) (pq_deq s j) (d_pc (pq_deq s j))" "q_head_lock (pq_cq s) = LOCKED"
  using assms by (auto simp: pq_inv_def ctl_ok_def locks_ok_def)

lemma head_free:
  assumes "pq_inv L cmds h t tk r b s" "q_head_lock (pq_cq s) \<noteq> LOCKED"
  shows "r = h" "q_head_lock (pq_cq s) = UNLOCKED"
  using assms by (auto simp: pq_inv_def ctl_ok_def locks_ok_def)

lemma poll_entry_out: "d_pc d = P_entry \<Longrightarrow> \<not> in_head (d_pc (poll_entry d cq))"
  by (auto simp: poll_entry_def Let_def)

lemma ring_dist_reach:
  assumes "v < 2 ^ L"
  shows "(h + ring_dist L h v) mod 2 ^ L = v"
proof -
  let ?N = "2 ^ L :: nat"
  have lt: "h mod ?N < ?N" by simp
  have "(h + (v + ?N - h mod ?N) mod ?N) mod ?N = (h mod ?N + (v + ?N - h mod ?N)) mod ?N" by (simp add: mod_add_left_eq mod_add_right_eq)
  also have "h mod ?N + (v + ?N - h mod ?N) = v + ?N" using lt by linarith
  finally show ?thesis using assms by (simp add: ring_dist_def)
qed

lemma ring_dist_count:
  assumes f: "h \<le> f" "f < h + 2 ^ L"
  shows "ring_dist L h (f mod 2 ^ L) = f - h"
proof -
  let ?N = "2 ^ L :: nat"
  have lt: "h mod ?N < ?N" by simp
  have h: "h = h div ?N * ?N + h mod ?N" by (rule div_mult_mod_eq [symmetric])
  have "(f mod ?N + ?N - h mod ?N) mod ?N = (f mod ?N + (?N - h mod ?N)) mod ?N" using lt by simp
  also have "\<dots> = (f + (?N - h mod ?N)) mod ?N" by (rule mod_add_left_eq)
  also have "f + (?N - h mod ?N) = (f - h) + (h div ?N * ?N + ?N)" using lt f(1) h by linarith
  also have "\<dots> mod ?N = (f - h) mod ?N" by (simp add: add.assoc [symmetric])
  also have "\<dots> = f - h" using f by simp
  finally show ?thesis by (simp add: ring_dist_def)
qed

lemma sqhd_ok_bound:
  assumes i: "pq_inv L cmds h t tk r b s" and v: "sqhd_ok L s v" and r: "r = h"
  shows "\<exists>K. h \<le> K \<and> K \<le> fetched_n s \<and> unat v = K mod 2 ^ L"
proof -
  note c = ctl_okD [OF i]
  have dv: "(2 :: nat) ^ L dvd 2 ^ 32" using c(13) by (intro le_imp_power_dvd) simp
  have "unat (q_head (pq_sq s)) mod 2 ^ L = h mod 2 ^ L"
    unfolding c(7) unat_of_nat using mod_mod_cancel [OF dv] by simp
  then have hd: "ring_dist L (unat (q_head (pq_sq s))) x = ring_dist L h x" for x by (simp add: ring_dist_def)
  have "ring_dist L h (fetched_n s mod 2 ^ L) = fetched_n s - h" using c(1-6) r by (intro ring_dist_count) simp_all
  then have "ring_dist L h (unat v) \<le> fetched_n s - h" "unat v < 2 ^ L" using v by (simp_all add: sqhd_ok_def hd dev_head_def)
  then show ?thesis using ring_dist_reach [of "unat v" L h] c(1,2) r
    by (intro exI [of _ "h + ring_dist L h (unat v)"]) simp
qed

lemma deq_move_retired:
  "deq_step (pq_deq s j) (pq_cq s) (pq_sq s) = (d, cq, sq) \<Longrightarrow> deq_move j s = retired j d cq sq s"
  by (simp add: deq_move_def)

lemma lock_or: "x \<in> {LOCKED, UNLOCKED} \<Longrightarrow> x OR LOCKED = (LOCKED :: u32)"
  by auto

lemma deq_step_outside:
  assumes "d_pc d \<in> {P_head, P_entry, P_assert, D_tail, D_wait, D_pos_lock, D_mark, D_check, D_passed, D_release, D_return}"
  shows "\<not> in_head (d_pc (fst (deq_step d cq sq))) \<and> q_head_lock (fst (snd (deq_step d cq sq))) = q_head_lock cq \<and>
    snd (snd (deq_step d cq sq)) = sq \<and> \<not> in_head (d_pc d)"
  using assms by (elim insertE emptyE; simp add: deq_step_def poll_entry_out)

lemma inv_outside:
  assumes i: "pq_inv L cmds h t tk r b s"
    and pc: "d_pc (pq_deq s j) \<in> {P_head, P_entry, P_assert, D_tail, D_wait, D_pos_lock, D_mark, D_check, D_passed, D_release, D_return}"
  shows "pq_inv L cmds h t tk r b (deq_move j s)"
proof -
  obtain d cq sq where st: "deq_step (pq_deq s j) (pq_cq s) (pq_sq s) = (d, cq, sq)" by (metis prod_cases3)
  have "\<not> in_head (d_pc d)" "q_head_lock cq = q_head_lock (pq_cq s)" "sq = pq_sq s" "\<not> in_head (d_pc (pq_deq s j))"
    using deq_step_outside [OF pc, of "pq_cq s" "pq_sq s"] st by simp_all
  then show ?thesis using pq_inv_head_same [OF i, of d j cq] by (simp add: deq_move_retired [OF st])
qed

lemma inv_head_lock:
  assumes i: "pq_inv L cmds h t tk r b s" and pc: "d_pc (pq_deq s j) = D_lock"
  shows "pq_inv L cmds h t tk r b (deq_move j s)"
proof (cases "q_head_lock (pq_cq s) = LOCKED")
  case True
  have st: "deq_step (pq_deq s j) (pq_cq s) (pq_sq s) =
      ((pq_deq s j)\<lparr>d_pc := D_check\<rparr>, (pq_cq s)\<lparr>q_head_lock := q_head_lock (pq_cq s) OR LOCKED\<rparr>, pq_sq s)"
    using pc True by (simp add: deq_step_def)
  show ?thesis unfolding deq_move_retired [OF st] by (rule pq_inv_head_same [OF i]) (simp_all add: pc True)
next
  case False
  have st: "deq_step (pq_deq s j) (pq_cq s) (pq_sq s) =
      ((pq_deq s j)\<lparr>d_pc := D_head\<rparr>, (pq_cq s)\<lparr>q_head_lock := q_head_lock (pq_cq s) OR LOCKED\<rparr>, pq_sq s)"
    using pc False by (simp add: deq_step_def)
  show ?thesis unfolding deq_move_retired [OF st]
    by (rule pq_inv_head_same [OF i]) (use head_free [OF i False] False in \<open>simp_all add: pc lock_or\<close>)
qed

lemma deq_step_inside:
  assumes "d_pc d \<in> {D_head, MH_take, D_doorbell, D_set_head, D_unlock}" "q_head_lock cq = LOCKED"
  shows "(d_pc (fst (deq_step d cq sq)) \<in> {MH_take, MH_cqe, D_set_head, D_unlock} \<and> q_head_lock (fst (snd (deq_step d cq sq))) = LOCKED \<or>
      \<not> in_head (d_pc (fst (deq_step d cq sq))) \<and> q_head_lock (fst (snd (deq_step d cq sq))) = UNLOCKED) \<and>
    snd (snd (deq_step d cq sq)) = sq"
  using assms by (elim insertE emptyE; simp add: deq_step_def Let_def)

lemma inv_inside:
  assumes i: "pq_inv L cmds h t tk r b s"
    and pc: "d_pc (pq_deq s j) \<in> {D_head, MH_take, D_doorbell, D_set_head, D_unlock}"
  shows "pq_inv L cmds h t tk r b (deq_move j s)"
proof -
  obtain d cq sq where st: "deq_step (pq_deq s j) (pq_cq s) (pq_sq s) = (d, cq, sq)" by (metis prod_cases3)
  have hd: "in_head (d_pc (pq_deq s j))" using pc by auto
  have r: "r = h" "q_head_lock (pq_cq s) = LOCKED" using head_at_in [OF i hd] pc by auto
  have q: "d_pc d \<in> {MH_take, MH_cqe, D_set_head, D_unlock} \<and> q_head_lock cq = LOCKED \<or> \<not> in_head (d_pc d) \<and> q_head_lock cq = UNLOCKED" "sq = pq_sq s"
    using deq_step_inside [OF pc r(2), of "pq_sq s"] st by simp_all
  show ?thesis unfolding deq_move_retired [OF st] q(2)
    by (rule pq_inv_head_same [OF i]) (use hd q(1) r in auto)
qed

lemma inv_cqe:
  assumes i: "pq_inv L cmds h t tk r b s" and pc: "d_pc (pq_deq s j) = MH_cqe"
    and v: "sqhd_ok L s (d_new_sq_head (pq_deq (deq_move j s) j))"
  shows "pq_inv L cmds h t tk r b (deq_move j s)"
proof -
  obtain d where st: "deq_step (pq_deq s j) (pq_cq s) (pq_sq s) = (d, pq_cq s, pq_sq s)" "d_pc d = MH_sq_head"
    using pc by (simp add: deq_step_def Let_def)
  have r: "r = h" "q_head_lock (pq_cq s) = LOCKED" using head_at_in [OF i, of j] pc by auto
  have "sqhd_ok L s (d_new_sq_head d)" using v by (simp add: deq_move_retired [OF st(1)])
  note K = sqhd_ok_bound [OF i this r(1)]
  show ?thesis unfolding deq_move_retired [OF st(1)] by (rule pq_inv_head_same [OF i]) (use K r in \<open>simp_all add: st(2) pc\<close>)
qed

lemma inv_sq_head:
  assumes i: "pq_inv L cmds h t tk r b s" and pc: "d_pc (pq_deq s j) = MH_sq_head"
  shows "pq_inv L cmds h t tk r b (deq_move j s)"
proof -
  note c = ctl_okD [OF i]
  have st: "deq_step (pq_deq s j) (pq_cq s) (pq_sq s) = ((pq_deq s j)\<lparr>d_pc := MH_turn, d_loc := q_head (pq_sq s) AND q_qs_minus_1 (pq_sq s), d_sq_move_count := 0\<rparr>, pq_cq s, pq_sq s)"
    using pc by (simp add: deq_step_def)
  have r: "r = h" "q_head_lock (pq_cq s) = LOCKED" "\<exists>K. h \<le> K \<and> K \<le> fetched_n s \<and> unat (d_new_sq_head (pq_deq s j)) = K mod 2 ^ L"
    using head_at_in [OF i, of j] pc by auto
  show ?thesis unfolding deq_move_retired [OF st]
    by (rule pq_inv_head_same [OF i]) (use r in \<open>simp_all add: pc c(7,12) and_qs_minus_1\<close>)
qed

lemma unat_widen: "unat (ucast (v :: u16) :: u32) = unat v"
  using unsigned_less [of v, where 'a = nat] by (simp add: unsigned_ucast_eq take_bit_eq_mod)

lemma inv_turn_loop:
  assumes i: "pq_inv L cmds h t tk r b s" and pc: "d_pc (pq_deq s j) = MH_turn"
  shows "\<exists>r'. pq_inv L cmds h t tk r' b (deq_move j s)"
proof -
  let ?d = "pq_deq s j" and ?sq = "pq_sq s" and ?N = "2 ^ L :: nat"
  note c = ctl_okD [OF i] and tn = turns_okD [OF i]
  have len: "length (q_tickets ?sq) = ?N" using pq_invD(1) [OF i] by (simp add: shape_ok_def)
  have hd: "in_head (d_pc ?d)" using pc by simp
  obtain K where K: "r \<le> K" "K \<le> fetched_n s" "unat (d_new_sq_head ?d) = K mod ?N"
    and l: "d_loc ?d = of_nat (r mod ?N)" "d_sq_move_count ?d = of_nat (r - h)" "q_head_lock (pq_cq s) = LOCKED"
    using head_at_in [OF i hd] by (auto simp: pc)
  have ul: "unat (d_loc ?d) = r mod ?N" using unat_slot [OF c(13)] by (simp add: l(1))
  show ?thesis
  proof (cases "d_loc ?d = ucast (d_new_sq_head ?d)")
    case True
    have sm: "r - h < 2 ^ 32" using c(2-6,14) by simp
    have "d_sq_move_count ?d = 0 \<longleftrightarrow> r = h"
      using unat_of_nat_small [where 'a = 32, of "r - h"] sm c(1) by (auto simp: l(2) word_unat_eq_iff)
    then have z: "d_sq_move_count ?d \<noteq> 0 \<or> r = h" by blast
    have st: "deq_step ?d (pq_cq s) ?sq = (?d\<lparr>d_pc := if d_sq_move_count ?d \<noteq> 0 then MH_set_head else D_doorbell\<rparr>, pq_cq s, ?sq)"
      using pc True by (simp add: deq_step_def)
    have "pq_inv L cmds h t tk r b (deq_move j s)" unfolding deq_move_retired [OF st]
      by (rule pq_inv_head_same [OF i]) (use z hd l in auto)
    then show ?thesis ..
  next
    case False
    have st: "deq_step ?d (pq_cq s) ?sq = (?d\<lparr>d_sq_move_count := d_sq_move_count ?d + 1, d_loc := (d_loc ?d + 1) AND q_qs_minus_1 ?sq\<rparr>,
        pq_cq s, ?sq\<lparr>q_tickets := (q_tickets ?sq)[r mod ?N := q_tickets ?sq ! (r mod ?N) + 1]\<rparr>)"
      using pc False by (simp add: deq_step_def ul)
    have "r mod ?N \<noteq> K mod ?N"
    proof
      assume "r mod ?N = K mod ?N"
      then have "unat (d_loc ?d) = unat (d_new_sq_head ?d)" using ul K(3) by simp
      then have "d_loc ?d = ucast (d_new_sq_head ?d)"
        by (simp only: word_unat_eq_iff unat_widen)
      then show False using False by simp
    qed
    then have rK: "r < K" using K(1) by (cases "r = K") auto
    have loc: "(d_loc ?d + 1) AND q_qs_minus_1 ?sq = of_nat (Suc r mod ?N)"
      using and_qs_minus_1 [of "Suc (r mod ?N)" L] by (simp add: l(1) c(12) add.commute mod_Suc_eq)
    have ex: "\<exists>Ka\<ge>Suc r. Ka \<le> fetched_n s \<and> K mod ?N = Ka mod ?N" using rK K(2) by (intro exI [of _ K]) simp
    have "pq_inv L cmds h t tk (Suc r) b (deq_move j s)" unfolding deq_move_retired [OF st]
    proof (rule pq_inv_head [OF i])
      show "?sq\<lparr>q_tickets := (q_tickets ?sq)[r mod ?N := q_tickets ?sq ! (r mod ?N) + 1]\<rparr> =
          ?sq\<lparr>q_head := of_nat h, q_tickets := (q_tickets ?sq)[r mod ?N := q_tickets ?sq ! (r mod ?N) + 1]\<rparr>" by (simp add: c(7) [symmetric])
      show "proto ?N (issued_n s) (rank s) (Suc r) tk (\<lambda>p. q_tail_mark ?sq ! p = LOCKED)"
        using proto_retire [OF tn(1)] rK K(2) c(3,5) by simp
    qed (use pc K rK l loc c(1) tn(2) ex in \<open>auto simp: len turn_retire nth_list_update Suc_diff_le\<close>)
    then show ?thesis ..
  qed
qed

lemma inv_set_head:
  assumes i: "pq_inv L cmds h t tk r b s" and pc: "d_pc (pq_deq s j) = MH_set_head"
  shows "pq_inv L cmds r t tk r b (deq_move j s)"
proof -
  let ?sq = "pq_sq s"
  note c = ctl_okD [OF i] and tn = turns_okD [OF i]
  have hd: "in_head (d_pc (pq_deq s j))" using pc by simp
  have l: "d_sq_move_count (pq_deq s j) = of_nat (r - h)" "q_head_lock (pq_cq s) = LOCKED" using head_at_in [OF i hd] by (simp_all add: pc)
  have "q_head ?sq + d_sq_move_count (pq_deq s j) = of_nat (h + (r - h))" by (simp only: c(7) l(1) of_nat_add)
  then have st: "deq_step (pq_deq s j) (pq_cq s) ?sq = ((pq_deq s j)\<lparr>d_pc := D_doorbell\<rparr>, pq_cq s, ?sq\<lparr>q_head := of_nat r, q_tickets := q_tickets ?sq\<rparr>)"
    using pc c(1) by (simp add: deq_step_def)
  have len: "length (q_tickets ?sq) = 2 ^ L" using pq_invD(1) [OF i] by (simp add: shape_ok_def)
  show ?thesis unfolding deq_move_retired [OF st]
    by (rule pq_inv_head [OF i _ _ _ _ refl len]) (use hd l c(1,2) tn in auto)
qed

lemma deq_move_inv:
  assumes i: "pq_inv L cmds h t tk r b s"
    and v: "d_pc (pq_deq s j) = MH_cqe \<longrightarrow> sqhd_ok L s (d_new_sq_head (pq_deq (deq_move j s) j))"
  shows "\<exists>h' r'. pq_inv L cmds h' t tk r' b (deq_move j s)"
proof (cases "d_pc (pq_deq s j)")
  case D_lock then show ?thesis using inv_head_lock [OF i] by blast
next
  case MH_cqe then show ?thesis using inv_cqe [OF i] v by blast
next
  case MH_sq_head then show ?thesis using inv_sq_head [OF i] by blast
next
  case MH_turn then show ?thesis using inv_turn_loop [OF i] by blast
next
  case MH_set_head then show ?thesis using inv_set_head [OF i] by blast
qed (use inv_outside [OF i, of j] inv_inside [OF i, of j] in auto)

subsection \<open>The controller\<close>

lemma head_at_mono: "head_at N h r f d pc \<Longrightarrow> f \<le> f' \<Longrightarrow> head_at N h r f' d pc"
  by (cases pc) (auto intro: order_trans)

lemma copied_mono: "copied slot cmd f k pc \<Longrightarrow> f \<le> f' \<Longrightarrow> copied slot cmd f' k pc"
  by (cases pc) auto

lemma rank_frame [simp]:
  "call (s\<lparr>pq_fetched := fs\<rparr>) = call s" "rank (s\<lparr>pq_fetched := fs\<rparr>) = rank s"
  "call (s\<lparr>pq_cq := cq\<rparr>) = call s" "rank (s\<lparr>pq_cq := cq\<rparr>) = rank s"
  by (simp_all add: rank_def call_def fun_eq_iff)

lemma fetch_next:
  assumes i: "pq_inv L cmds h t tk r b s" and f: "dev_head L s \<noteq> unat (q_db_val (pq_sq s))"
  shows "fetched_n s < b" "fetched_n s < issued_n s"
    "q_ring (pq_sq s) ! dev_head L s = cmds (pq_issued s ! fetched_n s)"
proof -
  note c = ctl_okD [OF i] and p = turns_okD(1) [OF i] and d = pq_invD [OF i]
  have "fetched_n s \<noteq> b" using f unat_slot [OF c(13)] by (auto simp: c(9) dev_head_def)
  then show lt: "fetched_n s < b" using c(3) by simp
  then show n: "fetched_n s < issued_n s" using c(5) protoD(3) [OF p] by simp
  have st: "3 \<le> stage (e_pc (call s (fetched_n s)))" using protoD(5) [OF p] lt c(5) by (simp add: rank_def)
  have "copied (q_ring (pq_sq s) ! (fetched_n s mod 2 ^ L)) (e_cmd (call s (fetched_n s))) (fetched_n s) (fetched_n s) (e_pc (call s (fetched_n s)))"
    using d(6) n by (simp add: data_ok_def)
  then have "q_ring (pq_sq s) ! (fetched_n s mod 2 ^ L) = e_cmd (call s (fetched_n s))"
    using st by (cases "e_pc (call s (fetched_n s))") auto
  then show "q_ring (pq_sq s) ! dev_head L s = cmds (pq_issued s ! fetched_n s)"
    using d(2) by (simp add: dev_head_def calls_ok_def call_def)
qed

lemma inv_fetch:
  assumes i: "pq_inv L cmds h t tk r b s" and f: "dev_head L s \<noteq> unat (q_db_val (pq_sq s))"
  shows "pq_inv L cmds h t tk r b (s\<lparr>pq_fetched := pq_fetched s @ [q_ring (pq_sq s) ! dev_head L s]\<rparr>)" (is "pq_inv _ _ _ _ _ _ _ ?s")
proof -
  note d = pq_invD [OF i] and n = fetch_next [OF i f]
  have "data_ok L cmds ?s"
    using d(6) n(2,3) unfolding data_ok_def by (auto simp: take_Suc_conv_app_nth intro: copied_mono)
  moreover have "ctl_ok L h t tk r b ?s"
    using d(4) n(1) unfolding ctl_ok_def by (auto intro: head_at_mono)
  moreover have "turns_ok L tk r ?s" using d(5) by (simp add: turns_ok_def)
  moreover have "calls_ok L cmds ?s" using d(2) by (simp add: calls_ok_def)
  moreover have "locks_ok ?s" using d(3) unfolding locks_ok_def by simp
  ultimately show ?thesis using d(1) by (simp add: pq_inv_def)
qed

lemma inv_post:
  assumes i: "pq_inv L cmds h t tk r b s"
  shows "pq_inv L cmds h t tk r b (s\<lparr>pq_cq := (pq_cq s)\<lparr>q_ring := xs\<rparr>\<rparr>)" (is "pq_inv _ _ _ _ _ _ _ ?s")
proof -
  note d = pq_invD [OF i]
  have "turns_ok L tk r ?s" using d(5) by (simp add: turns_ok_def)
  moreover have "calls_ok L cmds ?s" using d(2) by (simp add: calls_ok_def)
  moreover have "data_ok L cmds ?s" using d(6) by (simp add: data_ok_def)
  moreover have "locks_ok ?s" using d(3) unfolding locks_ok_def by simp
  moreover have "ctl_ok L h t tk r b ?s" using d(4) unfolding ctl_ok_def by simp
  ultimately show ?thesis using d(1) by (simp add: pq_inv_def)
qed

subsection \<open>Reachable states\<close>

lemma inv_start:
  assumes "1 \<le> L" "L \<le> 16" "\<forall>i. length (cmds i) = 16" "length sq_mem = 2 ^ L" "\<forall>p<2 ^ L. length (sq_mem ! p) = 16"
  shows "pq_inv L cmds 0 0 0 0 0 (pq_init L cmds cids sq_mem cq_mem)" (is "pq_inv _ _ _ _ _ _ _ ?s")
proof -
  have "shape_ok L (pq_sq ?s)" using assms by (simp add: shape_ok_def pq_init_def init_queue_def)
  moreover have "calls_ok L cmds ?s" using assms by (simp add: calls_ok_def pq_init_def init_queue_def new_enq_def)
  moreover have "locks_ok ?s" by (simp add: locks_ok_def pq_init_def init_queue_def new_enq_def new_deq_def)
  moreover have "ctl_ok L 0 0 0 0 0 ?s" by (simp add: ctl_ok_def pq_init_def init_queue_def new_enq_def new_deq_def)
  moreover have "turns_ok L 0 0 ?s" by (simp add: turns_ok_def proto_def turn_def pq_init_def init_queue_def)
  moreover have "data_ok L cmds ?s" by (simp add: data_ok_def pq_init_def)
  ultimately show ?thesis by (simp add: pq_inv_def)
qed

lemma issued_grows: "pq_step L s s' \<Longrightarrow> issued_n s \<le> issued_n s'"
  by (erule pq_step.cases) (auto simp: enq_move_def deq_move_def Let_def split: prod.splits)

lemma pq_step_inv:
  assumes "pq_step L s s'" "pq_inv L cmds h t tk r b s" "issued_n s' \<le> 2 ^ 32"
  shows "\<exists>h t tk r b. pq_inv L cmds h t tk r b s'"
  using assms
proof cases
  case (enq i) then show ?thesis using enq_move_inv [OF assms(2)] assms(3) by blast
next
  case (deq j) then show ?thesis using deq_move_inv [OF assms(2)] by blast
next
  case fetch then show ?thesis using inv_fetch [OF assms(2)] by blast
next
  case (post p cpl) then show ?thesis using inv_post [OF assms(2)] by blast
qed

lemma pq_reachable_inv:
  assumes "pq_reachable L cmds s" "1 \<le> L" "L \<le> 16" "\<forall>i. length (cmds i) = 16" "issued_n s \<le> 2 ^ 32"
  shows "\<exists>h t tk r b. pq_inv L cmds h t tk r b s"
  using assms
proof (induction rule: pq_reachable.induct)
  case (start sq_mem cq_mem cids)
  then show ?case using inv_start [of L cmds sq_mem cids cq_mem] by blast
next
  case (step s s')
  then show ?case using issued_grows [OF step.hyps(2)] pq_step_inv [OF step.hyps(2)] by (meson le_trans)
qed

end
