(* ===== verification/Parallel_Run.thy ===== *)
theory Parallel_Run
  imports Parallel_Retire
begin

text \<open>
  Runs of the shared queues: a call that is alone enqueues its command, the controller fetches and completes it, and a
  second call retires the completion. After each such round the queues are idle again with every index one further,
  so a state with any number of commands, up to the width of the ticket counter, is reached.
\<close>

unbundle bit_operations_syntax

subsection \<open>Steps of one call\<close>

fun enq_iter :: "nat \<Rightarrow> enq \<times> nvm_queue \<Rightarrow> (enq \<times> nvm_queue) option" where
  "enq_iter 0 x = Some x"
| "enq_iter (Suc n) (e, sq) = (if e_pc e = E_ticket then None else enq_iter n (enq_step e sq))"

fun deq_iter :: "nat \<Rightarrow> deq \<times> nvm_queue \<times> nvm_queue \<Rightarrow> (deq \<times> nvm_queue \<times> nvm_queue) option" where
  "deq_iter 0 x = Some x"
| "deq_iter (Suc n) (d, cq, sq) = (if d_pc d = MH_cqe then None else deq_iter n (deq_step d cq sq))"

lemma enq_iter_steps:
  assumes "enq_iter n (pq_enq s i, pq_sq s) = Some (e, sq)"
  shows "(pq_step L)\<^sup>*\<^sup>* s (moved i e sq s)"
  using assms
proof (induction n arbitrary: s)
  case 0
  then have "moved i e sq s = s" by (cases s) auto
  then show ?case by (simp only: rtranclp.rtrancl_refl)
next
  case (Suc n)
  obtain e1 sq1 where st: "enq_step (pq_enq s i) (pq_sq s) = (e1, sq1)" by (cases "enq_step (pq_enq s i) (pq_sq s)")
  let ?s = "moved i e1 sq1 s"
  have pc: "e_pc (pq_enq s i) \<noteq> E_ticket" "enq_iter n (e1, sq1) = Some (e, sq)" using Suc.prems st by (auto split: if_splits)
  have "pq_step L s ?s" using pq_step.enq [of L s i] enq_move_moved [OF pc(1) st] by simp
  moreover have "(pq_step L)\<^sup>*\<^sup>* ?s (moved i e sq ?s)" using pc(2) by (intro Suc.IH) simp
  moreover have "moved i e sq ?s = moved i e sq s" by simp
  ultimately show ?case by (metis converse_rtranclp_into_rtranclp)
qed

lemma deq_iter_steps:
  assumes "deq_iter n (pq_deq s j, pq_cq s, pq_sq s) = Some (d, cq, sq)"
  shows "(pq_step L)\<^sup>*\<^sup>* s (retired j d cq sq s)"
  using assms
proof (induction n arbitrary: s)
  case 0
  then have "retired j d cq sq s = s" by (cases s) auto
  then show ?case by (simp only: rtranclp.rtrancl_refl)
next
  case (Suc n)
  obtain d1 cq1 sq1 where st: "deq_step (pq_deq s j) (pq_cq s) (pq_sq s) = (d1, cq1, sq1)" by (metis prod_cases3)
  let ?s = "retired j d1 cq1 sq1 s"
  have pc: "d_pc (pq_deq s j) \<noteq> MH_cqe" "deq_iter n (d1, cq1, sq1) = Some (d, cq, sq)" using Suc.prems st by (auto split: if_splits)
  have "pq_step L s ?s" using pq_step.deq [of s j L] deq_move_retired [OF st] pc(1) by simp
  moreover have "(pq_step L)\<^sup>*\<^sup>* ?s (retired j d cq sq ?s)" using pc(2) by (intro Suc.IH) simp
  moreover have "retired j d cq sq ?s = retired j d cq sq s" by simp
  ultimately show ?case by (metis converse_rtranclp_into_rtranclp)
qed

subsection \<open>A call of \<open>sq_enqueue\<close> that is alone\<close>

lemma enq_alone_copy:
  assumes "e_pc e = E_wait" "ucast (q_tickets sq ! unat (e_pos e)) = e_id e"
  shows "\<exists>ring. enq_iter 6 (e, sq) = Some
    (e\<lparr>e_pc := E_check\<rparr>, sq\<lparr>q_ring := ring, q_tail_mark := (q_tail_mark sq)[unat (e_pos e) := LOCKED]\<rparr>)"
  by (rule exI) (simp add: eval_nat_numeral enq_step_def assms)

lemma enq_iter_add: "enq_iter m x = Some y \<Longrightarrow> enq_iter n y = z \<Longrightarrow> enq_iter (m + n) x = z"
  by (induction m x rule: enq_iter.induct) (auto split: if_splits)

lemma enq_alone_lock:
  assumes "e_pc e = E_check" "q_tail_lock sq = UNLOCKED" "q_tail_mark sq ! unat (e_pos e) = LOCKED"
  shows "enq_iter 4 (e, sq) = Some (e\<lparr>e_pc := MT_full, e_cur_tail := q_tail sq, e_count := 0\<rparr>, sq\<lparr>q_tail_lock := LOCKED\<rparr>)"
  using assms by (simp add: eval_nat_numeral enq_step_def)

lemma enq_alone_take:
  assumes "e_pc e = MT_full" "(e_cur_tail e + 1) AND q_qs_minus_1 sq \<noteq> q_head sq AND q_qs_minus_1 sq"
    "(2 + e_cur_tail e) AND q_qs_minus_1 sq \<noteq> q_head sq AND q_qs_minus_1 sq" "e_count e = 0"
    "unat (e_cur_tail e AND q_qs_minus_1 sq) = p" "unat ((e_cur_tail e + 1) AND q_qs_minus_1 sq) = p'"
    "q_tail_mark sq ! p = LOCKED" "p' \<noteq> p" "q_tail_mark sq ! p' = UNLOCKED"
  shows "enq_iter 5 (e, sq) = Some (e\<lparr>e_pc := E_doorbell, e_count := 1\<rparr>, 
    sq\<lparr>q_tail_mark := (q_tail_mark sq)[p := UNLOCKED, p' := UNLOCKED], q_head_lock := q_head_lock sq + 1\<rparr>)"
  using assms by (simp add: eval_nat_numeral enq_step_def Let_def)

lemma enq_alone_finish:
  assumes "e_pc e = E_doorbell" "q_tail_mark sq ! unat (e_pos e) = UNLOCKED"
  shows "enq_iter 5 (e, sq) = Some (e\<lparr>e_pc := E_return\<rparr>,
    sq\<lparr>q_db_val := (e_cur_tail e + e_count e) AND q_qs_minus_1 sq, q_tail := e_cur_tail e + e_count e, q_tail_lock := UNLOCKED,
       q_tickets := (q_tickets sq)[unat (e_pos e) := q_tickets sq ! unat (e_pos e) + 1]\<rparr>)"
  using assms by (simp add: eval_nat_numeral enq_step_def)

text \<open>The queues at rest after \<open>n\<close> commands. The slot of ticket \<open>k\<close> has had its turn twice for every earlier ticket of the slot.\<close>

definition slot_turns :: "nat \<Rightarrow> nat \<Rightarrow> u32 list" where
  "slot_turns L n = map (\<lambda>p. of_nat (2 * card {k. k < n \<and> k mod 2 ^ L = p})) [0..<2 ^ L]"

definition sq_rest :: "nat \<Rightarrow> nat \<Rightarrow> nat \<Rightarrow> nvm_queue \<Rightarrow> bool" where
  "sq_rest L n h sq \<longleftrightarrow> q_qs_minus_1 sq = 2 ^ L - 1 \<and> q_qs_log2 sq = of_nat L \<and> q_tail_lock sq = UNLOCKED \<and>
     q_tail sq = of_nat n \<and> q_in_ticket sq = of_nat n \<and> q_tail_mark sq = replicate (2 ^ L) UNLOCKED \<and>
     q_head sq = of_nat h \<and> q_db_val sq = of_nat (n mod 2 ^ L)"

definition cq_rest :: "nat \<Rightarrow> nat \<Rightarrow> nvm_queue \<Rightarrow> bool" where
  "cq_rest L h cq \<longleftrightarrow> q_qs_minus_1 cq = 2 ^ L - 1 \<and> q_qs_log2 cq = of_nat L \<and> q_head cq = of_nat h \<and> q_head_lock cq = UNLOCKED \<and>
     q_head_mark cq = replicate (2 ^ L) UNLOCKED \<and> q_pos_locks cq = replicate (2 ^ L) 0 \<and> length (q_ring cq) = 2 ^ L"

text \<open>The first \<open>n\<close> calls of \<open>sq_enqueue\<close> have returned, the first \<open>h\<close> commands have been fetched and retired.\<close>

definition rest :: "nat \<Rightarrow> (nat \<Rightarrow> entry) \<Rightarrow> nat \<Rightarrow> nat \<Rightarrow> pq \<Rightarrow> bool" where
  "rest L cmds n h s \<longleftrightarrow> sq_rest L n h (pq_sq s) \<and> cq_rest L h (pq_cq s) \<and> (\<forall>i<n. e_pc (pq_enq s i) = E_return) \<and>
     (\<forall>i\<ge>n. pq_enq s i = new_enq (cmds i)) \<and> (\<forall>j\<ge>h. pq_deq s j = new_deq 0) \<and> pq_issued s = [0..<n] \<and> fetched_n s = h"

lemma card_slot_Suc:
  "card {k. k < Suc n \<and> k mod N = p} = (if n mod N = p then Suc (card {k. k < n \<and> k mod N = p}) else card {k. k < n \<and> k mod N = p})"
proof -
  have "{k. k < Suc n \<and> k mod N = p} = (if n mod N = p then insert n {k. k < n \<and> k mod N = p} else {k. k < n \<and> k mod N = p})"
    by (auto simp: less_Suc_eq)
  then show ?thesis by simp
qed

lemma slot_turns:
  shows "length (slot_turns L n) = 2 ^ L" "slot_turns L n ! (n mod 2 ^ L) = of_nat (2 * (n div 2 ^ L))"
    "slot_turns L (Suc n) = (slot_turns L n)[n mod 2 ^ L := slot_turns L n ! (n mod 2 ^ L) + 1 + 1]"
proof -
  show "length (slot_turns L n) = 2 ^ L" by (simp add: slot_turns_def)
  show "slot_turns L n ! (n mod 2 ^ L) = of_nat (2 * (n div 2 ^ L))" by (simp add: slot_turns_def card_slot)
  show "slot_turns L (Suc n) = (slot_turns L n)[n mod 2 ^ L := slot_turns L n ! (n mod 2 ^ L) + 1 + 1]"
    by (rule nth_equalityI) (auto simp: slot_turns_def nth_list_update card_slot_Suc)
qed

lemma ring_next:
  assumes "2 \<le> L" "L \<le> 16"
  shows "Suc n mod 2 ^ L \<noteq> n mod 2 ^ L" "Suc (Suc n) mod 2 ^ L \<noteq> n mod 2 ^ L"
    "((of_nat n :: u32) + 1) AND (2 ^ L - 1) = of_nat (Suc n mod 2 ^ L)"
    "(2 + (of_nat n :: u32)) AND (2 ^ L - 1) = of_nat (Suc (Suc n) mod 2 ^ L)"
    "(of_nat (x mod 2 ^ L) :: u32) = of_nat (y mod 2 ^ L) \<longleftrightarrow> x mod 2 ^ L = y mod 2 ^ L"
proof -
  have "4 \<le> (2 :: nat) ^ L" using power_increasing [OF assms(1), of "2 :: nat"] by simp
  then show "Suc n mod 2 ^ L \<noteq> n mod 2 ^ L" "Suc (Suc n) mod 2 ^ L \<noteq> n mod 2 ^ L" by (auto simp: mod_Suc)
  show "((of_nat n :: u32) + 1) AND (2 ^ L - 1) = of_nat (Suc n mod 2 ^ L)"
    "(2 + (of_nat n :: u32)) AND (2 ^ L - 1) = of_nat (Suc (Suc n) mod 2 ^ L)"
    using and_qs_minus_1 [of "Suc n" L] and_qs_minus_1 [of "Suc (Suc n)" L] by (simp_all add: add.commute)
  show "(of_nat (x mod 2 ^ L) :: u32) = of_nat (y mod 2 ^ L) \<longleftrightarrow> x mod 2 ^ L = y mod 2 ^ L"
    using unat_slot [OF assms(2)] by (simp add: word_unat_eq_iff)
qed

lemma enq_alone_move:
  assumes L: "2 \<le> L" "L \<le> 16" and e: "e_pc e = E_check" "e_pos e = of_nat (n mod 2 ^ L)"
    and q: "q_qs_minus_1 sq = 2 ^ L - 1" "q_tail_lock sq = UNLOCKED" "q_head sq = of_nat n" "q_tail sq = of_nat n"
    and k: "q_tail_mark sq = (replicate (2 ^ L) UNLOCKED)[n mod 2 ^ L := LOCKED]"
  shows "enq_iter (4 + (5 + 5)) (e, sq) = Some (e\<lparr>e_pc := E_return, e_cur_tail := of_nat n, e_count := 1\<rparr>,
      sq\<lparr>q_tail_mark := replicate (2 ^ L) UNLOCKED, q_head_lock := q_head_lock sq + 1, q_db_val := of_nat (Suc n mod 2 ^ L),
         q_tail := of_nat (Suc n), q_tail_lock := UNLOCKED,
         q_tickets := (q_tickets sq)[n mod 2 ^ L := q_tickets sq ! (n mod 2 ^ L) + 1]\<rparr>)"
proof -
  note r = ring_next(1-4) [OF L, of n] ring_next(5) [OF L] and u = unat_slot [OF L(2)]
  have clr: "(replicate (2 ^ L) (0 :: u32))[n mod 2 ^ L := 0, Suc n mod 2 ^ L := 0] = replicate (2 ^ L) 0"
    by (simp add: list_eq_iff_nth_eq nth_list_update)
  let ?e = "e\<lparr>e_pc := MT_full, e_cur_tail := of_nat n, e_count := 0\<rparr>" and ?sq = "sq\<lparr>q_tail_lock := LOCKED\<rparr>"
  have lock: "enq_iter 4 (e, sq) = Some (?e, ?sq)" using enq_alone_lock [of e sq] by (simp add: e q k u)
  have "enq_iter 5 (?e, ?sq) = Some (?e\<lparr>e_pc := E_doorbell, e_count := 1\<rparr>,
      ?sq\<lparr>q_tail_mark := (q_tail_mark ?sq)[n mod 2 ^ L := UNLOCKED, Suc n mod 2 ^ L := UNLOCKED], q_head_lock := q_head_lock ?sq + 1\<rparr>)"
    by (rule enq_alone_take) (simp_all add: e q k u r and_qs_minus_1 nth_list_update_neq [OF not_sym])
  note take = enq_iter_add [OF this enq_alone_finish]
  show ?thesis by (rule enq_iter_add [OF lock], subst take) (simp_all add: e q k u r and_qs_minus_1 clr add.commute [of 1 "of_nat n"])
qed

lemma enq_alone:
  assumes L: "2 \<le> L" "L \<le> 16" and n: "n < 2 ^ 32" and r: "rest L cmds n n s" "q_tickets (pq_sq s) = slot_turns L n"
  shows "\<exists>s'. (pq_step L)\<^sup>*\<^sup>* s s' \<and> rest L cmds (Suc n) n s' \<and>
    q_tickets (pq_sq s') = (slot_turns L n)[n mod 2 ^ L := slot_turns L n ! (n mod 2 ^ L) + 1]"
proof -
  note q = r(1) [unfolded rest_def sq_rest_def] and u = unat_slot [OF L(2)]
  let ?sq = "(pq_sq s)\<lparr>q_in_ticket := of_nat (Suc n)\<rparr>"
  let ?e = "(new_enq (cmds n))\<lparr>e_pc := E_wait, e_pos := of_nat (n mod 2 ^ L), e_id := of_nat (2 * (n div 2 ^ L))\<rparr>"
  let ?s = "enq_move n s"
  have s1: "?s = s\<lparr>pq_sq := ?sq, pq_enq := (pq_enq s)(n := ?e), pq_issued := [0..<Suc n]\<rparr>"
    using q get_id_ticket [OF n L(2)] by (simp add: enq_move_def enq_step_def new_enq_def and_qs_minus_1 add.commute)
  have id: "ucast (q_tickets ?sq ! unat (e_pos ?e)) = e_id ?e"
    using turn_eq_id [OF order_refl n, of L] L(1) by (simp add: r(2) u slot_turns(2))
  obtain ring where c: "enq_iter 6 (?e, ?sq) = Some (?e\<lparr>e_pc := E_check\<rparr>,
      ?sq\<lparr>q_ring := ring, q_tail_mark := (q_tail_mark ?sq)[unat (e_pos ?e) := LOCKED]\<rparr>)"
    using enq_alone_copy [of ?e ?sq] id by auto
  obtain e sq where m: "enq_iter (6 + (4 + (5 + 5))) (?e, ?sq) = Some (e, sq)" "e_pc e = E_return" "sq_rest L (Suc n) n sq"
    "q_tickets sq = (slot_turns L n)[n mod 2 ^ L := slot_turns L n ! (n mod 2 ^ L) + 1]"
    using enq_iter_add [OF c enq_alone_move [OF L, of _ n]] q r(2) by (simp add: u sq_rest_def)
  have "(pq_step L)\<^sup>*\<^sup>* ?s (moved n e sq ?s)" using m(1) by (intro enq_iter_steps) (simp add: s1)
  then have "(pq_step L)\<^sup>*\<^sup>* s (moved n e sq ?s)" by (rule converse_rtranclp_into_rtranclp [of "pq_step L", OF pq_step.enq])
  moreover have "rest L cmds (Suc n) n (moved n e sq ?s)" using q m(2,3) by (auto simp: rest_def s1 less_Suc_eq)
  ultimately show ?thesis using m(4) by (intro exI [of _ "moved n e sq ?s"]) simp
qed

subsection \<open>A call of \<open>cq_poll\<close> and \<open>cq_dequeue\<close> that is alone\<close>

lemma deq_iter_add: "deq_iter m x = Some y \<Longrightarrow> deq_iter n y = z \<Longrightarrow> deq_iter (m + n) x = z"
  by (induction m x rule: deq_iter.induct) (auto split: if_splits)

text \<open>A completion of command 0 without error, in the phase a poll at head \<open>n\<close> looks for, with \<open>v\<close> as SQHD.\<close>

definition good_cpl :: "nat \<Rightarrow> u32 \<Rightarrow> u32 \<Rightarrow> entry" where
  "good_cpl L n v = [0, 0, v, if NOT (drop_bit L n) AND 1 \<noteq> 0 then 0x10000 else 0]"

lemma unat_widen64: "unat (ucast (x :: u32) :: u64) = unat x"
  using unsigned_less [of x, where 'a = nat] by (simp add: unsigned_ucast_eq take_bit_eq_mod)

lemma poll_entry_hit:
  assumes "d_i d = 0" "d_cid d = 0" "(0 :: u64) < ucast (q_qs_minus_1 cq)" "unat (q_qs_log2 cq) = L"
    "q_ring cq ! unat (d_head d AND q_qs_minus_1 cq) = good_cpl L (d_head d) v"
  shows "poll_entry d cq = d\<lparr>d_pc := D_tail, d_pos := ucast (d_head d AND q_qs_minus_1 cq)\<rparr>"
proof -
  have c: "ucast (ucast (d_head d) :: u64) = d_head d" by (rule bit_word_eqI) (simp add: bit_unsigned_iff)
  have "drop_bit 17 (65536 :: u32) = 0" "(65536 :: u32) AND 65536 \<noteq> 0" "(65536 :: u32) AND 65535 = 0" by simp_all
  then show ?thesis using assms(3) by (simp add: poll_entry_def Let_def assms(1,2,4,5) c good_cpl_def numeral_3_eq_3)
qed

lemma deq_alone_poll:
  assumes L: "1 \<le> L" "L \<le> 16" and q: "q_qs_minus_1 cq = 2 ^ L - 1" "q_qs_log2 cq = of_nat L" "q_head cq = of_nat n"
    and c: "q_ring cq ! (n mod 2 ^ L) = good_cpl L (of_nat n) v"
  shows "deq_iter 2 (new_deq 0, cq, sq) = Some ((new_deq 0)\<lparr>d_pc := D_tail, d_head := of_nat n, d_pos := ucast (of_nat (n mod 2 ^ L) :: u32)\<rparr>, cq, sq)"
proof -
  have "(2 ^ L - 1 :: u32) = of_nat ((2 ^ L - 1) mod 2 ^ L)" by simp
  then have "unat (2 ^ L - 1 :: u32) = 2 ^ L - 1" using unat_slot [OF L(2), of "2 ^ L - 1"] by simp
  moreover have "1 < (2 :: nat) ^ L" using L(1) by (intro one_less_power) simp_all
  ultimately have m: "(0 :: u64) < ucast (2 ^ L - 1 :: u32)" by (simp only: word_less_nat_alt unat_widen64) simp
  have l: "unat (of_nat L :: u32) = L" using L(2) by (intro unat_of_nat_small) simp
  let ?d = "(new_deq 0)\<lparr>d_pc := P_entry, d_head := of_nat n, d_i := 0\<rparr>"
  have "poll_entry ?d cq = ?d\<lparr>d_pc := D_tail, d_pos := ucast (of_nat (n mod 2 ^ L) :: u32)\<rparr>"
    using poll_entry_hit [of ?d cq L v] c m unat_slot [OF L(2), of n] by (simp add: q l and_qs_minus_1 new_deq_def)
  then show ?thesis by (simp add: numeral_2_eq_2 deq_step_def new_deq_def q)
qed

lemma deq_alone_mark:
  assumes "d_pc d = D_tail" "unat (d_pos d) = p" "q_pos_locks cq ! p = 0" "p < length (q_head_mark cq)" "q_head_lock cq = UNLOCKED"
  shows "deq_iter 7 (d, cq, sq) = Some (d\<lparr>d_pc := MH_take, d_cur_head := q_head cq, d_count := 0\<rparr>,
    cq\<lparr>q_tail := q_tail cq + 1, q_pos_locks := (q_pos_locks cq)[p := 1], q_head_mark := (q_head_mark cq)[p := LOCKED], q_head_lock := LOCKED\<rparr>, sq)"
  using assms by (simp add: eval_nat_numeral deq_step_def)

lemma deq_alone_take:
  assumes "d_pc d = MH_take" "d_count d = 0" "unat (d_cur_head d AND q_qs_minus_1 cq) = p" "unat ((d_cur_head d + 1) AND q_qs_minus_1 cq) = p'"
    "q_head_mark cq ! p = LOCKED" "p' \<noteq> p" "q_head_mark cq ! p' = UNLOCKED"
  shows "deq_iter 2 (d, cq, sq) = Some (d\<lparr>d_pc := MH_cqe, d_count := 1\<rparr>, cq\<lparr>q_head_mark := (q_head_mark cq)[p := UNLOCKED, p' := UNLOCKED]\<rparr>, sq)"
  using assms by (simp add: eval_nat_numeral deq_step_def Let_def)

lemma deq_alone_retire:
  assumes "d_pc d = MH_sq_head" "q_head sq AND q_qs_minus_1 sq = loc" "loc \<noteq> ucast (d_new_sq_head d)"
    "(loc + 1) AND q_qs_minus_1 sq = ucast (d_new_sq_head d)" "unat loc = p"
  shows "deq_iter 4 (d, cq, sq) = Some (d\<lparr>d_pc := D_doorbell, d_loc := ucast (d_new_sq_head d), d_sq_move_count := 1\<rparr>, cq,
    sq\<lparr>q_tickets := (q_tickets sq)[p := q_tickets sq ! p + 1], q_head := q_head sq + 1\<rparr>)"
  using assms by (simp add: eval_nat_numeral deq_step_def)

lemma deq_alone_finish:
  assumes "d_pc d = D_doorbell" "unat (d_pos d) = p" "q_head_mark cq ! p = UNLOCKED" "d_cur_head d + d_count d \<noteq> 0"
  shows "deq_iter 6 (d, cq, sq) = Some (d\<lparr>d_pc := D_return\<rparr>,
    cq\<lparr>q_db_val := (d_cur_head d + d_count d) AND q_qs_minus_1 cq, q_head := d_cur_head d + d_count d, q_head_lock := UNLOCKED,
       q_pos_locks := (q_pos_locks cq)[p := 0]\<rparr>, sq)"
  using assms by (simp add: eval_nat_numeral deq_step_def head_passed_def word_neq_0_conv)

lemma unat_slot16: "L \<le> 16 \<Longrightarrow> unat (ucast (of_nat (x mod 2 ^ L) :: u32) :: u16) = x mod 2 ^ L"
proof -
  assume L: "L \<le> 16"
  then have "(2 :: nat) ^ L \<le> 2 ^ 16" by (rule power_increasing) simp
  then have "x mod 2 ^ L < 2 ^ 16" by (rule less_le_trans [OF mod_less_divisor, rotated]) simp
  then show ?thesis using unat_slot [OF L, of x] by (simp add: unsigned_ucast_eq take_bit_eq_mod unat_mod)
qed

text \<open>Up to the completion entry, and from there to the return.\<close>

lemma deq_alone_first:
  assumes L: "2 \<le> L" "L \<le> 16" and q: "cq_rest L n cq" and c: "q_ring cq ! (n mod 2 ^ L) = good_cpl L (of_nat n) v"
  shows "\<exists>d cq'. deq_iter (2 + (7 + 2)) (new_deq 0, cq, sq) = Some (d, cq', sq) \<and> d_pc d = MH_cqe \<and> d_cur_head d = of_nat n \<and>
    d_count d = 1 \<and> unat (d_pos d) = n mod 2 ^ L \<and> q_ring cq' = q_ring cq \<and>
    cq_rest L n (cq'\<lparr>q_head_lock := UNLOCKED, q_pos_locks := (q_pos_locks cq')[n mod 2 ^ L := 0]\<rparr>)"
proof -
  let ?p = "n mod 2 ^ L" and ?p' = "Suc n mod 2 ^ L"
  note q = q [unfolded cq_rest_def] and u = unat_slot [OF L(2)] unat_slot16 [OF L(2)] and r = ring_next(1-4) [OF L, of n] ring_next(5) [OF L]
  let ?d = "(new_deq 0)\<lparr>d_pc := D_tail, d_head := of_nat n, d_pos := ucast (of_nat ?p :: u32)\<rparr>"
  have a: "deq_iter 2 (new_deq 0, cq, sq) = Some (?d, cq, sq)" using deq_alone_poll [of L cq n v sq] L q c by simp
  let ?d2 = "?d\<lparr>d_pc := MH_take, d_cur_head := q_head cq, d_count := 0\<rparr>"
  let ?cq = "cq\<lparr>q_tail := q_tail cq + 1, q_pos_locks := (q_pos_locks cq)[?p := 1], q_head_mark := (q_head_mark cq)[?p := LOCKED], q_head_lock := LOCKED\<rparr>"
  have b: "deq_iter 7 (?d, cq, sq) = Some (?d2, ?cq, sq)" by (rule deq_alone_mark) (use q in \<open>simp_all add: u\<close>)
  have "deq_iter 2 (?d2, ?cq, sq) = Some (?d2\<lparr>d_pc := MH_cqe, d_count := 1\<rparr>, ?cq\<lparr>q_head_mark := (q_head_mark ?cq)[?p := UNLOCKED, ?p' := UNLOCKED]\<rparr>, sq)"
    by (rule deq_alone_take) (use q in \<open>simp_all add: u r and_qs_minus_1 nth_list_update_neq [OF not_sym]\<close>)
  note d = deq_iter_add [OF a deq_iter_add [OF b this]]
  have "(replicate (2 ^ L) (0 :: u32))[?p := 0, ?p' := 0] = replicate (2 ^ L) 0" "(replicate (2 ^ L) (0 :: u32))[?p := 0] = replicate (2 ^ L) 0"
    by (simp_all add: list_eq_iff_nth_eq nth_list_update)
  then show ?thesis using d q by (simp add: u cq_rest_def)
qed

lemma deq_alone_second:
  assumes L: "2 \<le> L" "L \<le> 16" and n: "Suc n < 2 ^ 32"
    and d: "d_pc d = MH_sq_head" "d_cur_head d = of_nat n" "d_count d = 1" "unat (d_pos d) = n mod 2 ^ L" "d_new_sq_head d = ucast (of_nat (Suc n mod 2 ^ L) :: u32)"
    and q: "cq_rest L n (cq\<lparr>q_head_lock := UNLOCKED, q_pos_locks := (q_pos_locks cq)[n mod 2 ^ L := 0]\<rparr>)"
    and sq: "sq_rest L (Suc n) n sq"
  shows "\<exists>d' cq' sq'. deq_iter (4 + 6) (d, cq, sq) = Some (d', cq', sq') \<and> d_pc d' = D_return \<and> cq_rest L (Suc n) cq' \<and>
    sq_rest L (Suc n) (Suc n) sq' \<and> q_tickets sq' = (q_tickets sq)[n mod 2 ^ L := q_tickets sq ! (n mod 2 ^ L) + 1]"
proof -
  let ?p = "n mod 2 ^ L" and ?p' = "Suc n mod 2 ^ L"
  note q = q [unfolded cq_rest_def] and sq = sq [unfolded sq_rest_def] and u = unat_slot [OF L(2)]
  have v: "ucast (d_new_sq_head d) = (of_nat ?p' :: u32)" using unat_slot16 [OF L(2), of "Suc n"] u [of "Suc n"] by (simp only: d(5) word_unat_eq_iff unat_widen)
  have t: "((of_nat ?p :: u32) + 1) AND (2 ^ L - 1) = of_nat ?p'"
    using and_qs_minus_1 [of "Suc ?p" L] by (simp add: add.commute mod_Suc_eq)
  let ?d = "d\<lparr>d_pc := D_doorbell, d_loc := ucast (d_new_sq_head d), d_sq_move_count := 1\<rparr>"
  let ?sq = "sq\<lparr>q_tickets := (q_tickets sq)[?p := q_tickets sq ! ?p + 1], q_head := q_head sq + 1\<rparr>"
  have a: "deq_iter 4 (d, cq, sq) = Some (?d, cq, ?sq)"
    by (rule deq_alone_retire [where loc = "of_nat ?p"]) (use sq ring_next(5) [OF L] ring_next(1) [OF L, THEN not_sym] in \<open>simp_all add: d(1-4) v t u and_qs_minus_1\<close>)
  have "unat (of_nat (Suc n) :: u32) = Suc n" using n by (intro unat_of_nat_small) simp
  then have nz: "(of_nat n :: u32) + 1 \<noteq> 0" by (auto simp: word_unat_eq_iff add.commute)
  have "deq_iter 6 (?d, cq, ?sq) = Some (?d\<lparr>d_pc := D_return\<rparr>,
    cq\<lparr>q_db_val := (d_cur_head ?d + d_count ?d) AND q_qs_minus_1 cq, q_head := d_cur_head ?d + d_count ?d, q_head_lock := UNLOCKED,
       q_pos_locks := (q_pos_locks cq)[?p := 0]\<rparr>, ?sq)"
    by (rule deq_alone_finish) (use q nz in \<open>simp_all add: d\<close>)
  from deq_iter_add [OF a this] show ?thesis using q sq by (simp add: cq_rest_def sq_rest_def d add.commute)
qed

subsection \<open>Rounds\<close>

lemma post_cpl:
  assumes "cq_rest L h cq"
  shows "cq_rest L h (cq\<lparr>q_ring := (q_ring cq)[h mod 2 ^ L := c]\<rparr>)" "q_ring (cq\<lparr>q_ring := (q_ring cq)[h mod 2 ^ L := c]\<rparr>) ! (h mod 2 ^ L) = c"
  using assms by (simp_all add: cq_rest_def)

lemma deq_cqe:
  assumes L: "L \<le> 16" and d: "d_pc (pq_deq s j) = MH_cqe" "d_cur_head (pq_deq s j) = of_nat n" "d_count (pq_deq s j) = 1"
    and q: "q_qs_minus_1 (pq_cq s) = 2 ^ L - 1" "q_ring (pq_cq s) ! (n mod 2 ^ L) = good_cpl L w (of_nat (Suc n mod 2 ^ L))"
    and f: "fetched_n s = Suc n"
  shows "pq_step L s (retired j ((pq_deq s j)\<lparr>d_pc := MH_sq_head, d_new_sq_head := ucast (of_nat (Suc n mod 2 ^ L) :: u32)\<rparr>) (pq_cq s) (pq_sq s) s)"
    (is "pq_step L s ?s")
proof -
  have "deq_step (pq_deq s j) (pq_cq s) (pq_sq s) = ((pq_deq s j)\<lparr>d_pc := MH_sq_head, d_new_sq_head := ucast (of_nat (Suc n mod 2 ^ L) :: u32)\<rparr>, pq_cq s, pq_sq s)"
    using unat_slot [OF L, of n] by (simp add: deq_step_def d q and_qs_minus_1 good_cpl_def)
  note m = deq_move_retired [OF this]
  have "sqhd_ok L s (ucast (of_nat (Suc n mod 2 ^ L) :: u32))" using unat_slot16 [OF L, of "Suc n"] by (simp add: sqhd_ok_def dev_head_def f)
  then show ?thesis using pq_step.deq [of s j L] by (simp only: m) simp
qed

lemma deq_alone:
  assumes L: "2 \<le> L" "L \<le> 16" and n: "Suc n < 2 ^ 32" and r: "rest L cmds (Suc n) n s"
    and t: "q_tickets (pq_sq s) = (slot_turns L n)[n mod 2 ^ L := slot_turns L n ! (n mod 2 ^ L) + 1]"
  shows "\<exists>s'. (pq_step L)\<^sup>*\<^sup>* s s' \<and> rest L cmds (Suc n) (Suc n) s' \<and> q_tickets (pq_sq s') = slot_turns L (Suc n)"
proof -
  let ?p = "n mod 2 ^ L" and ?c = "good_cpl L (of_nat n) (of_nat (Suc n mod 2 ^ L))"
  note q = r [unfolded rest_def]
  let ?s1 = "s\<lparr>pq_fetched := pq_fetched s @ [q_ring (pq_sq s) ! dev_head L s]\<rparr>"
  let ?s2 = "?s1\<lparr>pq_cq := (pq_cq ?s1)\<lparr>q_ring := (q_ring (pq_cq ?s1))[?p := ?c]\<rparr>\<rparr>"
  have "pq_step L s ?s1" using q ring_next(1) [OF L, of n] unat_slot [OF L(2), of "Suc n"] by (intro pq_step.fetch) (simp add: dev_head_def sq_rest_def)
  moreover have "pq_step L ?s1 ?s2" by (rule pq_step.post)
  moreover have cq: "cq_rest L n (pq_cq ?s2)" "q_ring (pq_cq ?s2) ! ?p = ?c" using q post_cpl [of L n "pq_cq s" ?c] by simp_all
  obtain d cq' where a: "deq_iter (2 + (7 + 2)) (new_deq 0, pq_cq ?s2, pq_sq s) = Some (d, cq', pq_sq s)" "d_pc d = MH_cqe"
    "d_cur_head d = of_nat n" "d_count d = 1" "unat (d_pos d) = ?p" "q_ring cq' = q_ring (pq_cq ?s2)"
    "cq_rest L n (cq'\<lparr>q_head_lock := UNLOCKED, q_pos_locks := (q_pos_locks cq')[?p := 0]\<rparr>)"
    using deq_alone_first [OF L cq] by blast
  let ?s3 = "retired n d cq' (pq_sq s) ?s2"
  have "(pq_step L)\<^sup>*\<^sup>* ?s2 ?s3" using a(1) q by (intro deq_iter_steps) simp
  moreover
  let ?d = "d\<lparr>d_pc := MH_sq_head, d_new_sq_head := ucast (of_nat (Suc n mod 2 ^ L) :: u32)\<rparr>"
  let ?s4 = "retired n ?d cq' (pq_sq s) ?s2"
  have "pq_step L ?s3 ?s4" using deq_cqe [of L ?s3 n n "of_nat n"] L a q cq(2) by (simp add: cq_rest_def)
  moreover
  obtain d2 cq2 sq2 where b: "deq_iter (4 + 6) (?d, cq', pq_sq s) = Some (d2, cq2, sq2)" "cq_rest L (Suc n) cq2" "sq_rest L (Suc n) (Suc n) sq2"
    "q_tickets sq2 = (q_tickets (pq_sq s))[?p := q_tickets (pq_sq s) ! ?p + 1]"
    using deq_alone_second [OF L n, of ?d cq' "pq_sq s"] a q by auto
  let ?s5 = "retired n d2 cq2 sq2 ?s4"
  have "(pq_step L)\<^sup>*\<^sup>* ?s4 ?s5" using b(1) by (intro deq_iter_steps) simp
  ultimately have "(pq_step L)\<^sup>*\<^sup>* s ?s5" by (meson converse_rtranclp_into_rtranclp rtranclp_trans)
  moreover have "rest L cmds (Suc n) (Suc n) ?s5" using b(2,3) q by (auto simp: rest_def)
  moreover have "q_tickets (pq_sq ?s5) = slot_turns L (Suc n)" using b(4) t slot_turns(3) [of L n] slot_turns(1) [of L n] by simp
  ultimately show ?thesis by blast
qed

lemma reachable_steps: "pq_reachable L cmds s \<Longrightarrow> (pq_step L)\<^sup>*\<^sup>* s s' \<Longrightarrow> pq_reachable L cmds s'"
  by (rotate_tac, induction rule: rtranclp_induct) (auto intro: pq_reachable.step)

lemma rest_reachable:
  assumes L: "2 \<le> L" "L \<le> 16" and n: "n < 2 ^ 32"
  shows "\<exists>s. pq_reachable L cmds s \<and> rest L cmds n n s \<and> q_tickets (pq_sq s) = slot_turns L n"
  using n
proof (induction n)
  case 0
  let ?s = "pq_init L cmds (\<lambda>_. 0) (replicate (2 ^ L) (replicate 16 0)) (replicate (2 ^ L) (replicate 4 0))"
  have "rest L cmds 0 0 ?s"
    by (simp add: rest_def sq_rest_def cq_rest_def pq_init_def init_queue_def)
  moreover have "q_tickets (pq_sq ?s) = slot_turns L 0" by (simp add: slot_turns_def pq_init_def init_queue_def list_eq_iff_nth_eq)
  ultimately show ?case using pq_reachable.start [of "replicate (2 ^ L) (replicate 16 0)" L "replicate (2 ^ L) (replicate 4 0)" cmds "\<lambda>_. 0"] by auto
next
  case (Suc n)
  then have n: "n < 2 ^ 32" by simp
  obtain s where s: "pq_reachable L cmds s" "rest L cmds n n s" "q_tickets (pq_sq s) = slot_turns L n" using Suc.IH [OF n] by blast
  obtain s1 where s1: "(pq_step L)\<^sup>*\<^sup>* s s1" "rest L cmds (Suc n) n s1" "q_tickets (pq_sq s1) = (slot_turns L n)[n mod 2 ^ L := slot_turns L n ! (n mod 2 ^ L) + 1]"
    using enq_alone [OF L n s(2,3)] by blast
  obtain s2 where s2: "(pq_step L)\<^sup>*\<^sup>* s1 s2" "rest L cmds (Suc n) (Suc n) s2" "q_tickets (pq_sq s2) = slot_turns L (Suc n)"
    using deq_alone [OF L Suc.prems s1(2,3)] by blast
  show ?case using s2 reachable_steps [OF reachable_steps [OF s(1) s1(1)] s2(1)] by blast
qed

text \<open>The tickets run out: every value of the counter has been handed out and every call has returned.\<close>

lemma tickets_used_up:
  assumes "2 \<le> L" "L \<le> 16"
  shows "\<exists>s. pq_reachable L cmds s \<and> issued_n s = 2 ^ 32 \<and> (\<forall>i\<in>set (pq_issued s). e_pc (pq_enq s i) = E_return)"
proof -
  let ?m = "2 ^ 32 - 1 :: nat"
  have m: "?m < 2 ^ 32" "Suc ?m = 2 ^ 32" by simp_all
  obtain s where s: "pq_reachable L cmds s" "rest L cmds ?m ?m s" "q_tickets (pq_sq s) = slot_turns L ?m" using rest_reachable [OF assms m(1)] by blast
  obtain s' where s': "(pq_step L)\<^sup>*\<^sup>* s s'" "rest L cmds (Suc ?m) ?m s'" using enq_alone [OF assms m(1) s(2,3)] by blast
  have "issued_n s' = 2 ^ 32 \<and> (\<forall>i\<in>set (pq_issued s'). e_pc (pq_enq s' i) = E_return)"
    using s'(2) unfolding m(2) rest_def by (simp only: length_upt set_upt) auto
  then show ?thesis using reachable_steps [OF s(1) s'(1)] by blast
qed

end
