(* ===== verification/Parallel_Claims.thy ===== *)
theory Parallel_Claims
  imports Parallel_Run
begin

text \<open>
  What the shared queues promise as long as at most \<open>2 ^ 32\<close> commands have been enqueued, and what happens after that.
\<close>

unbundle bit_operations_syntax

subsection \<open>Order and exclusion\<close>

definition writing :: "enq_pc \<Rightarrow> bool" where
  "writing pc \<longleftrightarrow> (\<exists>c. pc = E_copy c) \<or> pc = E_mark"

lemma writing_stage: "writing pc \<longleftrightarrow> stage pc = 2"
  by (cases pc) (simp_all add: writing_def)

lemma inv_pending:
  assumes i: "pq_inv L cmds h t tk r b s"
  shows "ring_dist L (fetched_n s) (unat (q_db_val (pq_sq s))) = b - fetched_n s"
proof -
  note c = ctl_okD [OF i]
  have "unat (q_db_val (pq_sq s)) = b mod 2 ^ L" using unat_slot [OF c(13)] by (simp add: c(9))
  then show ?thesis using c(1-6) by (simp add: ring_dist_count)
qed

lemma inv_returned_behind:
  assumes i: "pq_inv L cmds h t tk r b s" and k: "k < issued_n s" "e_pc (call s k) = E_return" and l: "q_tail_lock (pq_sq s) = UNLOCKED"
  shows "k < b"
proof -
  have "k < tk" using protoD(6) [OF turns_okD(1) [OF i] k(1)] k(2) by (simp add: rank_def)
  moreover have "b = t \<and> tk = t" using pq_invD(4) [OF i] l by (simp add: ctl_ok_def)
  ultimately show ?thesis by simp
qed

lemma inv_call:
  assumes "pq_inv L cmds h t tk r b s" "e_pc (pq_enq s i) \<noteq> E_ticket"
  obtains k where "k < issued_n s" "pq_issued s ! k = i" "unat (e_pos (pq_enq s i)) = k mod 2 ^ L"
proof -
  have c: "calls_ok L cmds s" "L \<le> 16" using assms(1) by (simp_all add: pq_inv_def shape_ok_def)
  then have "i \<in> set (pq_issued s)" using assms(2) unfolding calls_ok_def by blast
  then obtain k where k: "k < issued_n s" "pq_issued s ! k = i" by (auto simp: in_set_conv_nth)
  then have "e_pos (pq_enq s i) = of_nat (k mod 2 ^ L)" using c(1) by (auto simp: calls_ok_def call_def)
  then show ?thesis using that [OF k] unat_slot [OF c(2)] by simp
qed

lemma inv_writers_apart:
  assumes i: "pq_inv L cmds h t tk r b s" and w: "writing (e_pc (pq_enq s i))" "writing (e_pc (pq_enq s j))" and "i \<noteq> j"
  shows "e_pos (pq_enq s i) \<noteq> e_pos (pq_enq s j)"
proof
  assume e: "e_pos (pq_enq s i) = e_pos (pq_enq s j)"
  have n: "e_pc (pq_enq s i) \<noteq> E_ticket" "e_pc (pq_enq s j) \<noteq> E_ticket" using w by (auto simp: writing_def)
  obtain k where k: "k < issued_n s" "pq_issued s ! k = i" "unat (e_pos (pq_enq s i)) = k mod 2 ^ L" using inv_call [OF i n(1)] .
  obtain k' where k': "k' < issued_n s" "pq_issued s ! k' = j" "unat (e_pos (pq_enq s j)) = k' mod 2 ^ L" using inv_call [OF i n(2)] .
  have "rank s k = 2" "rank s k' = 2" using w k k' by (simp_all add: writing_stage rank_def call_def)
  then have "k = k'" using proto_exclusive [OF turns_okD(1) [OF i] k(1) k'(1)] e k(3) k'(3) by simp
  then show False using k(2) k'(2) assms(4) by simp
qed

lemma inv_writer_free:
  assumes i: "pq_inv L cmds h t tk r b s" and w: "writing (e_pc (pq_enq s i))" and m: "fetched_n s + m < b"
  shows "unat (e_pos (pq_enq s i)) \<noteq> (fetched_n s + m) mod 2 ^ L"
proof
  let ?k = "fetched_n s + m"
  assume e: "unat (e_pos (pq_enq s i)) = ?k mod 2 ^ L"
  note c = ctl_okD [OF i] and p = turns_okD(1) [OF i]
  have n: "e_pc (pq_enq s i) \<noteq> E_ticket" using w by (auto simp: writing_def)
  obtain k where k: "k < issued_n s" "pq_issued s ! k = i" "unat (e_pos (pq_enq s i)) = k mod 2 ^ L" using inv_call [OF i n] .
  have "rank s k = 2" using w k by (simp add: writing_stage rank_def call_def)
  moreover have "3 \<le> rank s ?k" "?k < issued_n s" using protoD(5) [OF p, of ?k] protoD(3) [OF p] m c(5) by simp_all
  ultimately show False using proto_slot_free [OF p k(1), of ?k] e k(3) c(2) by simp
qed

text \<open>C3. Whatever the interleaving of the threads with each other and with the controller, the controller fetches exactly
  the commands the threads enqueue, each once, intact, and in the order of their tickets; and whenever no thread
  holds the lock of the tail, the command of every call that has returned has been fetched or lies before the doorbell
  the controller has been given.\<close>

theorem sq_enqueue_fetched_in_order:
  assumes "1 \<le> L" "L \<le> 16" "\<forall>i. length (cmds i) = 16" "pq_reachable L cmds s" "length (pq_issued s) \<le> 2 ^ 32"
  shows "distinct (pq_issued s) \<and> pq_fetched s = map cmds (take (length (pq_fetched s)) (pq_issued s)) \<and>
    (\<forall>k<length (pq_issued s). q_tail_lock (pq_sq s) = UNLOCKED \<and> e_pc (pq_enq s (pq_issued s ! k)) = E_return \<longrightarrow>
       k < length (pq_fetched s) + ring_dist L (length (pq_fetched s)) (unat (q_db_val (pq_sq s))))"
proof -
  obtain h t tk r b where i: "pq_inv L cmds h t tk r b s" using pq_reachable_inv assms by blast
  then have "pq_fetched s = map cmds (take (fetched_n s) (pq_issued s))" by (simp add: pq_inv_def data_ok_def)
  then show ?thesis using pq_invD(7) [OF i] inv_returned_behind [OF i] inv_pending [OF i] ctl_okD(3) [OF i]
    by (simp add: call_def)
qed

theorem sq_enqueue_fetched_in_order_witness:
  "\<exists>s. pq_reachable 4 (\<lambda>i. replicate 16 (of_nat i)) s \<and> pq_fetched s = map (\<lambda>i. replicate 16 (of_nat i)) [0..<40]"
proof -
  let ?c = "\<lambda>i. replicate 16 (of_nat i) :: entry"
  obtain s where s: "pq_reachable 4 ?c s" "rest 4 ?c 40 40 s" using rest_reachable [of 4 40 ?c] by auto
  have "pq_fetched s = map ?c (take (length (pq_fetched s)) (pq_issued s))"
    using sq_enqueue_fetched_in_order [of 4 ?c s] s by (simp add: rest_def)
  moreover have "length (pq_fetched s) = 40" "pq_issued s = [0..<40]" using s(2) by (simp_all add: rest_def)
  ultimately have "pq_fetched s = map ?c [0..<40]" by (simp only: take_all length_upt diff_zero order_refl)
  then show ?thesis using s(1) by blast
qed

text \<open>C4. Two calls that are writing their command into the ring never write the same slot, and none of them writes a slot
  whose command the controller may still fetch, that is, a slot from the controller's head up to the doorbell.\<close>

theorem sq_enqueue_slot_exclusive:
  assumes "1 \<le> L" "L \<le> 16" "\<forall>i. length (cmds i) = 16" "pq_reachable L cmds s" "length (pq_issued s) \<le> 2 ^ 32"
    and "writing (e_pc (pq_enq s i))"
  shows "(\<forall>j. j \<noteq> i \<and> writing (e_pc (pq_enq s j)) \<longrightarrow> e_pos (pq_enq s j) \<noteq> e_pos (pq_enq s i)) \<and>
    (\<forall>m<ring_dist L (length (pq_fetched s)) (unat (q_db_val (pq_sq s))).
       unat (e_pos (pq_enq s i)) \<noteq> (length (pq_fetched s) + m) mod 2 ^ L)"
proof -
  obtain h t tk r b where i: "pq_inv L cmds h t tk r b s" using pq_reachable_inv assms(1-5) by blast
  show ?thesis using inv_writers_apart [OF i _ assms(6)] inv_writer_free [OF i assms(6)] inv_pending [OF i] by auto
qed

definition two_writers :: pq where
  "two_writers = enq_move 1 (enq_move 1 (enq_move 1 (enq_move 0 (enq_move 0 (enq_move 0
     (pq_init 2 (\<lambda>_. replicate 16 0) (\<lambda>_. 0) (replicate 4 (replicate 16 0)) (replicate 4 (replicate 4 0))))))))"

theorem sq_enqueue_slot_exclusive_witness:
  "e_pc (pq_enq two_writers 0) = E_copy 0 \<and> e_pc (pq_enq two_writers 1) = E_copy 0 \<and>
   e_pos (pq_enq two_writers 1) \<noteq> e_pos (pq_enq two_writers 0)"
proof -
  have pc: "e_pc (pq_enq two_writers 0) = E_copy 0" "e_pc (pq_enq two_writers 1) = E_copy 0" "length (pq_issued two_writers) = 2"
    by (simp_all add: two_writers_def enq_move_def enq_step_def pq_init_def init_queue_def new_enq_def get_id_def Let_def)
  have "pq_reachable 2 (\<lambda>_. replicate 16 0) two_writers"
    unfolding two_writers_def by (intro pq_reachable.step [OF _ pq_step.enq] pq_reachable.start) simp_all
  then show ?thesis using sq_enqueue_slot_exclusive [of 2 "\<lambda>_. replicate 16 0" two_writers 0] pc by (simp add: writing_def)
qed

subsection \<open>When the ticket counter wraps\<close>

text \<open>The state as it was before the counter wrapped, with the calls that have been made since then left out.\<close>

definition past :: "pq \<Rightarrow> pq \<Rightarrow> pq" where
  "past s0 s = s\<lparr>pq_sq := (pq_sq s)\<lparr>q_in_ticket := 0\<rparr>, pq_enq := pq_enq s0, pq_issued := pq_issued s0\<rparr>"

definition blocked_call :: "nat \<Rightarrow> enq \<Rightarrow> bool" where
  "blocked_call L e \<longleftrightarrow> e_pc e = E_ticket \<or>
     e_pc e = E_wait \<and> (\<exists>x<2 ^ 32. e_pos e = of_nat (x mod 2 ^ L) \<and> e_id e = of_nat (2 * (x div 2 ^ L)))"

definition all_blocked :: "nat \<Rightarrow> (nat \<Rightarrow> entry) \<Rightarrow> pq \<Rightarrow> pq \<Rightarrow> bool" where
  "all_blocked L cmds s0 s \<longleftrightarrow> (\<exists>h t tk r b. pq_inv L cmds h t tk r b (past s0 s)) \<and>
     (\<forall>i\<in>set (pq_issued s0). pq_enq s i = pq_enq s0 i) \<and> (\<forall>i. i \<notin> set (pq_issued s0) \<longrightarrow> blocked_call L (pq_enq s i))"

lemma all_blockedI:
  assumes "pq_inv L cmds h t tk r b (past s0 s)" "\<And>i. i \<in> set (pq_issued s0) \<Longrightarrow> pq_enq s i = pq_enq s0 i"
    "\<And>i. i \<notin> set (pq_issued s0) \<Longrightarrow> blocked_call L (pq_enq s i)"
  shows "all_blocked L cmds s0 s"
  using assms unfolding all_blocked_def by blast

lemma card_slot_full: "p < N \<Longrightarrow> card {k. k < c * N \<and> k mod N = p} = (c :: nat)"
proof -
  assume p: "p < N"
  have "{k. k < c * N \<and> k mod N = p} = {k. k < c * N + p \<and> k mod N = (c * N + p) mod N}"
  proof (intro Collect_cong iffI)
    fix k assume k: "k < c * N + p \<and> k mod N = (c * N + p) mod N"
    then have "k + N \<le> c * N + p" by (intro same_slot_far) auto
    then show "k < c * N \<and> k mod N = p" using k p by simp
  qed (use p in auto)
  then show ?thesis using card_slot [of N "c * N + p"] p by simp
qed

lemma past_turn:
  assumes i: "pq_inv L cmds h t tk r b s" and n: "issued_n s = 2 ^ 32" and e: "\<forall>i\<in>set (pq_issued s). e_pc (pq_enq s i) = E_return"
    and p: "p < 2 ^ L"
  shows "2 ^ (32 - L) + (2 ^ (32 - L) - 1) \<le> turn (2 ^ L) (issued_n s) (rank s) r p" "turn (2 ^ L) (issued_n s) (rank s) r p \<le> 2 ^ (32 - L) + 2 ^ (32 - L)"
proof -
  let ?N = "2 ^ L :: nat" and ?c = "2 ^ (32 - L) :: nat"
  note c = ctl_okD [OF i] and pr = turns_okD(1) [OF i]
  have M: "issued_n s = ?c * ?N" unfolding n using c(13) by (simp only: power_add [symmetric]) simp
  have rk: "rank s k = 5" if "k < issued_n s" for k using e nth_mem [OF that] by (simp add: rank_def call_def)
  have "{k. k < issued_n s \<and> k mod ?N = p \<and> rank s k = 5} = {k. k < ?c * ?N \<and> k mod ?N = p}" using rk M by auto
  then have one: "card {k. k < issued_n s \<and> k mod ?N = p \<and> rank s k = 5} = ?c" using card_slot_full [OF p] by simp
  have "\<forall>k<issued_n s. k < tk" using protoD(6) [OF pr] rk by simp
  then have "issued_n s \<le> tk" using not_less by blast
  then have r: "(?c - 1) * ?N \<le> r" "r \<le> ?c * ?N" using c(1,6) protoD(2,3) [OF pr] M by (simp_all add: diff_mult_distrib)
  have "card {k. k < (?c - 1) * ?N \<and> k mod ?N = p} \<le> card {k. k < r \<and> k mod ?N = p}" using r(1) by (intro card_mono) auto
  moreover have "card {k. k < r \<and> k mod ?N = p} \<le> card {k. k < ?c * ?N \<and> k mod ?N = p}" using r(2) by (intro card_mono) auto
  ultimately have two: "?c - 1 \<le> card {k. k < r \<and> k mod ?N = p}" "card {k. k < r \<and> k mod ?N = p} \<le> ?c"
    by (simp_all only: card_slot_full [OF p])
  show "?c + (?c - 1) \<le> turn ?N (issued_n s) (rank s) r p" "turn ?N (issued_n s) (rank s) r p \<le> ?c + ?c"
    unfolding turn_def one using two by simp_all
qed

lemma past_id: "q_in_ticket (pq_sq s) = 0 \<Longrightarrow> past s s = s"
  by (cases s) (simp add: past_def)

lemma deq_step_ticket: "deq_step d cq (sq\<lparr>q_in_ticket := x\<rparr>) = (case deq_step d cq sq of (d', cq', sq') \<Rightarrow> (d', cq', sq'\<lparr>q_in_ticket := x\<rparr>))"
  by (cases "d_pc d") (simp_all add: deq_step_def Let_def)

lemma past_deq: "past s0 (deq_move j s) = deq_move j (past s0 s)"
  by (simp add: past_def deq_move_def deq_step_ticket split: prod.splits)

lemma past_controller:
  "past s0 (s\<lparr>pq_fetched := fs\<rparr>) = (past s0 s)\<lparr>pq_fetched := fs\<rparr>" "past s0 (s\<lparr>pq_cq := cq\<rparr>) = (past s0 s)\<lparr>pq_cq := cq\<rparr>"
  "pq_fetched (past s0 s) = pq_fetched s" "pq_cq (past s0 s) = pq_cq s" "pq_deq (past s0 s) = pq_deq s"
  "q_ring (pq_sq (past s0 s)) = q_ring (pq_sq s)" "q_db_val (pq_sq (past s0 s)) = q_db_val (pq_sq s)" "q_head (pq_sq (past s0 s)) = q_head (pq_sq s)"
  "q_tickets (pq_sq (past s0 s)) = q_tickets (pq_sq s)" "pq_issued (past s0 s) = pq_issued s0" "pq_enq (past s0 s) = pq_enq s0"
  "dev_head L (past s0 s) = dev_head L s" "sqhd_ok L (past s0 s) v = sqhd_ok L s v"
  by (simp_all add: past_def dev_head_def sqhd_ok_def)

lemma blocked_wait:
  assumes L: "2 \<le> L" and b: "all_blocked L cmds s0 s" and n: "issued_n s0 = 2 ^ 32"
    and e: "\<forall>i\<in>set (pq_issued s0). e_pc (pq_enq s0 i) = E_return" and i: "i \<notin> set (pq_issued s0)" "e_pc (pq_enq s i) = E_wait"
  shows "ucast (q_tickets (pq_sq s) ! unat (e_pos (pq_enq s i))) \<noteq> e_id (pq_enq s i)"
proof
  let ?N = "2 ^ L :: nat" and ?c = "2 ^ (32 - L) :: nat"
  assume eq: "ucast (q_tickets (pq_sq s) ! unat (e_pos (pq_enq s i))) = e_id (pq_enq s i)"
  obtain h t tk r b where inv: "pq_inv L cmds h t tk r b (past s0 s)" using b by (auto simp: all_blocked_def)
  obtain x where x: "x < 2 ^ 32" "e_pos (pq_enq s i) = of_nat (x mod ?N)" "e_id (pq_enq s i) = of_nat (2 * (x div ?N))"
    using b i by (auto simp: all_blocked_def blocked_call_def)
  have l16: "L \<le> 16" using ctl_okD(13) [OF inv] .
  define m where "m = turn ?N (issued_n (past s0 s)) (rank (past s0 s)) r (x mod ?N)"
  have m: "?c + (?c - 1) \<le> m" "m \<le> ?c + ?c"
    unfolding m_def using past_turn [OF inv, of "x mod ?N"] n e by (simp_all add: past_controller)
  have "x < ?c * ?N" using x(1) l16 by (simp only: power_add [symmetric]) simp
  then have q: "x div ?N < ?c" by (simp add: less_mult_imp_div_less)
  have c: "?c \<le> 2 ^ 30" using L by (intro power_increasing) simp_all
  have "unat (ucast (of_nat m :: u32) :: u64) = m" unfolding unat_widen64 using m(2) c by (intro unat_of_nat_small) simp
  moreover have "unat (of_nat (2 * (x div ?N)) :: u64) = 2 * (x div ?N)" using q c by (intro unat_of_nat_small) simp
  moreover have "(ucast (of_nat m :: u32) :: u64) = of_nat (2 * (x div ?N))"
    using eq turns_okD(2) [OF inv, of "x mod ?N"] x(2,3) unat_slot [OF l16, of x] by (simp add: past_controller m_def)
  ultimately have "m = 2 * (x div ?N)" by metis
  then show False using m(1) q by simp
qed

lemma all_blocked_enq:
  assumes L: "2 \<le> L" and b: "all_blocked L cmds s0 s" and n: "issued_n s0 = 2 ^ 32"
    and e: "\<forall>i\<in>set (pq_issued s0). e_pc (pq_enq s0 i) = E_return"
  shows "all_blocked L cmds s0 (enq_move i s)"
proof (cases "e_pc (pq_enq s i) = E_ticket")
  case False
  have "enq_step (pq_enq s i) (pq_sq s) = (pq_enq s i, pq_sq s)"
  proof (cases "i \<in> set (pq_issued s0)")
    case True then show ?thesis using b e by (simp add: all_blocked_def enq_step_def)
  next
    case out: False
    then have "e_pc (pq_enq s i) = E_wait" using b False by (auto simp: all_blocked_def blocked_call_def)
    then show ?thesis using blocked_wait [OF L b n e out] by (simp add: enq_step_def)
  qed
  then have "enq_move i s = s" using False by (cases s) (simp add: enq_move_def)
  then show ?thesis using b by simp
next
  case True
  obtain h t tk r bb where inv: "pq_inv L cmds h t tk r bb (past s0 s)" using b by (auto simp: all_blocked_def)
  have sh: "q_qs_minus_1 (pq_sq s) = 2 ^ L - 1" "q_qs_log2 (pq_sq s) = of_nat L" "L \<le> 16"
    using pq_invD(1) [OF inv] by (simp_all add: shape_ok_def past_def)
  let ?x = "unat (q_in_ticket (pq_sq s))"
  have x: "?x < 2 ^ 32" "q_in_ticket (pq_sq s) = of_nat ?x" using unsigned_less [of "q_in_ticket (pq_sq s)", where 'a = nat] by simp_all
  have "e_pos (fst (enq_step (pq_enq s i) (pq_sq s))) = of_nat (?x mod 2 ^ L) \<and> e_id (fst (enq_step (pq_enq s i) (pq_sq s))) = of_nat (2 * (?x div 2 ^ L))"
    using get_id_ticket [OF x(1) sh(3)] and_qs_minus_1 [of ?x L] by (simp add: enq_step_def True sh)
  then have "blocked_call L (pq_enq (enq_move i s) i)" using x(1) by (auto simp: blocked_call_def enq_move_def enq_step_def True)
  moreover have "past s0 (enq_move i s) = past s0 s" by (simp add: past_def enq_move_def enq_step_def True)
  moreover have "pq_enq (enq_move i s) k = pq_enq s k" if "k \<noteq> i" for k using that by (simp add: enq_move_def enq_step_def True)
  moreover have "i \<notin> set (pq_issued s0)" using b e True by (auto simp: all_blocked_def)
  ultimately show ?thesis using b unfolding all_blocked_def by metis
qed

lemma all_blocked_step:
  assumes "pq_step L s s'" "2 \<le> L" "all_blocked L cmds s0 s" "issued_n s0 = 2 ^ 32" "\<forall>i\<in>set (pq_issued s0). e_pc (pq_enq s0 i) = E_return"
  shows "all_blocked L cmds s0 s'"
proof -
  obtain h t tk r b where inv: "pq_inv L cmds h t tk r b (past s0 s)" using assms(3) by (auto simp: all_blocked_def)
  from assms(1) show ?thesis
  proof cases
    case (enq i) then show ?thesis using all_blocked_enq [OF assms(2-5)] by simp
  next
    case (deq j)
    have "d_new_sq_head (pq_deq (deq_move j (past s0 s)) j) = d_new_sq_head (pq_deq (deq_move j s) j)" by (simp add: past_deq [symmetric] past_controller)
    then have "\<exists>h' r'. pq_inv L cmds h' t tk r' b (past s0 s')" unfolding deq(1) past_deq
      using deq(2) by (intro deq_move_inv [OF inv]) (simp add: past_controller)
    moreover have "pq_enq s' = pq_enq s" by (simp add: deq(1) deq_move_def split: prod.splits)
    ultimately show ?thesis using assms(3) unfolding all_blocked_def by metis
  next
    case fetch
    have "pq_inv L cmds h t tk r b (past s0 s')" using inv_fetch [OF inv] fetch by (simp add: past_controller)
    then show ?thesis by (rule all_blockedI) (use assms(3) fetch(1) in \<open>simp_all add: all_blocked_def\<close>)
  next
    case (post p cpl)
    have "pq_inv L cmds h t tk r b (past s0 s')" using inv_post [OF inv] post by (simp add: past_controller)
    then show ?thesis by (rule all_blockedI) (use assms(3) post in \<open>simp_all add: all_blocked_def\<close>)
  qed
qed

lemma all_blocked_fetched: "all_blocked L cmds s0 s \<Longrightarrow> fetched_n s \<le> issued_n s0"
proof -
  assume "all_blocked L cmds s0 s"
  then obtain h t tk r b where inv: "pq_inv L cmds h t tk r b (past s0 s)" by (auto simp: all_blocked_def)
  show ?thesis using ctl_okD(3,5) [OF inv] protoD(3) [OF turns_okD(1) [OF inv]] by (simp add: past_controller)
qed

text \<open>C14. The ticket counter and the turns of the slots have 32 bits, and the turn a ticket waits for is computed from the
  ticket alone. Once \<open>2 ^ 32\<close> commands have been enqueued and all these calls have returned, every later call of
  \<open>sq_enqueue\<close> waits for a turn that has long passed: whatever the threads and the controller do from then on, no
  later call ever gets beyond its first wait, and the controller never fetches another command. Queues have at least
  four slots here.\<close>

theorem sq_enqueue_blocked_after_wrap:
  assumes "2 \<le> L" "L \<le> 16" "\<forall>i. length (cmds i) = 16" "pq_reachable L cmds s" "length (pq_issued s) = 2 ^ 32"
    and "\<forall>i\<in>set (pq_issued s). e_pc (pq_enq s i) = E_return" "(pq_step L)\<^sup>*\<^sup>* s s'"
  shows "(\<forall>i. i \<notin> set (pq_issued s) \<longrightarrow> e_pc (pq_enq s' i) \<in> {E_ticket, E_wait}) \<and> length (pq_fetched s') \<le> 2 ^ 32"
proof -
  obtain h t tk r b where i: "pq_inv L cmds h t tk r b s" using pq_reachable_inv [of L cmds s] assms(1-5) by auto
  have "q_in_ticket (pq_sq s) = of_nat (2 ^ 32)" using pq_invD(2) [OF i] assms(5) by (simp add: calls_ok_def)
  then have "past s s = s" by (intro past_id) simp
  then have "pq_inv L cmds h t tk r b (past s s)" using i by simp
  then have "all_blocked L cmds s s" by (rule all_blockedI) (use pq_invD(2) [OF i] in \<open>simp_all add: blocked_call_def calls_ok_def\<close>)
  with assms(7) have "all_blocked L cmds s s'"
    by (induction rule: rtranclp_induct) (use all_blocked_step assms(1,5,6) in blast)+
  then show ?thesis using all_blocked_fetched [of L cmds s s'] assms(5) by (auto simp: all_blocked_def blocked_call_def)
qed

theorem sq_enqueue_blocked_after_wrap_witness:
  "\<exists>s i. pq_reachable 10 (\<lambda>_. replicate 16 0) s \<and> length (pq_issued s) = 2 ^ 32 \<and> i \<notin> set (pq_issued s) \<and>
     e_pc (pq_enq (enq_move i (enq_move i (enq_move i s))) i) \<in> {E_ticket, E_wait}"
proof -
  obtain s where s: "pq_reachable 10 (\<lambda>_. replicate 16 0) s" "length (pq_issued s) = 2 ^ 32" "\<forall>i\<in>set (pq_issued s). e_pc (pq_enq s i) = E_return"
    using tickets_used_up [of 10 "\<lambda>_. replicate 16 0"] by auto
  obtain i where i: "i \<notin> set (pq_issued s)" using infinite_UNIV_nat by (meson ex_new_if_finite finite_set)
  let ?s = "enq_move i (enq_move i (enq_move i s))"
  have "(pq_step 10)\<^sup>*\<^sup>* s ?s" by (meson pq_step.enq rtranclp.rtrancl_into_rtrancl rtranclp.rtrancl_refl)
  then have "e_pc (pq_enq ?s i) \<in> {E_ticket, E_wait}"
    using sq_enqueue_blocked_after_wrap [of 10 "\<lambda>_. replicate 16 0" s ?s] s i by simp
  then show ?thesis using s(1,2) i by blast
qed

end
