(* ===== verification/File_Log.thy ===== *)
theory File_Log
  imports Snvme_Prelude
begin

text \<open>
  The directory of a storage device (\<open>persistent_file_log.cpp\<close>): the entries with their index by name in memory, the
  binary image on disk, and the replacement of the file by writing a copy and renaming it. A directory is a record of
  the entries, the index and the next file id; names are lists of bytes. The host file system is a record of the two
  files concerned; the results of the system calls are arguments.
\<close>

type_synonym bytes = "u8 list"

abbreviation (input) kNameMax :: nat where "kNameMax \<equiv> 128"
abbreviation (input) kLogMagicV1 :: nat where "kLogMagicV1 \<equiv> 0x474F4C5449545554"
abbreviation (input) kLogVersion :: nat where "kLogVersion \<equiv> 1"

record LbaExtent =
  start_lba :: u64
  length_blocks :: u64

record file_entry =
  fe_file_id :: u64
  fe_name :: bytes
  fe_size_bytes :: u64
  fe_extents :: "LbaExtent list"

record file_log =
  fl_entries :: "file_entry list"
  fl_index :: "bytes \<rightharpoonup> nat"
  fl_next_file_id :: u64

definition empty_log :: file_log where
  "empty_log = \<lparr>fl_entries = [], fl_index = Map.empty, fl_next_file_id = 1\<rparr>"

subsection \<open>The directory in memory\<close>

definition find_by_name :: "file_log \<Rightarrow> bytes \<Rightarrow> file_entry option" where
  "find_by_name log name = (case fl_index log name of None \<Rightarrow> None | Some i \<Rightarrow> Some (fl_entries log ! i))"

definition next_file_id :: "file_log \<Rightarrow> u64 \<times> file_log" where
  "next_file_id log = (fl_next_file_id log, log\<lparr>fl_next_file_id := fl_next_file_id log + 1\<rparr>)"

definition push_entry :: "file_entry \<Rightarrow> file_log \<Rightarrow> file_log" where
  "push_entry e log = log\<lparr>fl_entries := fl_entries log @ [e], fl_index := (fl_index log)(fe_name e \<mapsto> length (fl_entries log))\<rparr>"

definition log_add :: "file_entry \<Rightarrow> file_log \<Rightarrow> bool \<times> file_log" where
  "log_add e log =
     (if length (fe_name e) \<ge> kNameMax then (False, log)
      else if fl_index log (fe_name e) \<noteq> None then (False, log)
      else (True, push_entry e (if fe_file_id e \<ge> fl_next_file_id log then log\<lparr>fl_next_file_id := fe_file_id e + 1\<rparr> else log)))"

text \<open>The entry found is replaced by the last one, which is then dropped.\<close>

definition log_remove :: "u64 \<Rightarrow> file_log \<Rightarrow> bool \<times> file_log" where
  "log_remove file_id log =
     (let es = fl_entries log in
      case find (\<lambda>i. fe_file_id (es ! i) = file_id) [0..<length es] of
        None \<Rightarrow> (False, log)
      | Some i \<Rightarrow>
          (let idx = (fl_index log)(fe_name (es ! i) := None); lst = length es - 1 in
           (True,
            if i \<noteq> lst then log\<lparr>fl_entries := butlast (es[i := es ! lst]), fl_index := idx(fe_name (es ! lst) \<mapsto> i)\<rparr>
            else log\<lparr>fl_entries := butlast es, fl_index := idx\<rparr>)))"

subsection \<open>The image on disk\<close>

fun le_bytes :: "nat \<Rightarrow> nat \<Rightarrow> bytes" where
  "le_bytes 0 x = []"
| "le_bytes (Suc n) x = of_nat (x mod 256) # le_bytes n (x div 256)"

fun le_nat :: "bytes \<Rightarrow> nat" where
  "le_nat [] = 0"
| "le_nat (b # bs) = unat b + 256 * le_nat bs"

definition header_bytes_of :: "file_log \<Rightarrow> bytes" where
  "header_bytes_of log = le_bytes 8 kLogMagicV1 @ le_bytes 4 kLogVersion @ le_bytes 4 (length (fl_entries log)) @
     le_bytes 8 (unat (fl_next_file_id log)) @ replicate 16 0"

definition entry_bytes :: "file_entry \<Rightarrow> bytes" where
  "entry_bytes e = le_bytes 8 (unat (fe_file_id e)) @ le_bytes 8 (unat (fe_size_bytes e)) @ le_bytes 4 (length (fe_extents e)) @
     le_bytes 4 0 @ take (kNameMax - 1) (fe_name e) @ replicate (kNameMax - min (length (fe_name e)) (kNameMax - 1)) 0"

definition extent_bytes :: "LbaExtent \<Rightarrow> bytes" where
  "extent_bytes x = le_bytes 8 (unat (start_lba x)) @ le_bytes 8 (unat (length_blocks x))"

text \<open>The pieces that are written one after the other.\<close>

definition log_chunks :: "file_log \<Rightarrow> bytes list" where
  "log_chunks log = header_bytes_of log # concat (map (\<lambda>e. entry_bytes e #
     (if fe_extents e = [] then [] else [concat (map extent_bytes (fe_extents e))])) (fl_entries log))"

datatype write_result = Wrote nat | Eintr | Werr

text \<open>A loop of \<open>write\<close> calls: the bytes that reached the file, and whether all did. The list gives the results of the
  calls that do not simply write everything asked for.\<close>

fun write_full :: "write_result list \<Rightarrow> bytes \<Rightarrow> bool \<times> write_result list \<times> bytes" where
  "write_full ws [] = (True, ws, [])"
| "write_full [] data = (True, [], data)"
| "write_full (Eintr # ws) data = write_full ws data"
| "write_full (Werr # ws) data = (False, ws, [])"
| "write_full (Wrote r # ws) data =
     (if r = 0 then (False, ws, [])
      else case write_full ws (drop r data) of (ok, ws', w) \<Rightarrow> (ok, ws', take r data @ w))"

record disk =
  d_log :: "bytes option"
  d_tmp :: "bytes option"

record persist_env =
  pe_open_ok :: bool
  pe_writes :: "write_result list"
  pe_fsync_ok :: bool
  pe_rename_ok :: bool

fun write_chunks :: "write_result list \<Rightarrow> bytes \<Rightarrow> bytes list \<Rightarrow> bool \<times> bytes \<times> bytes list" where
  "write_chunks ws tmp [] = (True, tmp, [])"
| "write_chunks ws tmp (c # cs) =
     (case write_full ws c of (ok, ws', w) \<Rightarrow>
        if ok then (case write_chunks ws' (tmp @ w) cs of (ok', t, h) \<Rightarrow> (ok', t, (tmp @ w) # h))
        else (False, tmp @ w, [tmp @ w]))"

text \<open>The result and the contents of the disk after each group of system calls, the last one being the final state.\<close>

definition persist_locked :: "persist_env \<Rightarrow> file_log \<Rightarrow> disk \<Rightarrow> bool \<times> disk list" where
  "persist_locked env log d =
     (if \<not> pe_open_ok env then (False, [d])
      else
        case write_chunks (pe_writes env) [] (log_chunks log) of (ok, t, hist) \<Rightarrow>
          let ds = d\<lparr>d_tmp := Some []\<rparr> # map (\<lambda>h. d\<lparr>d_tmp := Some h\<rparr>) hist in
          if \<not> ok then (False, ds @ [d\<lparr>d_tmp := None\<rparr>])
          else if \<not> pe_fsync_ok env then (False, ds @ [d\<lparr>d_tmp := None\<rparr>])
          else if \<not> pe_rename_ok env then (False, ds @ [d\<lparr>d_tmp := None\<rparr>])
          else (True, ds @ [\<lparr>d_log = Some t, d_tmp = None\<rparr>]))"

subsection \<open>Loading\<close>

text \<open>A read that fails is like a file that ends there.\<close>

definition read_full :: "nat \<Rightarrow> bytes \<Rightarrow> (bytes \<times> bytes) option" where
  "read_full n bs = (if length bs < n then None else Some (take n bs, drop n bs))"

definition field :: "nat \<Rightarrow> nat \<Rightarrow> bytes \<Rightarrow> nat" where
  "field i n bs = le_nat (take n (drop i bs))"

fun load_extents :: "nat \<Rightarrow> bytes \<Rightarrow> LbaExtent list" where
  "load_extents 0 bs = []"
| "load_extents (Suc n) bs = \<lparr>start_lba = of_nat (field 0 8 bs), length_blocks = of_nat (field 8 8 bs)\<rparr> # load_extents n (drop 16 bs)"

definition load_entry :: "bytes \<Rightarrow> LbaExtent list \<Rightarrow> file_entry" where
  "load_entry oe xs = \<lparr>fe_file_id = of_nat (field 0 8 oe), fe_name = takeWhile (\<lambda>b. b \<noteq> 0) (take kNameMax (drop 24 oe)),
     fe_size_bytes = of_nat (field 8 8 oe), fe_extents = xs\<rparr>"

fun load_entries :: "nat \<Rightarrow> bytes \<Rightarrow> file_log \<Rightarrow> bool \<times> file_log" where
  "load_entries 0 bs log = (True, log)"
| "load_entries (Suc n) bs log =
     (case read_full 152 bs of None \<Rightarrow> (False, log)
      | Some (oe, bs1) \<Rightarrow>
          let k = field 16 4 oe in
          if k = 0 then load_entries n bs1 (push_entry (load_entry oe []) log)
          else case read_full (k * 16) bs1 of None \<Rightarrow> (False, log)
             | Some (xb, bs2) \<Rightarrow> load_entries n bs2 (push_entry (load_entry oe (load_extents k xb)) log))"

definition load_image :: "bytes \<Rightarrow> file_log \<Rightarrow> bool \<times> file_log" where
  "load_image bs log =
     (case read_full 40 bs of None \<Rightarrow> (False, log)
      | Some (hdr, bs1) \<Rightarrow>
          if field 0 8 hdr \<noteq> kLogMagicV1 then (False, log)
          else if field 8 4 hdr \<noteq> kLogVersion then (False, log)
          else load_entries (field 12 4 hdr) bs1
                 (log\<lparr>fl_next_file_id := (let i = of_nat (field 16 8 hdr) in if i = 0 then 1 else i)\<rparr>))"

text \<open>\<open>openable\<close> tells whether an existing file can be opened.\<close>

definition load_or_init :: "persist_env \<Rightarrow> bool \<Rightarrow> disk \<Rightarrow> bool \<times> file_log \<times> disk" where
  "load_or_init env openable d =
     (case d_log d of
        None \<Rightarrow> (case persist_locked env empty_log d of (ok, ds) \<Rightarrow> (ok, empty_log, last ds))
      | Some bs \<Rightarrow> if openable then (case load_image bs empty_log of (ok, log) \<Rightarrow> (ok, log, d)) else (False, empty_log, d))"

subsection \<open>The directory is a dictionary\<close>

text \<open>Every name of the index leads to the entry of that name, and every entry is found.\<close>

definition log_ok :: "file_log \<Rightarrow> bool" where
  "log_ok log \<longleftrightarrow> (\<forall>name i. fl_index log name = Some i \<longleftrightarrow> i < length (fl_entries log) \<and> fe_name (fl_entries log ! i) = name) \<and>
     (\<forall>e\<in>set (fl_entries log). length (fe_name e) < kNameMax)"

lemma log_okD:
  assumes "log_ok log"
  shows "fl_index log name = Some i \<longleftrightarrow> i < length (fl_entries log) \<and> fe_name (fl_entries log ! i) = name"
  using assms by (simp add: log_ok_def)

lemma log_ok_unique:
  assumes "log_ok log" "i < length (fl_entries log)" "j < length (fl_entries log)" "fe_name (fl_entries log ! i) = fe_name (fl_entries log ! j)"
  shows "i = j"
  using log_okD [OF assms(1), of "fe_name (fl_entries log ! i)" i] log_okD [OF assms(1), of "fe_name (fl_entries log ! i)" j] assms(2-4) by simp

lemma log_ok_distinct: "log_ok log \<Longrightarrow> distinct (map fe_name (fl_entries log))"
  by (auto simp: distinct_conv_nth dest: log_ok_unique)

lemma log_ok_none:
  assumes "log_ok log"
  shows "fl_index log name = None \<longleftrightarrow> name \<notin> fe_name ` set (fl_entries log)"
proof
  assume n: "fl_index log name = None"
  have "fe_name (fl_entries log ! i) \<noteq> name" if "i < length (fl_entries log)" for i using log_okD [OF assms, of name i] n that by simp
  then show "name \<notin> fe_name ` set (fl_entries log)" by (metis imageE in_set_conv_nth)
next
  assume n: "name \<notin> fe_name ` set (fl_entries log)"
  have "fl_index log name \<noteq> Some i" for i using log_okD [OF assms, of name i] n nth_mem [of i "fl_entries log"] by blast
  then show "fl_index log name = None" by (metis not_None_eq)
qed

lemma find_by_name_iff:
  assumes "log_ok log"
  shows "find_by_name log name = Some e \<longleftrightarrow> e \<in> set (fl_entries log) \<and> fe_name e = name"
proof
  assume "find_by_name log name = Some e"
  then show "e \<in> set (fl_entries log) \<and> fe_name e = name"
    using log_okD [OF assms, of name "the (fl_index log name)"] nth_mem [of "the (fl_index log name)" "fl_entries log"]
    by (cases "fl_index log name") (auto simp: find_by_name_def)
next
  assume e: "e \<in> set (fl_entries log) \<and> fe_name e = name"
  then obtain i where "i < length (fl_entries log)" "fl_entries log ! i = e" by (auto simp: in_set_conv_nth)
  then show "find_by_name log name = Some e" using log_okD [OF assms, of name i] e by (simp add: find_by_name_def)
qed

lemma push_entry_ok:
  assumes ok: "log_ok log" and new: "fl_index log (fe_name e) = None" and n: "length (fe_name e) < kNameMax"
  shows "log_ok (push_entry e log)"
proof -
  have "fl_index (push_entry e log) name = Some i \<longleftrightarrow>
      i < length (fl_entries (push_entry e log)) \<and> fe_name (fl_entries (push_entry e log) ! i) = name" for name i
  proof (cases "i < length (fl_entries log)")
    case True
    then have "fe_name (fl_entries log ! i) \<noteq> fe_name e" using log_okD [OF ok, of "fe_name e" i] new by auto
    then show ?thesis using True log_okD [OF ok, of name i] by (auto simp: push_entry_def nth_append)
  next
    case False
    then show ?thesis using log_okD [OF ok, of name i] by (auto simp: push_entry_def nth_append less_Suc_eq)
  qed
  then show ?thesis using ok n by (simp add: log_ok_def push_entry_def)
qed

lemma log_ok_next: "log_ok (log\<lparr>fl_next_file_id := x\<rparr>) = log_ok log"
  by (simp add: log_ok_def)

lemma log_add_ok: "log_ok log \<Longrightarrow> log_ok (snd (log_add e log))"
  by (simp add: log_add_def push_entry_ok log_ok_next)

text \<open>Dropping the entry at place \<open>i\<close> by moving the last one there.\<close>

lemma swap_pop_ok:
  assumes ok: "log_ok log" and i: "i < length (fl_entries log)"
    and es: "es = fl_entries log" "lst = length es - 1" "idx = (fl_index log)(fe_name (es ! i) := None)"
    and r: "log' = (if i \<noteq> lst then log\<lparr>fl_entries := butlast (es[i := es ! lst]), fl_index := idx(fe_name (es ! lst) \<mapsto> i)\<rparr>
      else log\<lparr>fl_entries := butlast es, fl_index := idx\<rparr>)"
  shows "log_ok log'" "set (fl_entries log') = set (fl_entries log) - {fl_entries log ! i}"
proof -
  have l: "lst < length es" "length (fl_entries log') = lst" using i es r by auto
  have nth: "fl_entries log' ! k = (if k = i then es ! lst else es ! k)" if "k < lst" for k
    using that i l es r by (auto simp: nth_butlast nth_list_update)
  note u = log_ok_unique [OF ok, folded es(1)] and d = log_okD [OF ok, folded es(1)]
  have "fl_index log' name = Some k \<longleftrightarrow> k < length (fl_entries log') \<and> fe_name (fl_entries log' ! k) = name" for name k
  proof (cases "name = fe_name (es ! i)")
    case True
    then have "fl_index log' name = None" using u [of i lst] i l es(1,3) r by auto
    moreover have "fe_name (fl_entries log' ! k) \<noteq> name" if "k < lst"
      using nth [OF that] u [of k i] u [of lst i] i l that True es(1) by auto
    ultimately show ?thesis using l(2) by auto
  next
    case False
    show ?thesis
    proof (cases "name = fe_name (es ! lst)")
      case True
      then have il: "i \<noteq> lst" using False by auto
      then have "fl_index log' name = Some i" using r True False es(3) by simp
      moreover have "fe_name (fl_entries log' ! k) = name \<longleftrightarrow> k = i" if "k < lst"
        using nth [OF that] u [of k lst] that l(1) True by (auto split: if_splits)
      moreover have "i < lst" using il i l(1) es(1,2) by simp
      ultimately show ?thesis using l(2) by auto
    next
      case other: False
      then have "fl_index log' name = fl_index log name" using r False es(3) by simp
      moreover have "fe_name (fl_entries log' ! k) = name \<longleftrightarrow> fe_name (es ! k) = name" if "k < lst"
        using nth [OF that] False other by auto
      moreover have "k < length es \<longleftrightarrow> k < lst" if "fe_name (es ! k) = name" using that other es(2) l(1) by (cases "k = lst") auto
      ultimately show ?thesis using d [of name k] l(2) by auto
    qed
  qed
  moreover have set: "set (fl_entries log') = set es - {es ! i}"
  proof (intro set_eqI iffI)
    fix x assume "x \<in> set (fl_entries log')"
    then obtain k where k: "k < lst" "x = (if k = i then es ! lst else es ! k)" using nth l(2) by (auto simp: in_set_conv_nth)
    then show "x \<in> set es - {es ! i}" using u [of k i] u [of lst i] i l es(1) by (auto split: if_splits)
  next
    fix x assume x: "x \<in> set es - {es ! i}"
    then obtain k where k: "k < length es" "es ! k = x" "k \<noteq> i" by (auto simp: in_set_conv_nth)
    show "x \<in> set (fl_entries log')"
    proof (cases "k = lst")
      case True then show ?thesis using k nth [of i] i l es by (auto simp: in_set_conv_nth intro!: exI [of _ i])
    next
      case False then show ?thesis using k nth [of k] l es by (auto simp: in_set_conv_nth intro!: exI [of _ k])
    qed
  qed
  ultimately show "log_ok log'" using ok es(1) by (auto simp: log_ok_def)
  show "set (fl_entries log') = set (fl_entries log) - {fl_entries log ! i}" using set es(1) by simp
qed

lemma find_eqI:
  assumes "log_ok log" "\<And>e. e \<in> set (fl_entries log) \<longleftrightarrow> m (fe_name e) = Some e" "\<And>n e. m n = Some e \<Longrightarrow> fe_name e = n"
  shows "find_by_name log = m"
proof
  fix n show "find_by_name log n = m n"
  proof (cases "m n")
    case None
    then have "find_by_name log n \<noteq> Some e" for e using find_by_name_iff [OF assms(1), of n e] assms(2) [of e] by auto
    then show ?thesis using None by (metis not_None_eq)
  next
    case (Some e) then show ?thesis using find_by_name_iff [OF assms(1), of n e] assms(2) [of e] assms(3) [of n e] by auto
  qed
qed

lemma find_entry: "log_ok log \<Longrightarrow> e \<in> set (fl_entries log) \<longleftrightarrow> find_by_name log (fe_name e) = Some e"
  using find_by_name_iff by blast

lemma find_name: "log_ok log \<Longrightarrow> find_by_name log n = Some e \<Longrightarrow> fe_name e = n"
  using find_by_name_iff by blast

lemma log_add_find:
  assumes ok: "log_ok log"
  shows "find_by_name (snd (log_add e log)) = (if fst (log_add e log) then (find_by_name log)(fe_name e \<mapsto> e) else find_by_name log)"
    "fst (log_add e log) \<longleftrightarrow> length (fe_name e) < kNameMax \<and> find_by_name log (fe_name e) = None"
proof -
  have new: "fl_index log (fe_name e) = None \<longleftrightarrow> find_by_name log (fe_name e) = None" by (simp add: find_by_name_def split: option.splits)
  then show "fst (log_add e log) \<longleftrightarrow> length (fe_name e) < kNameMax \<and> find_by_name log (fe_name e) = None" by (auto simp: log_add_def)
  show "find_by_name (snd (log_add e log)) = (if fst (log_add e log) then (find_by_name log)(fe_name e \<mapsto> e) else find_by_name log)"
  proof (cases "fst (log_add e log)")
    case True
    then have free: "find_by_name log (fe_name e) = None" and es: "set (fl_entries (snd (log_add e log))) = insert e (set (fl_entries log))"
      using new by (auto simp: log_add_def push_entry_def split: if_splits)
    show ?thesis using True
      by (simp, intro find_eqI [OF log_add_ok [OF ok]])
        (use free es find_entry [OF ok] find_name [OF ok] in \<open>auto split: if_splits\<close>)
  qed (auto simp: log_add_def split: if_splits)
qed

lemma log_remove_cases:
  assumes ok: "log_ok log"
  shows "(fst (log_remove file_id log) \<and> log_ok (snd (log_remove file_id log)) \<and>
      (\<exists>e\<in>set (fl_entries log). fe_file_id e = file_id \<and> find_by_name (snd (log_remove file_id log)) = (find_by_name log)(fe_name e := None))) \<or>
    (\<not> fst (log_remove file_id log) \<and> snd (log_remove file_id log) = log \<and> file_id \<notin> fe_file_id ` set (fl_entries log))"
proof (cases "find (\<lambda>i. fe_file_id (fl_entries log ! i) = file_id) [0..<length (fl_entries log)]")
  case None
  then have "log_remove file_id log = (False, log)" by (simp add: log_remove_def)
  moreover have "file_id \<notin> fe_file_id ` set (fl_entries log)" using None by (auto simp: find_None_iff in_set_conv_nth)
  ultimately show ?thesis by simp
next
  case (Some i)
  let ?log = "snd (log_remove file_id log)" and ?e = "fl_entries log ! i"
  have i: "i < length (fl_entries log)" "fe_file_id ?e = file_id" using Some by (auto simp: find_Some_iff)
  note r = swap_pop_ok [OF ok i(1) refl refl refl, of ?log]
  have r: "log_ok ?log" "set (fl_entries ?log) = set (fl_entries log) - {?e}" by (rule r(1), simp add: log_remove_def Some Let_def) (rule r(2), simp add: log_remove_def Some Let_def)
  have e: "?e \<in> set (fl_entries log)" using i(1) by simp
  have "find_by_name ?log = (find_by_name log)(fe_name ?e := None)"
  proof (rule find_eqI [OF r(1)])
    fix x show "x \<in> set (fl_entries ?log) \<longleftrightarrow> ((find_by_name log)(fe_name ?e := None)) (fe_name x) = Some x"
      using r(2) find_entry [OF ok, of x] find_entry [OF ok, of ?e] e by (cases "fe_name x = fe_name ?e") auto
  next
    fix n x show "((find_by_name log)(fe_name ?e := None)) n = Some x \<Longrightarrow> fe_name x = n"
      using find_name [OF ok, of n x] by (cases "n = fe_name ?e") simp_all
  qed
  moreover have "fst (log_remove file_id log)" by (simp add: log_remove_def Some Let_def)
  ultimately show ?thesis using r(1) e i(2) by blast
qed

lemma log_remove_ok: "log_ok log \<Longrightarrow> log_ok (snd (log_remove i log))"
  using log_remove_cases [of log i] by metis

datatype log_op = NextId | Add file_entry | Remove u64

fun log_step :: "log_op \<Rightarrow> file_log \<Rightarrow> file_log" where
  "log_step NextId log = snd (next_file_id log)"
| "log_step (Add e) log = snd (log_add e log)"
| "log_step (Remove i) log = snd (log_remove i log)"

lemma log_steps_ok: "log_ok (fold log_step ops empty_log)"
proof (induction ops rule: rev_induct)
  case Nil show ?case by (simp add: log_ok_def empty_log_def)
next
  case (snoc p ops)
  have "log_ok (log_step p log)" if "log_ok log" for log
    using that log_remove_ok [OF that] log_add_ok [OF that] by (cases p) (simp_all add: next_file_id_def log_ok_next)
  then show ?case using snoc by simp
qed

text \<open>C39. The directory is well formed after any sequence of its operations: its index leads from every name to exactly the
  entry of that name, names are distinct and shorter than the field on disk. An entry is added exactly if its name is
  short enough and new, and then the look-up changes for this name only; removing an id drops one entry of that id from
  the look-up and changes no other name, and it fails only if there is none.\<close>

theorem file_log_well_formed:
  "let log = fold log_step ops empty_log in
   log_ok log \<and> distinct (map fe_name (fl_entries log)) \<and>
   (\<forall>name e. find_by_name log name = Some e \<longleftrightarrow> e \<in> set (fl_entries log) \<and> fe_name e = name) \<and>
   (\<forall>e. (fst (log_add e log) \<longleftrightarrow> length (fe_name e) < kNameMax \<and> find_by_name log (fe_name e) = None) \<and>
      find_by_name (snd (log_add e log)) = (if fst (log_add e log) then (find_by_name log)(fe_name e \<mapsto> e) else find_by_name log)) \<and>
   (\<forall>i. if fst (log_remove i log)
        then \<exists>e\<in>set (fl_entries log). fe_file_id e = i \<and> find_by_name (snd (log_remove i log)) = (find_by_name log)(fe_name e := None)
        else snd (log_remove i log) = log \<and> i \<notin> fe_file_id ` set (fl_entries log))"
proof -
  have ok: "log_ok (fold log_step ops empty_log)" by (rule log_steps_ok)
  show ?thesis unfolding Let_def
    using ok log_ok_distinct [OF ok] find_by_name_iff [OF ok] log_add_find [OF ok] log_remove_cases [OF ok] by (intro conjI allI) (metis, metis, metis, metis, metis, metis)
qed

subsection \<open>Reading back what was written\<close>

lemma length_le_bytes [simp]: "length (le_bytes n x) = n"
  by (induction n x rule: le_bytes.induct) simp_all

lemma le_nat_le_bytes: "le_nat (le_bytes n x) = x mod 256 ^ n"
proof (induction n x rule: le_bytes.induct)
  case (2 n x)
  have "unat (of_nat (x mod 256) :: u8) = x mod 256" by (simp add: unat_of_nat)
  then show ?case using 2 mod_mult2_eq [of x 256 "256 ^ n"] by simp
qed simp

lemma field_at: "length a = i \<Longrightarrow> length b = n \<Longrightarrow> field i n (a @ b @ c) = le_nat b"
  by (simp add: field_def)

lemma field_le: "length a = i \<Longrightarrow> field i n (a @ le_bytes n x @ c) = x mod 256 ^ n"
  by (simp add: field_at le_nat_le_bytes)

lemma field_u64: "length a = i \<Longrightarrow> field i 8 (a @ le_bytes 8 (unat (x :: u64)) @ c) = unat x"
  using field_le [of a i 8 "unat x" c] unsigned_less [of x, where 'a = nat] by simp

lemma load_extents_image: "load_extents (length xs) (concat (map extent_bytes xs) @ rest) = xs"
proof (induction xs)
  case (Cons x xs)
  have "field 0 8 (extent_bytes x @ y) = unat (start_lba x)" "field 8 8 (extent_bytes x @ y) = unat (length_blocks x)" for y
    using field_u64 [of "[]" 0 "start_lba x"] field_u64 [of "le_bytes 8 (unat (start_lba x))" 8 "length_blocks x"]
    by (simp_all add: extent_bytes_def)
  moreover have "length (extent_bytes x) = 16" by (simp add: extent_bytes_def)
  ultimately show ?case using Cons by simp
qed simp

lemma length_extents_image: "length (concat (map extent_bytes xs)) = length xs * 16"
  by (induction xs) (simp_all add: extent_bytes_def)

lemma length_entry_bytes: "length (entry_bytes e) = 152"
  by (simp add: entry_bytes_def)

lemma load_entry_image:
  assumes "length (fe_name e) < kNameMax" "0 \<notin> set (fe_name e)"
  shows "load_entry (entry_bytes e) (fe_extents e) = e"
proof -
  let ?r = "replicate (kNameMax - min (length (fe_name e)) (kNameMax - 1)) (0 :: u8)"
  have id: "field 0 8 (entry_bytes e) = unat (fe_file_id e)" using field_u64 [of "[]" 0 "fe_file_id e"] by (simp add: entry_bytes_def)
  have sz: "field 8 8 (entry_bytes e) = unat (fe_size_bytes e)"
    using field_u64 [of "le_bytes 8 (unat (fe_file_id e))" 8 "fe_size_bytes e"] by (simp add: entry_bytes_def)
  have "takeWhile (\<lambda>b. b \<noteq> 0) (fe_name e @ ?r) = fe_name e" using assms(2) by (subst takeWhile_append2) (auto simp: takeWhile_replicate)
  moreover have "take kNameMax (drop 24 (entry_bytes e)) = fe_name e @ ?r" using assms(1) by (simp add: entry_bytes_def)
  ultimately show ?thesis using id sz by (simp add: load_entry_def)
qed

lemma entry_count_field: "length (fe_extents e) < 2 ^ 32 \<Longrightarrow> field 16 4 (entry_bytes e) = length (fe_extents e)"
  using field_le [of "le_bytes 8 (unat (fe_file_id e)) @ le_bytes 8 (unat (fe_size_bytes e))" 16 4 "length (fe_extents e)"]
  by (simp add: entry_bytes_def)

definition entry_image :: "file_entry \<Rightarrow> bytes" where
  "entry_image e = entry_bytes e @ concat (map extent_bytes (fe_extents e))"

definition storable :: "file_entry \<Rightarrow> bool" where
  "storable e \<longleftrightarrow> length (fe_name e) < kNameMax \<and> 0 \<notin> set (fe_name e) \<and> length (fe_extents e) < 2 ^ 32"

lemma load_entries_image:
  assumes "\<forall>e\<in>set es. storable e"
  shows "load_entries (length es) (concat (map entry_image es)) log = (True, fold push_entry es log)"
  using assms
proof (induction es arbitrary: log)
  case (Cons e es)
  have st: "storable e" using Cons.prems by simp
  let ?rest = "concat (map entry_image es)"
  have r: "read_full 152 (entry_image e @ ?rest) = Some (entry_bytes e, concat (map extent_bytes (fe_extents e)) @ ?rest)"
    by (simp add: read_full_def entry_image_def length_entry_bytes)
  have x: "read_full (length (fe_extents e) * 16) (concat (map extent_bytes (fe_extents e)) @ ?rest) = Some (concat (map extent_bytes (fe_extents e)), ?rest)"
    by (simp add: read_full_def length_extents_image)
  have "load_extents (length (fe_extents e)) (concat (map extent_bytes (fe_extents e))) = fe_extents e" using load_extents_image [of "fe_extents e" "[]"] by simp
  moreover have "load_entry (entry_bytes e) (fe_extents e) = e" "field 16 4 (entry_bytes e) = length (fe_extents e)"
    using st load_entry_image entry_count_field by (simp_all add: storable_def)
  ultimately show ?case using Cons r x by (cases "fe_extents e = []") (simp_all add: Let_def)
qed simp

lemma log_chunks_image: "concat (log_chunks log) = header_bytes_of log @ concat (map entry_image (fl_entries log))"
proof -
  have "concat (concat (map (\<lambda>e. entry_bytes e # (if fe_extents e = [] then [] else [concat (map extent_bytes (fe_extents e))])) es)) =
      concat (map entry_image es)" for es
    by (induction es) (simp_all add: entry_image_def)
  then show ?thesis by (simp add: log_chunks_def)
qed

lemma header_fields:
  "field 0 8 (header_bytes_of log) = kLogMagicV1" "field 8 4 (header_bytes_of log) = kLogVersion"
  "length (fl_entries log) < 2 ^ 32 \<Longrightarrow> field 12 4 (header_bytes_of log) = length (fl_entries log)"
  "field 16 8 (header_bytes_of log) = unat (fl_next_file_id log)" "length (header_bytes_of log) = 40"
proof -
  let ?m = "le_bytes 8 kLogMagicV1" and ?v = "le_bytes 4 kLogVersion" and ?n = "le_bytes 4 (length (fl_entries log))"
  show "field 0 8 (header_bytes_of log) = kLogMagicV1" using field_le [of "[]" 0 8 kLogMagicV1] by (simp add: header_bytes_of_def)
  show "field 8 4 (header_bytes_of log) = kLogVersion" using field_le [of ?m 8 4 kLogVersion] by (simp add: header_bytes_of_def)
  show "length (fl_entries log) < 2 ^ 32 \<Longrightarrow> field 12 4 (header_bytes_of log) = length (fl_entries log)"
    using field_le [of "?m @ ?v" 12 4 "length (fl_entries log)"] by (simp add: header_bytes_of_def)
  show "field 16 8 (header_bytes_of log) = unat (fl_next_file_id log)"
    using field_u64 [of "?m @ ?v @ ?n" 16 "fl_next_file_id log"] by (simp add: header_bytes_of_def)
  show "length (header_bytes_of log) = 40" by (simp add: header_bytes_of_def)
qed

lemma log_ok_index: "log_ok a \<Longrightarrow> log_ok b \<Longrightarrow> fl_entries a = fl_entries b \<Longrightarrow> fl_index a = fl_index b"
proof
  fix n assume h: "log_ok a" "log_ok b" "fl_entries a = fl_entries b"
  have "fl_index a n = Some i \<longleftrightarrow> fl_index b n = Some i" for i using log_okD [OF h(1), of n i] log_okD [OF h(2), of n i] h(3) by simp
  then show "fl_index a n = fl_index b n" by (metis not_None_eq)
qed

lemma push_entries:
  assumes "log_ok log" "distinct (map fe_name (fl_entries log @ es))" "\<forall>e\<in>set es. storable e"
  shows "log_ok (fold push_entry es log) \<and> fl_entries (fold push_entry es log) = fl_entries log @ es \<and>
    fl_next_file_id (fold push_entry es log) = fl_next_file_id log"
  using assms
proof (induction es arbitrary: log)
  case (Cons e es)
  have "fl_index log (fe_name e) = None" using Cons.prems(2) by (simp add: log_ok_none [OF Cons.prems(1)])
  then have "log_ok (push_entry e log)" using Cons.prems(1,3) by (intro push_entry_ok) (simp_all add: storable_def)
  then show ?case using Cons.IH [of "push_entry e log"] Cons.prems(2,3) by (simp add: push_entry_def)
qed simp

lemma load_image_back:
  assumes ok: "log_ok log" and st: "\<forall>e\<in>set (fl_entries log). storable e" and n: "length (fl_entries log) < 2 ^ 32" "fl_next_file_id log \<noteq> 0"
  shows "load_image (concat (log_chunks log)) empty_log = (True, log)"
proof -
  let ?l = "empty_log\<lparr>fl_next_file_id := fl_next_file_id log\<rparr>"
  have "log_ok ?l" using log_steps_ok [of "[]"] by (simp add: log_ok_next)
  then have p: "log_ok (fold push_entry (fl_entries log) ?l)" "fl_entries (fold push_entry (fl_entries log) ?l) = fl_entries log"
    "fl_next_file_id (fold push_entry (fl_entries log) ?l) = fl_next_file_id log"
    using push_entries [of ?l "fl_entries log"] log_ok_distinct [OF ok] st by (simp_all add: empty_log_def)
  then have "fold push_entry (fl_entries log) ?l = log" using log_ok_index [OF p(1) ok p(2)] by simp
  then show ?thesis
    using n by (simp add: load_image_def read_full_def log_chunks_image header_fields load_entries_image [OF st])
qed

subsection \<open>Replacing the file\<close>

lemma write_full_ok: "write_full ws data = (ok, ws', w) \<Longrightarrow> ok \<Longrightarrow> w = data"
  by (induction ws data arbitrary: ws' w rule: write_full.induct) (auto split: if_splits prod.splits)

lemma write_chunks_ok: "write_chunks ws tmp cs = (ok, t, h) \<Longrightarrow> ok \<Longrightarrow> t = tmp @ concat cs"
proof (induction cs arbitrary: ws tmp h)
  case (Cons c cs)
  obtain k ws' w where w: "write_full ws c = (k, ws', w)" by (metis prod_cases3)
  then show ?case using Cons.IH [of ws' "tmp @ w"] Cons.prems write_full_ok [OF w] by (auto split: if_splits prod.splits)
qed simp

lemma write_chunks_plain: "fst (write_chunks [] tmp cs)"
proof (induction cs arbitrary: tmp)
  case (Cons c cs)
  have "write_full [] c = (True, [], c)" by (cases c) simp_all
  then show ?case using Cons [of "tmp @ c"] by (auto split: prod.splits)
qed simp

lemma persist_locked_atomic:
  assumes "persist_locked env log d = (ok, ds)"
  shows "ds \<noteq> []" "d' \<in> set ds \<Longrightarrow> d_log d' = d_log d \<or> d_log d' = Some (concat (log_chunks log))"
    "d_log (last ds) = (if ok then Some (concat (log_chunks log)) else d_log d)"
proof -
  obtain k t h where w: "write_chunks (pe_writes env) [] (log_chunks log) = (k, t, h)" by (metis prod_cases3)
  show "ds \<noteq> []" "d' \<in> set ds \<Longrightarrow> d_log d' = d_log d \<or> d_log d' = Some (concat (log_chunks log))"
    "d_log (last ds) = (if ok then Some (concat (log_chunks log)) else d_log d)"
    using assms w write_chunks_ok [OF w] by (auto simp: persist_locked_def Let_def split: if_splits)
qed

text \<open>C38. Rewriting the directory on disk is atomic and loses nothing: at every moment of \<open>persist\<close>, whatever system calls
  fail or are interrupted and wherever the run is cut off, the file either is the one there was or is loaded as exactly
  the directory in memory, index and next id included; if \<open>persist\<close> reports success it is the latter, if it reports failure
  the former. This holds for names without null bytes and numbers of entries and extents that fit their fields.\<close>

theorem persist_load_roundtrip:
  assumes "log_ok log" "\<forall>e\<in>set (fl_entries log). storable e" "length (fl_entries log) < 2 ^ 32" "fl_next_file_id log \<noteq> 0"
    and "persist_locked env log d = (ok, ds)"
  shows "(\<forall>d'\<in>set ds. d_log d' = d_log d \<or> load_or_init env' True d' = (True, log, d')) \<and>
    (if ok then load_or_init env' True (last ds) = (True, log, last ds) else d_log (last ds) = d_log d)"
proof -
  have l: "load_or_init env' True d' = (True, log, d')" if "d_log d' = Some (concat (log_chunks log))" for d'
    using that load_image_back [OF assms(1-4)] by (simp add: load_or_init_def)
  show ?thesis using persist_locked_atomic [OF assms(5)] l by (cases ok) auto
qed

definition log_ex :: file_log where
  "log_ex = fold log_step [Add \<lparr>fe_file_id = 7, fe_name = [65, 66], fe_size_bytes = 4096, fe_extents = [\<lparr>start_lba = 100, length_blocks = 2\<rparr>]\<rparr>,
     Add \<lparr>fe_file_id = 9, fe_name = [67], fe_size_bytes = 8192, fe_extents = []\<rparr>, Remove 7] empty_log"

definition plain_env :: persist_env where
  "plain_env = \<lparr>pe_open_ok = True, pe_writes = [], pe_fsync_ok = True, pe_rename_ok = True\<rparr>"

definition persisted_ex :: "bool \<times> disk list" where
  "persisted_ex = persist_locked plain_env log_ex \<lparr>d_log = None, d_tmp = None\<rparr>"

theorem persist_load_roundtrip_witness:
  "length (fl_entries log_ex) = 1 \<and> fst persisted_ex \<and>
   load_or_init plain_env True (last (snd persisted_ex)) = (True, log_ex, last (snd persisted_ex))"
proof -
  have es: "fl_entries log_ex = [\<lparr>fe_file_id = 9, fe_name = [67], fe_size_bytes = 8192, fe_extents = []\<rparr>]" "fl_next_file_id log_ex = 10"
    by (simp_all add: log_ex_def log_add_def log_remove_def push_entry_def empty_log_def)
  have "fst persisted_ex" using write_chunks_plain [of "[]" "log_chunks log_ex"]
    by (auto simp: persisted_ex_def plain_env_def persist_locked_def Let_def split: prod.splits)
  then have p: "persisted_ex = (True, snd persisted_ex)" by (simp add: prod_eq_iff)
  have ok: "log_ok log_ex" unfolding log_ex_def by (rule log_steps_ok)
  have "load_or_init plain_env True (last (snd persisted_ex)) = (True, log_ex, last (snd persisted_ex))"
    using persist_load_roundtrip [OF ok _ _ _ trans [OF persisted_ex_def [symmetric] p], of plain_env] by (simp add: es storable_def)
  then show ?thesis using p by (simp add: es prod_eq_iff)
qed

end
