(* ===== verification/Nvme_Io.thy ===== *)
theory Nvme_Io
  imports Parallel_Invariant File_Log
begin

text \<open>
  Input and output on a file from a GPU thread: the fields of a command (\<open>nvm_cmd.h\<close>), the translation of an offset in a
  file to blocks of the namespace (\<open>resolve_lba\<close> in \<open>nvme_storage_device.cuh\<close>) and the calls that combine the two
  (\<open>submit_read_one\<close>, \<open>submit_write_one\<close>, \<open>queue_acquire_helper.cuh\<close>). The command is a local variable the code does not
  initialise, so its previous contents are an argument.
\<close>

unbundle bit_operations_syntax

subsection \<open>Commands\<close>

abbreviation NVM_IO_WRITE :: u8 where "NVM_IO_WRITE \<equiv> 1"
abbreviation NVM_IO_READ :: u8 where "NVM_IO_READ \<equiv> 2"

definition nvm_cmd_header :: "u16 \<Rightarrow> u8 \<Rightarrow> u32 \<Rightarrow> entry \<Rightarrow> entry" where
  "nvm_cmd_header cid opcode ns_id cmd = cmd[0 := push_bit 16 (ucast cid) OR (ucast opcode AND 0x7f), 1 := ns_id]"

definition nvm_cmd_data_ptr :: "u64 \<Rightarrow> u64 \<Rightarrow> entry \<Rightarrow> entry" where
  "nvm_cmd_data_ptr prp1 prp2 cmd = cmd[0 := cmd ! 0 AND NOT (push_bit 14 3 OR push_bit 8 3),
     6 := ucast prp1, 7 := ucast (drop_bit 32 prp1), 8 := ucast prp2, 9 := ucast (drop_bit 32 prp2)]"

definition nvm_cmd_rw_blks :: "u64 \<Rightarrow> u16 \<Rightarrow> entry \<Rightarrow> entry" where
  "nvm_cmd_rw_blks slba n_blks cmd = cmd[10 := ucast slba, 11 := ucast (drop_bit 32 slba),
     12 := (cmd ! 12 AND 0xffff0000) OR (ucast (n_blks - 1) AND 0xffff)]"

subsection \<open>Blocks of a file\<close>

record NvmeFileDeviceHandle =
  h_file_id :: u64
  logical_size_bytes :: u64
  header_bytes :: u32
  nvme_block_size :: u32
  nvme_block_size_log :: u32
  namespace_id :: u32
  num_extents :: u32
  extents :: "LbaExtent list"
  num_d_qps :: u32

fun resolve_loop :: "u64 \<Rightarrow> LbaExtent list \<Rightarrow> u64 \<Rightarrow> u64 \<Rightarrow> u64 option" where
  "resolve_loop cursor [] first lst = None"
| "resolve_loop cursor (x # xs) first lst =
     (if first \<ge> cursor \<and> lst \<le> cursor + length_blocks x then Some (start_lba x + (first - cursor))
      else resolve_loop (cursor + length_blocks x) xs first lst)"

definition resolve_lba :: "NvmeFileDeviceHandle option \<Rightarrow> u64 \<Rightarrow> u64 \<Rightarrow> (u64 \<times> u64) option" where
  "resolve_lba ho logical_off nbytes =
     (case ho of None \<Rightarrow> None
      | Some h \<Rightarrow>
          if num_extents h = 0 then None
          else if nbytes = 0 then None
          else if logical_off AND ucast (nvme_block_size h - 1) \<noteq> 0 then None
          else if nbytes AND ucast (nvme_block_size h - 1) \<noteq> 0 then None
          else if logical_off + nbytes > logical_size_bytes h then None
          else
            let disk_off = logical_off + ucast (header_bytes h);
                first = drop_bit (unat (nvme_block_size_log h)) disk_off;
                count = drop_bit (unat (nvme_block_size_log h)) nbytes
            in case resolve_loop 0 (take (unat (num_extents h)) (extents h)) first (first + count) of
                 None \<Rightarrow> None
               | Some lba \<Rightarrow> Some (lba, count))"

subsection \<open>Submitting\<close>

definition acquire_queue :: "u32 \<Rightarrow> u32 \<Rightarrow> u32 \<Rightarrow> u32" where
  "acquire_queue blockDim threadIdx num_queues = (blockDim * 32 + threadIdx) mod num_queues"

text \<open>The identifier, the queue after taking it, and the call of \<open>sq_enqueue\<close> that is then made; None if every identifier
  stays taken.\<close>

definition issue_nvme_cmd :: "nvm_queue \<Rightarrow> u32 \<Rightarrow> entry \<Rightarrow> u64 \<Rightarrow> u64 \<Rightarrow> u64 \<Rightarrow> u64 \<Rightarrow> u8 \<Rightarrow> (u16 \<times> nvm_queue \<times> enq) option" where
  "issue_nvme_cmd sq ns cmd prp1 prp2 n_blocks starting_lba opcode =
     (case get_cid sq of None \<Rightarrow> None
      | Some (cid, sq') \<Rightarrow>
          Some (cid, sq', new_enq (nvm_cmd_rw_blks starting_lba (ucast n_blocks)
            (nvm_cmd_data_ptr prp1 prp2 (nvm_cmd_header cid opcode ns cmd)))))"

text \<open>A request is rejected, waits for an identifier for ever, or is issued on a queue and then polled for.\<close>

datatype submission = Rejected | Waits | Issued u32 u16 nvm_queue enq deq

definition submit_one :: "u8 \<Rightarrow> u32 \<Rightarrow> u32 \<Rightarrow> (u32 \<Rightarrow> nvm_queue \<times> u32) \<Rightarrow> entry \<Rightarrow> NvmeFileDeviceHandle \<Rightarrow> u64 \<Rightarrow> u64 \<Rightarrow> u64 \<Rightarrow> u64 \<Rightarrow> submission" where
  "submit_one opcode blockDim threadIdx qps cmd h prp1 prp2 logical_off nbytes =
     (case resolve_lba (Some h) logical_off nbytes of None \<Rightarrow> Rejected
      | Some (starting_lba, n_blocks) \<Rightarrow>
          let qidx = acquire_queue blockDim threadIdx (num_d_qps h); (sq, ns) = qps qidx in
          case issue_nvme_cmd sq ns cmd prp1 prp2 n_blocks starting_lba opcode of None \<Rightarrow> Waits
          | Some (cid, sq', e) \<Rightarrow> Issued qidx cid sq' e (new_deq cid))"

definition submit_read_one :: "u32 \<Rightarrow> u32 \<Rightarrow> (u32 \<Rightarrow> nvm_queue \<times> u32) \<Rightarrow> entry \<Rightarrow> NvmeFileDeviceHandle \<Rightarrow> u64 \<Rightarrow> u64 \<Rightarrow> u64 \<Rightarrow> u64 \<Rightarrow> submission" where
  "submit_read_one = submit_one NVM_IO_READ"

definition submit_write_one :: "u32 \<Rightarrow> u32 \<Rightarrow> (u32 \<Rightarrow> nvm_queue \<times> u32) \<Rightarrow> entry \<Rightarrow> NvmeFileDeviceHandle \<Rightarrow> u64 \<Rightarrow> u64 \<Rightarrow> u64 \<Rightarrow> u64 \<Rightarrow> submission" where
  "submit_write_one = submit_one NVM_IO_WRITE"

subsection \<open>What a command means\<close>

text \<open>How the controller reads the fields of a read or write command.\<close>

definition cmd_opcode :: "entry \<Rightarrow> u8" where
  "cmd_opcode cmd = ucast (cmd ! 0)"

definition cmd_cid :: "entry \<Rightarrow> u16" where
  "cmd_cid cmd = ucast (drop_bit 16 (cmd ! 0))"

definition cmd_u64 :: "entry \<Rightarrow> nat \<Rightarrow> u64" where
  "cmd_u64 cmd i = ucast (cmd ! i) OR push_bit 32 (ucast (cmd ! Suc i))"

definition cmd_nlb :: "entry \<Rightarrow> nat" where
  "cmd_nlb cmd = unat (cmd ! 12 AND 0xffff) + 1"

lemma u64_halves: "ucast (ucast x :: u32) OR push_bit 32 (ucast (ucast (drop_bit 32 x) :: u32)) = (x :: u64)"
  by (rule bit_word_eqI) (auto simp: bit_simps)

lemma cmd_header_word:
  fixes cid :: u16 and opcode :: u8
  shows "ucast ((push_bit 16 (ucast cid) OR (ucast opcode AND 0x7f)) AND NOT (push_bit 14 3 OR push_bit 8 3) :: u32) = opcode AND 0x7f"
    "ucast (drop_bit 16 ((push_bit 16 (ucast cid) OR (ucast opcode AND 0x7f)) AND NOT (push_bit 14 3 OR push_bit 8 3) :: u32)) = cid"
proof -
  have m: "(0x7f :: u32) = mask 7" "(0x7f :: u8) = mask 7" "(3 :: u32) = mask 2" by (simp_all add: mask_eq_exp_minus_1)
  show "ucast ((push_bit 16 (ucast cid) OR (ucast opcode AND 0x7f)) AND NOT (push_bit 14 3 OR push_bit 8 3) :: u32) = opcode AND 0x7f"
    unfolding m by (rule bit_word_eqI) (auto simp: bit_simps)
  show "ucast (drop_bit 16 ((push_bit 16 (ucast cid) OR (ucast opcode AND 0x7f)) AND NOT (push_bit 14 3 OR push_bit 8 3) :: u32)) = cid"
    unfolding m by (rule bit_word_eqI) (auto simp: bit_simps)
qed

lemma cmd_blocks_word: "((x AND 0xffff0000) OR (ucast (n :: u16) AND 0xffff)) AND 0xffff = (ucast n :: u32)"
proof -
  have m: "(0xffff :: u32) = mask 16" "(0xffff0000 :: u32) = push_bit 16 (mask 16)" by (simp_all add: mask_eq_exp_minus_1)
  show ?thesis unfolding m by (rule bit_word_eqI) (auto simp: bit_simps dest: bit_imp_le_length)
qed

subsection \<open>Resolving\<close>

text \<open>The blocks of a file in order, and how many there are.\<close>

definition file_lbas :: "LbaExtent list \<Rightarrow> nat list" where
  "file_lbas xs = concat (map (\<lambda>x. [unat (start_lba x)..<unat (start_lba x) + unat (length_blocks x)]) xs)"

definition blocks_of :: "LbaExtent list \<Rightarrow> nat" where
  "blocks_of xs = sum_list (map (\<lambda>x. unat (length_blocks x)) xs)"

definition extents_ok :: "nat \<Rightarrow> LbaExtent list \<Rightarrow> bool" where
  "extents_ok c xs \<longleftrightarrow> (\<forall>x\<in>set xs. unat (start_lba x) + unat (length_blocks x) \<le> 2 ^ 64) \<and> c + blocks_of xs < 2 ^ 64"

lemma blocks_of_simps [simp]: "blocks_of [] = 0" "blocks_of (x # xs) = unat (length_blocks x) + blocks_of xs"
  by (simp_all add: blocks_of_def)

lemma file_lbas_simps [simp]:
  "file_lbas [] = []" "file_lbas (x # xs) = [unat (start_lba x)..<unat (start_lba x) + unat (length_blocks x)] @ file_lbas xs"
  by (simp_all add: file_lbas_def)

lemma extents_ok_tl: "extents_ok c (x # xs) \<Longrightarrow> extents_ok (c + unat (length_blocks x)) xs"
  by (simp add: extents_ok_def add.assoc)

lemma cursor_step:
  assumes "unat cursor = c" "extents_ok c (x # xs)"
  shows "unat (cursor + length_blocks x) = c + unat (length_blocks x)"
  using assms by (subst unat_plus_no_wrap) (simp_all add: extents_ok_def)

lemma resolve_loop_behind:
  assumes "extents_ok c xs" "unat cursor = c" "unat first < c"
  shows "resolve_loop cursor xs first lst = None"
  using assms
proof (induction xs arbitrary: cursor c)
  case (Cons x xs)
  have "\<not> cursor \<le> first" using Cons.prems(2,3) by (simp add: word_le_nat_alt)
  then show ?case using Cons.IH [OF extents_ok_tl [OF Cons.prems(1)] cursor_step [OF Cons.prems(2,1)]] Cons.prems(3) by simp
qed simp

lemma resolve_loop_spec:
  assumes "extents_ok c xs" "unat cursor = c" "unat lst = unat first + k" "0 < k" "c \<le> unat first"
  shows "(resolve_loop cursor xs first lst \<noteq> None) \<longleftrightarrow> (\<exists>i<length xs. c + blocks_of (take i xs) \<le> unat first \<and> unat first + k \<le> c + blocks_of (take (Suc i) xs))"
    and "resolve_loop cursor xs first lst = Some lba \<Longrightarrow> take k (drop (unat first - c) (file_lbas xs)) = [unat lba..<unat lba + k]"
proof -
  have "((resolve_loop cursor xs first lst \<noteq> None) \<longleftrightarrow> (\<exists>i<length xs. c + blocks_of (take i xs) \<le> unat first \<and> unat first + k \<le> c + blocks_of (take (Suc i) xs))) \<and>
    (resolve_loop cursor xs first lst = Some lba \<longrightarrow> take k (drop (unat first - c) (file_lbas xs)) = [unat lba..<unat lba + k])"
    using assms
  proof (induction xs arbitrary: cursor c)
    case Nil then show ?case by simp
  next
    case (Cons x xs)
    let ?l = "unat (length_blocks x)" and ?f = "unat first"
    note cu = cursor_step [OF Cons.prems(2,1)] and ok = extents_ok_tl [OF Cons.prems(1)]
    have ex: "(\<exists>i<length (x # xs). c + blocks_of (take i (x # xs)) \<le> ?f \<and> ?f + k \<le> c + blocks_of (take (Suc i) (x # xs))) \<longleftrightarrow>
        ?f + k \<le> c + ?l \<or> (\<exists>i<length xs. (c + ?l) + blocks_of (take i xs) \<le> ?f \<and> ?f + k \<le> (c + ?l) + blocks_of (take (Suc i) xs))"
      using Cons.prems(5) by (simp only: length_Cons Ex_less_Suc2) (simp add: add.assoc)
    show ?case
    proof (cases "?f + k \<le> c + ?l")
      case True
      have hit: "resolve_loop cursor (x # xs) first lst = Some (start_lba x + (first - cursor))"
        using True Cons.prems cu by (simp add: word_le_nat_alt)
      have d: "unat (first - cursor) = ?f - c" using Cons.prems(2,5) by (simp add: unat_sub word_le_nat_alt)
      have "unat (start_lba x) + ?l \<le> 2 ^ 64" using Cons.prems(1) by (simp add: extents_ok_def)
      then have "unat (start_lba x) + (?f - c) < 2 ^ 64" using Cons.prems(4,5) True by linarith
      then have "unat (start_lba x + (first - cursor)) = unat (start_lba x) + (?f - c)" using d by (subst unat_plus_no_wrap) simp_all
      then show ?thesis unfolding ex using hit True Cons.prems(5) by (auto simp: drop_upt take_upt)
    next
      case False
      then have miss: "resolve_loop cursor (x # xs) first lst = resolve_loop (cursor + length_blocks x) xs first lst"
        using Cons.prems cu by (simp add: word_le_nat_alt)
      show ?thesis
      proof (cases "c + ?l \<le> ?f")
        case True
        have d: "drop (?f - c) (file_lbas (x # xs)) = drop (?f - (c + ?l)) (file_lbas xs)" using True by (simp add: drop_upt)
        show ?thesis unfolding ex miss d using Cons.IH [OF ok cu Cons.prems(3,4) True] False by simp
      next
        case behind: False
        then have "resolve_loop (cursor + length_blocks x) xs first lst = None" by (intro resolve_loop_behind [OF ok cu]) simp
        then show ?thesis unfolding ex miss using False behind by auto
      qed
    qed
  qed
  then show "(resolve_loop cursor xs first lst \<noteq> None) \<longleftrightarrow> (\<exists>i<length xs. c + blocks_of (take i xs) \<le> unat first \<and> unat first + k \<le> c + blocks_of (take (Suc i) xs))"
    "resolve_loop cursor xs first lst = Some lba \<Longrightarrow> take k (drop (unat first - c) (file_lbas xs)) = [unat lba..<unat lba + k]" by blast+
qed

subsection \<open>Requests\<close>

definition handle_ok :: "NvmeFileDeviceHandle \<Rightarrow> nat \<Rightarrow> bool" where
  "handle_ok h l \<longleftrightarrow> l < 32 \<and> unat (nvme_block_size_log h) = l \<and> nvme_block_size h = 2 ^ l \<and> 2 ^ l dvd unat (header_bytes h) \<and>
     extents_ok 0 (take (unat (num_extents h)) (extents h))"

text \<open>A request that the file can serve with one command: whole blocks, inside the file, in one extent.\<close>

definition servable :: "NvmeFileDeviceHandle \<Rightarrow> nat \<Rightarrow> nat \<Rightarrow> nat \<Rightarrow> bool" where
  "servable h l off n \<longleftrightarrow> 0 < n \<and> 2 ^ l dvd off \<and> 2 ^ l dvd n \<and> off + n \<le> unat (logical_size_bytes h) \<and>
     (let xs = take (unat (num_extents h)) (extents h); first = (off + unat (header_bytes h)) div 2 ^ l in
      \<exists>i<length xs. blocks_of (take i xs) \<le> first \<and> first + n div 2 ^ l \<le> blocks_of (take (Suc i) xs))"

lemma aligned_iff: "l < 32 \<Longrightarrow> (x :: u64) AND ucast (2 ^ l - 1 :: u32) = 0 \<longleftrightarrow> 2 ^ l dvd unat x"
proof -
  assume l: "l < 32"
  have "(ucast (2 ^ l - 1 :: u32) :: u64) = mask l" unfolding mask_eq_exp_minus_1 [symmetric] using l by (intro bit_word_eqI) (auto simp: bit_simps)
  then have "x AND ucast (2 ^ l - 1 :: u32) = take_bit l x" by (simp add: take_bit_eq_mask)
  moreover have "unat (take_bit l x) = unat x mod 2 ^ l" by (simp only: unsigned_take_bit_eq) (simp only: take_bit_eq_mod)
  ultimately show ?thesis by (simp add: word_unat_eq_iff dvd_eq_mod_eq_0)
qed

lemma resolve_lba_spec:
  assumes h: "handle_ok h l" and w: "unat off + unat n + unat (header_bytes h) < 2 ^ 64"
  shows "resolve_lba (Some h) off n \<noteq> None \<longleftrightarrow> servable h l (unat off) (unat n)"
    and "resolve_lba (Some h) off n = Some (lba, k) \<Longrightarrow> unat k = unat n div 2 ^ l \<and>
      take (unat k) (drop ((unat off + unat (header_bytes h)) div 2 ^ l) (file_lbas (take (unat (num_extents h)) (extents h)))) = [unat lba..<unat lba + unat k]"
proof -
  let ?xs = "take (unat (num_extents h)) (extents h)" and ?d = "off + ucast (header_bytes h)" and ?b = "2 ^ l :: nat"
  let ?f = "drop_bit l ?d" and ?k = "drop_bit l n"
  note h = h [unfolded handle_ok_def]
  have hb: "unat (ucast (header_bytes h) :: u64) = unat (header_bytes h)"
    using unsigned_less [of "header_bytes h", where 'a = nat] by (simp add: unsigned_ucast_eq take_bit_eq_mod)
  have d: "unat ?d = unat off + unat (header_bytes h)" using w hb by (subst unat_plus_no_wrap) simp_all
  have sum: "unat (off + n) = unat off + unat n" using w by (subst unat_plus_no_wrap) simp_all
  have f: "unat ?f = (unat off + unat (header_bytes h)) div ?b" by (simp only: unat_drop_bit_eq) (simp only: drop_bit_eq_div d)
  have k: "unat ?k = unat n div ?b" by (simp only: unat_drop_bit_eq) (simp only: drop_bit_eq_div)
  have "unat ?f \<le> unat off + unat (header_bytes h)" "unat ?k \<le> unat n" unfolding f k by (rule div_le_dividend)+
  then have "unat ?f + unat ?k < 2 ^ 64" using w by linarith
  then have last: "unat (?f + ?k) = unat ?f + unat ?k" by (subst unat_plus_no_wrap) simp_all
  have al: "x AND ucast (nvme_block_size h - 1) = 0 \<longleftrightarrow> ?b dvd unat x" for x :: u64 using aligned_iff [of l x] h by simp
  have pos: "0 < unat ?k" if "n \<noteq> 0" "?b dvd unat n" using that k by (auto simp: unat_gt_0 div_greater_zero_iff dvd_imp_le)
  note r = resolve_loop_spec [of 0 ?xs 0 "?f + ?k" ?f "unat ?k", OF _ _ last]
  have red: "resolve_lba (Some h) off n = (if n \<noteq> 0 \<and> ?b dvd unat off \<and> ?b dvd unat n \<and> unat off + unat n \<le> unat (logical_size_bytes h)
      then map_option (\<lambda>lba. (lba, ?k)) (resolve_loop 0 ?xs ?f (?f + ?k)) else None)"
    using h sum al by (auto simp: resolve_lba_def Let_def word_less_nat_alt not_less split: option.splits)
  show "resolve_lba (Some h) off n \<noteq> None \<longleftrightarrow> servable h l (unat off) (unat n)"
    using r(1) pos h by (auto simp: red servable_def Let_def f k unat_gt_0)
  assume "resolve_lba (Some h) off n = Some (lba, k)"
  then have c: "n \<noteq> 0" "?b dvd unat n" "resolve_loop 0 ?xs ?f (?f + ?k) = Some lba" "k = ?k" unfolding red by (auto split: if_splits)
  have "take (unat ?k) (drop (unat ?f - 0) (file_lbas ?xs)) = [unat lba..<unat lba + unat ?k]" using h pos [OF c(1,2)] by (intro r(2) [OF _ _ _ _ c(3)]) simp_all
  then show "unat k = unat n div ?b \<and> take (unat k) (drop ((unat off + unat (header_bytes h)) div ?b) (file_lbas ?xs)) = [unat lba..<unat lba + unat k]"
    unfolding c(4) f k by simp
qed

lemma issued_command:
  assumes i: "issue_nvme_cmd sq ns cmd p1 p2 k lba opcode = Some (cid, sq', e)" and c: "length cmd = 16" and o: "opcode \<in> {NVM_IO_READ, NVM_IO_WRITE}"
    and k: "0 < unat k" "unat k \<le> 65536"
  shows "cmd_opcode (e_cmd e) = opcode \<and> cmd_cid (e_cmd e) = cid \<and> e_cmd e ! 1 = ns \<and> cmd_u64 (e_cmd e) 6 = p1 \<and> cmd_u64 (e_cmd e) 8 = p2 \<and>
    cmd_u64 (e_cmd e) 10 = lba \<and> cmd_nlb (e_cmd e) = unat k"
proof -
  have e: "e_cmd e = nvm_cmd_rw_blks lba (ucast k) (nvm_cmd_data_ptr p1 p2 (nvm_cmd_header cid opcode ns cmd))"
    using i by (auto simp: issue_nvme_cmd_def new_enq_def split: option.splits)
  have w: "e_cmd e ! 0 = (push_bit 16 (ucast cid) OR (ucast opcode AND 0x7f)) AND NOT (push_bit 14 3 OR push_bit 8 3)" "e_cmd e ! 1 = ns"
    "e_cmd e ! 6 = ucast p1" "e_cmd e ! 7 = ucast (drop_bit 32 p1)" "e_cmd e ! 8 = ucast p2" "e_cmd e ! 9 = ucast (drop_bit 32 p2)"
    "e_cmd e ! 10 = ucast lba" "e_cmd e ! 11 = ucast (drop_bit 32 lba)" "e_cmd e ! 12 = (cmd ! 12 AND 0xffff0000) OR (ucast (ucast k - 1 :: u16) AND 0xffff)"
    using c unfolding e nvm_cmd_rw_blks_def nvm_cmd_data_ptr_def nvm_cmd_header_def by simp_all
  have "cmd_opcode (e_cmd e) = opcode AND 0x7f" unfolding cmd_opcode_def w(1) by (rule cmd_header_word)
  then have "cmd_opcode (e_cmd e) = opcode" using o by auto
  moreover have "cmd_cid (e_cmd e) = cid" unfolding cmd_cid_def w(1) by (rule cmd_header_word)
  moreover have "cmd_u64 (e_cmd e) 6 = p1" "cmd_u64 (e_cmd e) 8 = p2" "cmd_u64 (e_cmd e) 10 = lba"
    using u64_halves w by (simp_all add: cmd_u64_def)
  moreover have "unat (ucast (ucast k - 1 :: u16) :: u32) = unat k - 1"
  proof -
    have "(ucast k - 1 :: u16) = of_nat (unat k - 1)" using k(1) by (simp add: of_nat_diff Suc_le_eq)
    then have "unat (ucast k - 1 :: u16) = unat k - 1" using k by (simp only:) (intro unat_of_nat_small, simp)
    then show ?thesis using k(2) by (simp add: unsigned_ucast_eq take_bit_eq_mod)
  qed
  then have "cmd_nlb (e_cmd e) = unat k" using k(1) unfolding cmd_nlb_def w(9) cmd_blocks_word by simp
  ultimately show ?thesis using w(2) by blast
qed

text \<open>C40. A read or write of a file is turned down exactly if it is not a run of whole blocks inside the file and inside one
  of its extents. Otherwise the command that is enqueued, read the way the controller reads it, carries the opcode, the
  identifier that will be polled for, the namespace and the data pointers that were given, and addresses exactly the blocks
  of the file behind its header that the request asks for, in order. This holds for requests whose end does not wrap
  around 64 bits and of at most 65536 blocks, whatever was in the memory of the command before.\<close>

theorem submit_one_addresses_file_blocks:
  assumes "handle_ok h l" "unat off + unat n + unat (header_bytes h) < 2 ^ 64" "unat n \<le> 65536 * 2 ^ l"
    and "length cmd = 16" "opcode \<in> {NVM_IO_READ, NVM_IO_WRITE}"
  shows "(submit_one opcode bd t qps cmd h p1 p2 off n = Rejected \<longleftrightarrow> \<not> servable h l (unat off) (unat n)) \<and>
    (\<forall>q cid sq e d. submit_one opcode bd t qps cmd h p1 p2 off n = Issued q cid sq e d \<longrightarrow>
       cmd_opcode (e_cmd e) = opcode \<and> cmd_cid (e_cmd e) = cid \<and> d_cid d = cid \<and> e_cmd e ! 1 = snd (qps q) \<and>
       cmd_u64 (e_cmd e) 6 = p1 \<and> cmd_u64 (e_cmd e) 8 = p2 \<and> cmd_nlb (e_cmd e) = unat n div 2 ^ l \<and>
       [unat (cmd_u64 (e_cmd e) 10)..<unat (cmd_u64 (e_cmd e) 10) + cmd_nlb (e_cmd e)] =
         take (unat n div 2 ^ l) (drop ((unat off + unat (header_bytes h)) div 2 ^ l) (file_lbas (take (unat (num_extents h)) (extents h)))))"
proof (intro conjI allI impI)
  note r = resolve_lba_spec [OF assms(1,2)]
  show "submit_one opcode bd t qps cmd h p1 p2 off n = Rejected \<longleftrightarrow> \<not> servable h l (unat off) (unat n)"
    using r(1) by (auto simp: submit_one_def Let_def split: option.splits prod.splits)
  fix q cid sq e d
  assume "submit_one opcode bd t qps cmd h p1 p2 off n = Issued q cid sq e d"
  then obtain lba k where s: "resolve_lba (Some h) off n = Some (lba, k)"
    "issue_nvme_cmd (fst (qps q)) (snd (qps q)) cmd p1 p2 k lba opcode = Some (cid, sq, e)" "d = new_deq cid"
    by (auto simp: submit_one_def Let_def split: option.splits prod.splits)
  have "servable h l (unat off) (unat n)" using r(1) s(1) by auto
  then have k: "unat k = unat n div 2 ^ l" "0 < unat k" "unat k \<le> 65536"
    using r(2) [OF s(1)] div_le_mono [OF assms(3), of "2 ^ l"] by (auto simp: servable_def dvd_imp_le div_greater_zero_iff)
  note c = issued_command [OF s(2) assms(4,5) k(2,3)]
  show "cmd_opcode (e_cmd e) = opcode" "cmd_cid (e_cmd e) = cid" "d_cid d = cid" "e_cmd e ! 1 = snd (qps q)" "cmd_u64 (e_cmd e) 6 = p1" "cmd_u64 (e_cmd e) 8 = p2"
    "cmd_nlb (e_cmd e) = unat n div 2 ^ l" using c k(1) s(3) by (simp_all add: new_deq_def)
  show "[unat (cmd_u64 (e_cmd e) 10)..<unat (cmd_u64 (e_cmd e) 10) + cmd_nlb (e_cmd e)] =
      take (unat n div 2 ^ l) (drop ((unat off + unat (header_bytes h)) div 2 ^ l) (file_lbas (take (unat (num_extents h)) (extents h))))"
    using c k(1) conjunct2 [OF r(2) [OF s(1)], symmetric] by simp
qed

definition handle_ex :: NvmeFileDeviceHandle where
  "handle_ex = \<lparr>h_file_id = 1, logical_size_bytes = 200 * 4096, header_bytes = 4096, nvme_block_size = 4096, nvme_block_size_log = 12,
     namespace_id = 1, num_extents = 2, extents = [\<lparr>start_lba = 1000, length_blocks = 100\<rparr>, \<lparr>start_lba = 5000, length_blocks = 120\<rparr>],
     num_d_qps = 4\<rparr>"

text \<open>Without the bound on the end of the request the sum of offset and length wraps, and so does the offset behind the
  header: the request at the last block of the 64-bit range is taken for the block of the header.\<close>

lemma resolve_lba_wraps_to_header: "resolve_lba (Some handle_ex) (- 4096) 4096 = Some (1000, 1)"
  by (simp add: resolve_lba_def handle_ex_def Let_def drop_bit_eq_div)

definition submit_ex :: submission where
  "submit_ex = submit_one NVM_IO_READ 1 0 (\<lambda>_. (init_queue 10 1 64 0x1008 0 [], 1)) (replicate 16 0xffffffff) handle_ex 0x7000 0 409600 8192"

theorem submit_one_addresses_file_blocks_witness:
  "\<exists>q cid sq e d. submit_ex = Issued q cid sq e d \<and> cmd_opcode (e_cmd e) = 2 \<and> cmd_nlb (e_cmd e) = 2 \<and>
     [unat (cmd_u64 (e_cmd e) 10)..<unat (cmd_u64 (e_cmd e) 10) + cmd_nlb (e_cmd e)] = [5001, 5002]"
proof -
  have h: "handle_ok handle_ex 12" by (simp add: handle_ok_def handle_ex_def extents_ok_def)
  have "servable handle_ex 12 409600 8192" unfolding servable_def Let_def
    by (intro conjI exI [of _ 1]) (simp_all add: handle_ex_def)
  then have "submit_ex \<noteq> Rejected" 
    using submit_one_addresses_file_blocks [OF h, where off = 409600 and n = 8192 and cmd = "replicate 16 0xffffffff" and opcode = NVM_IO_READ and
      bd = 1 and t = 0 and qps = "\<lambda>_. (init_queue 10 1 64 0x1008 0 [], 1)" and ?p1.0 = 28672 and ?p2.0 = 0]
    by (simp add: submit_ex_def handle_ex_def)
  moreover have "get_cid (init_queue 10 1 64 0x1008 0 []) \<noteq> None"
    by (subst get_cid.simps) (simp add: init_queue_def Let_def)
  then have "submit_ex \<noteq> Waits" by (auto simp: submit_ex_def submit_one_def issue_nvme_cmd_def Let_def split: option.splits)
  ultimately obtain q cid sq e d where i: "submit_ex = Issued q cid sq e d" by (cases submit_ex) simp_all
  have "cmd_opcode (e_cmd e) = 2 \<and> cmd_nlb (e_cmd e) = 2 \<and>
      [unat (cmd_u64 (e_cmd e) 10)..<unat (cmd_u64 (e_cmd e) 10) + cmd_nlb (e_cmd e)] = [5001, 5002]"
    using submit_one_addresses_file_blocks [OF h, where off = 409600 and n = 8192 and cmd = "replicate 16 0xffffffff" and opcode = NVM_IO_READ and
      bd = 1 and t = 0 and qps = "\<lambda>_. (init_queue 10 1 64 0x1008 0 [], 1)" and ?p1.0 = 28672 and ?p2.0 = 0] i
    by (auto simp: submit_ex_def handle_ex_def upt_conv_Cons)
  then show ?thesis using i by blast
qed

end
