(* ===== verification/Spec2Isabelle.thy ===== *)
theory Spec2Isabelle
  imports Io_Queue_Claims System_Release Control_Claims Parallel_Claims Nvme_Io
begin

text \<open>
  Verification of the user-space NVMe stack: the kernel module snvme for the 5.10 NPU baseline, the queues of libnvm, and
  the storage layer above them.

  \<^bold>\<open>The program.\<close> The kernel module drives NVMe controllers and lends them to processes. A process opens the character
  device of a controller, maps host or device memory for DMA, asks for a queue group and for user queues whose rings lie
  in that memory, and then talks to the controller through the doorbells without the kernel. Closing the file takes
  everything back. In the process libnvm fills the rings, in a single thread or from any number of GPU threads at once, and
  the storage layer keeps files as lists of blocks and turns reads and writes of a file into commands on these rings.

  \<^bold>\<open>The kernel module\<close> (\<open>src/backends/local/kernel_modules/snvme-5.10-npu\<close>). A state \<open>kst\<close> (theory \<open>Snvme_Types\<close>) holds one
  record per C struct; pointers are identities looked up in maps, intrusive lists are sequences, and a log records the
  events that matter outside, such as admin commands, page pins and dma-buf references. An operation takes the
  environment, its arguments and the state, and returns the C return code (negative errno values) with the new state.
  \<^item> \<open>Klist\<close>: \<open>list.c\<close> with its pointers on an explicit heap; the locale \<open>intrusive_list\<close> is the contract, and the pointer
    code is shown to implement sequences, which is why the rest of the model uses sequences.
  \<^item> \<open>Npu_P2p\<close>, \<open>Map_Mem\<close>, \<open>Map_Accounting\<close>: \<open>npu-p2p.c\<close> and \<open>map.c\<close>. The locale \<open>resource_accounting\<close> states what it means
    that pins, dma-buf references and IOMMU mappings balance what descriptors hold; it is interpreted for the three.
  \<^item> \<open>Qid_Pool\<close>, \<open>Ctrl_Obj\<close>, \<open>Queue_Group\<close>, \<open>Queue_Ioctl\<close>, \<open>Map_Ioctl\<close>, \<open>Setup_Ioctl\<close>, \<open>Dev_File\<close>: \<open>ctrl.c\<close> and the requests of
    \<open>pci.c\<close>, handler by handler, with every error path; the locale \<open>id_allocator\<close> is the contract of the QID pool.
  \<^item> \<open>Control_Ioctl\<close>: the control device, probe, remove and unloading. \<open>Io_Queue_Setup\<close>: \<open>s_nvme_setup_io_queues\<close> and all it
    calls; \<open>Io_Queue_Bringup\<close> and \<open>Io_Queue_Claims\<close> hold its properties.
  \<^item> \<open>System_Core\<close> to \<open>System_Release\<close> and \<open>Control_Claims\<close>: the module as a transition system of system calls, its invariants
    on queues and on memory, and the properties of every reachable state.

  \<^bold>\<open>The queues of libnvm\<close> (\<open>src/backends/local/nvme/libnvm\<close>).
  \<^item> \<open>Nvm_Queue\<close>: the descriptor \<open>nvm_queue_t\<close> and the operations of \<open>nvm_queue.h\<close> and \<open>queue.cpp\<close> for one thread.
  \<^item> \<open>Nvm_Parallel_Queue\<close>: \<open>nvm_parallel_queue.h\<close>. A call is a program counter with its local variables, and one step of
    \<open>enq_step\<close> or \<open>deq_step\<close> is one atomic access to the shared descriptor; \<open>pq_step\<close> interleaves the steps of all calls
    with those of the controller, which fetches the commands before the doorbell and writes completions.
  \<^item> \<open>Parallel_Protocol\<close> proves the ticket protocol on plain numbers, \<open>Parallel_Invariant\<close> ties these numbers to the 32-bit
    words, \<open>Parallel_Steps\<close> and \<open>Parallel_Retire\<close> show that every step keeps the invariant, \<open>Parallel_Run\<close> constructs runs of
    any length, and \<open>Parallel_Claims\<close> states what follows.

  \<^bold>\<open>The storage layer\<close> (\<open>src/nvme_storage\<close>).
  \<^item> \<open>File_Log\<close>: the directory of a device (\<open>persistent_file_log.cpp\<close>), in memory and as bytes on disk.
  \<^item> \<open>Nvme_Io\<close>: \<open>nvm_cmd.h\<close>, \<open>resolve_lba\<close>, \<open>submit_read_one\<close> and \<open>submit_write_one\<close>; the command they compose is the argument of a
    call of \<open>sq_enqueue\<close> in \<open>Nvm_Parallel_Queue\<close>, so together with \<open>Parallel_Claims\<close> a request reaches the controller as the
    blocks of the file it names.

  \<^bold>\<open>What is shown.\<close> Every user QID and every queue on a controller belongs to one open file, in every reachable state
  (\<open>System_Claims\<close>; the queues created for rings registered before a bind excepted, which belong to no file); the queue and mapping requests do what they promise on success and change nothing on failure
  (\<open>Queue_Ioctl\<close>, \<open>Map_Ioctl\<close>, \<open>Map_Accounting\<close>); rings stay mapped until their queues are deleted (\<open>Queue_Group\<close>), and closing
  a file or unloading the module returns everything (\<open>System_Release\<close>); the bring-up of the kernel queues ends and leaves the
  user QIDs it should (\<open>Io_Queue_Claims\<close>); the controller fetches the commands GPU threads enqueue exactly once, intact and in
  order, and no slot is written by two of them (\<open>Parallel_Claims\<close>); the directory survives failures and crashes
  (\<open>File_Log\<close>) and requests address the right blocks (\<open>Nvme_Io\<close>). Some properties record where the code goes wrong: ticket numbers
  that wrap, the test for a full queue, a bring-up that overruns its array, counters that wrap, clean-up that
  uses an uninitialised pointer, queues that outlive the rings registered for them, and a bind that leaves a device without driver.

  \<^bold>\<open>Assumptions and bounds.\<close> System calls of the kernel module are atomic, as the mutexes of \<open>pci.c\<close> order them. The runs
  of the module (\<open>reachable\<close>, \<open>System_Steps\<close>) are those in which no controller record is removed while a file is open on it:
  \<open>SNVM_CHRDEV_REMOVE\<close> does not check for this (\<open>remove_under_open_file\<close>), and a file that lost its record refers to freed
  memory, so that nothing can be said of what follows. A reset leaves any device state and, where the bring-up takes over
  rings registered before the bind (\<open>pre_registered\<close>, the flag \<open>use_user_allocated\<close>), sends any commands for user queues; the
  ownership of the queues on a controller is stated for the other controllers. The PCI core,
  the memory management, the controller's replies and the results of file system calls are arguments of the definitions;
  what a theorem needs of them is a hypothesis in its statement. Memory is sequentially consistent in the model of the GPU
  queues. There the field SQHD of a completion is a head the controller has had since the last one the host saw, the rule
  of NVMe that \<open>sqhd_ok\<close> states as the premise of the step that reads it. Queue sizes are \<open>2 ^ L\<close> with \<open>L\<close> up to 16, the largest an
  NVMe queue can have, and the properties of the shared queues are stated up to \<open>2 ^ 32\<close> commands because after that the
  code stops working. No definition stops short for want of fuel: \<open>clear_map_list\<close> and \<open>clear_ctrl_list\<close> count down from the
  length of the list they empty, which they shorten in every round. Loops that need not end for every input (\<open>list_walk\<close>, \<open>map_purge_loop\<close>, \<open>setup_loop\<close>,
  \<open>get_cid\<close>) are partial functions with None for not returning, and for the first three it is shown when they return;
  the waits of the GPU threads are steps that leave the thread where it is.

  \<^bold>\<open>Not modelled.\<close> The vendored Linux NVMe core, the closed NVIDIA back end and the ports of the module to two other kernels,
  which repeat the code modelled here; interrupt handlers, the block layer and reference counts of PCI devices; the weaker
  memory orders of the GPU atomics and the back-off sleeps; \<open>sq_dequeue\<close>, \<open>move_head_sq\<close>, \<open>clean_cids\<close> and the builders of PRP lists, which
  nothing on the modelled paths calls; and the parts of user space that are calls of the CUDA runtime, the host file
  system and sockets: the NVMe service, the device manager, the memory subsystem, mounting and FIEMAP in the
  storage layer, the legacy ext4 stack, and the test programs.
\<close>

end
